(* ===== verification/Prelude.thy ===== *)
theory Prelude
  imports Complex_Main "HOL-Library.AList" "HOL-Library.Multiset"
    "HOL-Library.Char_ord" "HOL-Library.List_Lexorder"
begin

text \<open>
  Shared vocabulary of the development: the Python values the components exchange
  (time stamps, clock readings, paths, exceptions), Python string and path operations,
  insertion-ordered dictionaries, and a small file system.

  \<^item> A UTC \<^verbatim>\<open>datetime\<close> is its number of microseconds since 1970-01-01 (the resolution of
    Python's type), so comparison and subtraction are those of \<^typ>\<open>int\<close>.
  \<^item> A clock reading (\<^verbatim>\<open>time.time()\<close>, \<^verbatim>\<open>time.monotonic()\<close>) is an exact rational number of
    seconds; the rounding of the IEEE double that carries it is not modelled.
  \<^item> A \<^verbatim>\<open>pathlib.Path\<close> is the list of its components; \<^verbatim>\<open>sorted\<close> on paths compares the
    component lists lexicographically, as \<open>List_Lexorder\<close> does.
  \<^item> An exception is a value of \<open>py_error\<close>; a \<^verbatim>\<open>ClientError\<close> of the object store carries its error
    code, an operational alert its code and reason.
  \<^item> A Python \<^verbatim>\<open>dict\<close> is an association list: assignment to a present key keeps its
    position, a new key goes to the end (\<open>AList.update\<close>), \<^verbatim>\<open>del\<close> is \<open>AList.delete\<close>, and
    \<^verbatim>\<open>values()\<close> reads the list from the front.
\<close>

section \<open>Value types\<close>

type_synonym timestamp = int
type_synonym seconds = rat
type_synonym path = "string list"
type_synonym bytes = string

datatype py_error =
    ValueError
  | KeyError
  | ZeroDivisionError
  | RuntimeError
  | AssertionError
  | OSError
  | FileNotFoundError
  | WalBufferOverflowError
  | IntegrityError
  | EndpointConnectionError
  | ClientError string
  | ConditionalWriteConflict
  | NASOperationalAlert string string
  | PromotionVerifyError
  | AttributeError
  | TypeError
  | IndexError
  | NotImplementedError

named_theorems fs_simps \<open>how the file system operations act on look-up\<close>

section \<open>Strings\<close>

definition ends_with :: "string \<Rightarrow> string \<Rightarrow> bool" where
  "ends_with s suf \<longleftrightarrow> length suf \<le> length s \<and> drop (length s - length suf) s = suf"

definition starts_with :: "string \<Rightarrow> string \<Rightarrow> bool" where
  "starts_with s pre \<longleftrightarrow> take (length pre) s = pre"

text \<open>\<^verbatim>\<open>s[:-len(suf)]\<close> for a suffix that is present.\<close>

definition drop_suffix :: "string \<Rightarrow> string \<Rightarrow> string" where
  "drop_suffix s suf = take (length s - length suf) s"

definition removeprefix :: "string \<Rightarrow> string \<Rightarrow> string" where
  "removeprefix s pre = (if starts_with s pre then drop (length pre) s else s)"

text \<open>\<^verbatim>\<open>s.split(c, n)\<close>: at most \<open>n\<close> cuts, from the left.\<close>

primrec split_max :: "char \<Rightarrow> nat \<Rightarrow> string \<Rightarrow> string list" where
  "split_max c 0 s = [s]"
| "split_max c (Suc n) s =
     (if c \<in> set s
      then takeWhile (\<lambda>x. x \<noteq> c) s # split_max c n (tl (dropWhile (\<lambda>x. x \<noteq> c) s))
      else [s])"

text \<open>\<^verbatim>\<open>s.split(c)\<close>: every occurrence of \<open>c\<close> cuts.\<close>

fun split_on :: "char \<Rightarrow> string \<Rightarrow> string list" where
  "split_on c [] = [[]]"
| "split_on c (x # xs) =
     (if x = c then [] # split_on c xs
      else (case split_on c xs of [] \<Rightarrow> [[x]] | w # ws \<Rightarrow> (x # w) # ws))"

text \<open>\<^verbatim>\<open>sub in s\<close>.\<close>

fun has_sub :: "string \<Rightarrow> string \<Rightarrow> bool" where
  "has_sub sub [] \<longleftrightarrow> sub = []"
| "has_sub sub (c # s) \<longleftrightarrow> starts_with (c # s) sub \<or> has_sub sub s"

text \<open>\<^verbatim>\<open>s.replace(a, b)\<close> for characters and \<^verbatim>\<open>s.rstrip(c)\<close>.\<close>

definition replace_char :: "char \<Rightarrow> char \<Rightarrow> string \<Rightarrow> string" where
  "replace_char a b s = map (\<lambda>c. if c = a then b else c) s"

definition rstrip :: "char \<Rightarrow> string \<Rightarrow> string" where
  "rstrip c s = rev (dropWhile (\<lambda>x. x = c) (rev s))"

definition is_digit :: "char \<Rightarrow> bool" where
  "is_digit c \<longleftrightarrow> 48 \<le> (of_char c :: nat) \<and> (of_char c :: nat) \<le> 57"

definition is_space :: "char \<Rightarrow> bool" where
  "is_space c \<longleftrightarrow> (of_char c :: nat) \<in> set [9, 10, 11, 12, 13, 28, 29, 30, 31, 32]"

text \<open>\<^verbatim>\<open>int(s)\<close> on ASCII text: blanks around, a sign, digits with single underscores between them.\<close>

fun digits_val :: "nat \<Rightarrow> string \<Rightarrow> nat option" where
  "digits_val acc [] = Some acc"
| "digits_val acc (c # cs) =
     (if is_digit c then digits_val (10 * acc + (of_char c - 48)) cs
      else if c = CHR ''_'' \<and> cs \<noteq> [] \<and> is_digit (hd cs) then digits_val acc cs else None)"

definition py_int :: "string \<Rightarrow> py_error + int" where
  "py_int s =
     (let t = rev (dropWhile is_space (rev (dropWhile is_space s)));
          neg = (t \<noteq> [] \<and> hd t = CHR ''-'');
          u = (if t \<noteq> [] \<and> (hd t = CHR ''-'' \<or> hd t = CHR ''+'') then tl t else t) in
      if u \<noteq> [] \<and> is_digit (hd u)
      then case digits_val 0 u of None \<Rightarrow> Inl ValueError | Some n \<Rightarrow> Inr (if neg then - int n else int n)
      else Inl ValueError)"

section \<open>Sequencing\<close>

text \<open>
  An operation on a state that may raise yields its outcome and the state it leaves; the next
  operation runs when the first did not raise.
\<close>

definition and_then :: "('e + 'a) \<times> 's \<Rightarrow> ('a \<Rightarrow> 's \<Rightarrow> ('e + 'b) \<times> 's) \<Rightarrow> ('e + 'b) \<times> 's" where
  "and_then r f = (case r of (Inl e, s) \<Rightarrow> (Inl e, s) | (Inr x, s) \<Rightarrow> f x s)"

lemma and_then_simps [simp]:
  "and_then (Inl e, s) f = (Inl e, s)" "and_then (Inr x, s) f = f x s"
  by (simp_all add: and_then_def)

lemma and_then_keeps:
  assumes "P (snd r)" "\<And>x. fst r = Inr x \<Longrightarrow> P (snd r) \<Longrightarrow> P (snd (f x (snd r)))"
  shows "P (snd (and_then r f))"
  using assms by (cases r; cases "fst r") auto

lemma and_then_Inr:
  "and_then r f = (Inr y, t) \<longleftrightarrow> (\<exists>x s. r = (Inr x, s) \<and> f x s = (Inr y, t))"
  by (cases r; cases "fst r") auto

section \<open>Paths\<close>

definition path_name :: "path \<Rightarrow> string" where
  "path_name p = (if p = [] then [] else last p)"

text \<open>\<^verbatim>\<open>Path(str(p) + suf)\<close> for a suffix without a separator.\<close>

definition path_add :: "path \<Rightarrow> string \<Rightarrow> path" where
  "path_add p suf = butlast p @ [path_name p @ suf]"

section \<open>A file system\<close>

text \<open>
  A file system maps paths to files of some type. \<^verbatim>\<open>os.replace\<close> moves a file and silently
  replaces what was at the target.
\<close>

type_synonym 'f fsys = "(path \<times> 'f) list"

definition fs_get :: "'f fsys \<Rightarrow> path \<Rightarrow> 'f option" where
  "fs_get fs p = map_of fs p"

definition fs_exists :: "'f fsys \<Rightarrow> path \<Rightarrow> bool" where
  "fs_exists fs p \<longleftrightarrow> fs_get fs p \<noteq> None"

definition fs_put :: "path \<Rightarrow> 'f \<Rightarrow> 'f fsys \<Rightarrow> 'f fsys" where
  "fs_put p f fs = AList.update p f fs"

definition fs_del :: "path \<Rightarrow> 'f fsys \<Rightarrow> 'f fsys" where
  "fs_del p fs = AList.delete p fs"

definition fs_replace :: "path \<Rightarrow> path \<Rightarrow> 'f fsys \<Rightarrow> 'f fsys" where
  "fs_replace p q fs =
     (case fs_get fs p of None \<Rightarrow> fs | Some f \<Rightarrow> fs_put q f (fs_del p fs))"

text \<open>\<^verbatim>\<open>sorted(root.rglob("*" + suf))\<close>: the files under \<open>root\<close> whose name ends in \<open>suf\<close>.\<close>

definition fs_rglob :: "path \<Rightarrow> string \<Rightarrow> 'f fsys \<Rightarrow> path list" where
  "fs_rglob base suf fs =
     sort (remdups (filter (\<lambda>p. take (length base) p = base \<and> length base < length p
                                \<and> ends_with (path_name p) suf) (map fst fs)))"

section \<open>Lemmas on strings\<close>

lemma ends_with_append [simp]: "ends_with (s @ suf) suf"
  by (simp add: ends_with_def)

lemma ends_with_iff: "ends_with s suf \<longleftrightarrow> (\<exists>pre. s = pre @ suf)"
proof
  assume "ends_with s suf"
  then have "s = take (length s - length suf) s @ suf"
    by (metis append_take_drop_id ends_with_def)
  then show "\<exists>pre. s = pre @ suf" by blast
qed auto

lemma drop_suffix_append [simp]: "drop_suffix (s @ suf) suf = s"
  by (simp add: drop_suffix_def)

lemma starts_with_append [simp]: "starts_with (pre @ s) pre"
  by (simp add: starts_with_def)

lemma starts_with_iff: "starts_with s pre \<longleftrightarrow> (\<exists>t. s = pre @ t)"
  unfolding starts_with_def by (metis append_eq_conv_conj append_take_drop_id)

lemma removeprefix_append [simp]: "removeprefix (pre @ s) pre = s"
  by (simp add: removeprefix_def)

lemma removeprefix_other: "\<not> starts_with s pre \<Longrightarrow> removeprefix s pre = s"
  by (simp add: removeprefix_def)

text \<open>Two strings that end in different last characters do not share a suffix.\<close>

lemma ends_with_last: "suf \<noteq> [] \<Longrightarrow> ends_with s suf \<Longrightarrow> s \<noteq> [] \<and> last s = last suf"
  by (auto simp: ends_with_iff)

lemma split_max_hit:
  "c \<notin> set a \<Longrightarrow> split_max c (Suc n) (a @ c # b) = a # split_max c n b"
proof -
  assume "c \<notin> set a"
  then have "takeWhile (\<lambda>x. x \<noteq> c) (a @ c # b) = a" and "dropWhile (\<lambda>x. x \<noteq> c) (a @ c # b) = c # b"
    by (induction a) auto
  then show ?thesis by simp
qed

lemma split_max_miss: "c \<notin> set a \<Longrightarrow> split_max c n a = [a]"
  by (cases n) auto

lemma split_on_nonempty [simp]: "split_on c s \<noteq> []"
  by (induction s) (auto split: list.splits)

lemma split_on_miss: "c \<notin> set s \<Longrightarrow> split_on c s = [s]"
  by (induction s) auto

lemma split_on_hit: "c \<notin> set a \<Longrightarrow> split_on c (a @ c # b) = a # split_on c b"
  by (induction a) auto

section \<open>Lemmas on paths\<close>

lemma path_add_nonempty [simp]: "path_add p s \<noteq> []"
  by (simp add: path_add_def)

lemma path_name_path_add [simp]: "path_name (path_add p s) = path_name p @ s"
  by (simp add: path_name_def path_add_def)

lemma path_name_append [simp]: "path_name (p @ [x]) = x"
  by (simp add: path_name_def)

lemma path_add_append [simp]: "path_add (p @ [x]) s = p @ [x @ s]"
  by (simp add: path_add_def)

lemma path_add_eq_iff: "p \<noteq> [] \<Longrightarrow> q \<noteq> [] \<Longrightarrow> path_add p s = path_add q s \<longleftrightarrow> p = q"
  by (metis append1_eq_conv append_butlast_last_id append_same_eq path_add_def path_name_def)

lemma path_add_neq_self: "s \<noteq> [] \<Longrightarrow> path_add p s \<noteq> p"
  by (metis append_self_conv path_name_path_add)

section \<open>Lemmas on the file system\<close>

lemma fs_get_put [fs_simps]: "fs_get (fs_put p f fs) q = (if q = p then Some f else fs_get fs q)"
  by (simp add: fs_get_def fs_put_def update_conv')

lemma fs_get_del [fs_simps]: "fs_get (fs_del p fs) q = (if q = p then None else fs_get fs q)"
  by (simp add: fs_get_def fs_del_def delete_conv')

lemma fs_get_replace [fs_simps]:
  "fs_get fs p = Some f \<Longrightarrow>
   fs_get (fs_replace p q fs) r =
     (if r = q then Some f else if r = p then None else fs_get fs r)"
  by (simp add: fs_replace_def fs_simps)

lemma fs_get_Nil [fs_simps]: "fs_get [] p = None"
  by (simp add: fs_get_def)

lemma fs_exists_put [fs_simps]: "fs_exists (fs_put p f fs) q \<longleftrightarrow> q = p \<or> fs_exists fs q"
  by (simp add: fs_exists_def fs_simps)

lemma fs_exists_del [fs_simps]: "fs_exists (fs_del p fs) q \<longleftrightarrow> q \<noteq> p \<and> fs_exists fs q"
  by (simp add: fs_exists_def fs_simps)

lemma fs_exists_dom: "fs_exists fs p \<longleftrightarrow> p \<in> set (map fst fs)"
  by (auto simp: fs_exists_def fs_get_def map_of_eq_None_iff)

lemma set_fs_rglob:
  "set (fs_rglob base suf fs) =
     {p. fs_exists fs p \<and> take (length base) p = base \<and> length base < length p
         \<and> ends_with (path_name p) suf}"
  by (auto simp: fs_rglob_def fs_exists_dom)

lemma sorted_fs_rglob: "sorted (fs_rglob base suf fs)"
  by (simp add: fs_rglob_def)

lemma distinct_fs_rglob: "distinct (fs_rglob base suf fs)"
  by (simp add: fs_rglob_def)

section \<open>Lemmas on dictionaries and sorting\<close>

lemma map_of_update_Some: "map_of (AList.update k v d) k' = (if k' = k then Some v else map_of d k')"
  by (simp add: update_conv')

lemma update_new: "map_of d k = None \<Longrightarrow> AList.update k v d = d @ [(k, v)]"
  by (induction d) (auto split: if_splits)

lemma map_of_values:
  "distinct (map fst d) \<Longrightarrow> v \<in> snd ` set d \<longleftrightarrow> (\<exists>k. map_of d k = Some v)"
  by force

lemma length_update:
  "length (AList.update k v d) = (if map_of d k = None then Suc (length d) else length d)"
  by (induction d) auto

lemma sorted_map_sort_key: "sorted (map f (sort_key f xs))"
  by simp

text \<open>\<^verbatim>\<open>sorted(xs, key=f)\<close> is stable and \<open>sort_key\<close> is the library's stable sort.\<close>

lemma sort_key_perm: "mset (sort_key f xs) = mset xs"
  by simp

end
