(* ===== verification/Calendar.thy ===== *)
theory Calendar
  imports Prelude
begin

text \<open>
  The part of Python's \<^verbatim>\<open>datetime\<close> the program relies on: the proleptic Gregorian
  calendar in UTC between the years 1 and 9999, \<^verbatim>\<open>datetime.fromtimestamp(s, tz=utc)\<close> on whole
  seconds, and the two \<^verbatim>\<open>strftime\<close> formats used in file names and partition directories.
  The main result is that both formats separate the instants they are meant to separate:
  the compact format is injective on seconds and the date format on days.
\<close>

section \<open>The calendar\<close>

definition leap :: "nat \<Rightarrow> bool" where
  "leap y \<longleftrightarrow> 4 dvd y \<and> (\<not> 100 dvd y \<or> 400 dvd y)"

definition ylen :: "nat \<Rightarrow> nat" where
  "ylen y = (if leap y then 366 else 365)"

definition month_lengths :: "nat \<Rightarrow> nat list" where
  "month_lengths y = [31, if leap y then 29 else 28, 31, 30, 31, 30, 31, 31, 30, 31, 30, 31]"

text \<open>Walk forward from the start of year \<open>y\<close>: the year that holds day \<open>n\<close>, and the rest.\<close>

function year_of :: "nat \<Rightarrow> nat \<Rightarrow> nat \<times> nat" where
  "year_of n y = (if n < ylen y then (y, n) else year_of (n - ylen y) (Suc y))"
  by pat_completeness auto
termination
  by (relation "measure fst") (auto simp: ylen_def)

declare year_of.simps [simp del]

fun month_of :: "nat list \<Rightarrow> nat \<Rightarrow> nat \<Rightarrow> nat \<times> nat" where
  "month_of [] m n = (m, Suc n)"
| "month_of (l # ls) m n = (if n < l then (m, Suc n) else month_of ls (Suc m) (n - l))"

text \<open>Days from 0001-01-01 to 1970-01-01, and the length of the 400-year cycle.\<close>

definition epoch_days :: int where "epoch_days = 719162"
definition cycle_days :: nat where "cycle_days = 146097"

text \<open>
  The civil date of a day counted from 0001-01-01: whole cycles first, then years of the
  cycle, then months.
\<close>

definition civil :: "nat \<Rightarrow> nat \<times> nat \<times> nat" where
  "civil z = (let c = z div cycle_days; (k, r) = year_of (z mod cycle_days) 1;
                  (m, d) = month_of (month_lengths k) 1 r
              in (400 * c + k, m, d))"

lemma civil_code [code]:
  "civil z = (let c = nat (int z div 146097); (k, r) = year_of (nat (int z mod 146097)) 1;
                  (m, d) = month_of (month_lengths k) 1 r
              in (400 * c + k, m, d))"
  by (simp add: civil_def cycle_days_def nat_div_distrib nat_mod_distrib)

text \<open>\<^verbatim>\<open>datetime.fromtimestamp\<close> raises outside the years 1 to 9999.\<close>

definition utc_ok :: "int \<Rightarrow> bool" where
  "utc_ok s \<longleftrightarrow> 0 \<le> s div 86400 + epoch_days \<and> s div 86400 + epoch_days \<le> 3652058"

definition civil_of_epoch :: "int \<Rightarrow> nat \<times> nat \<times> nat" where
  "civil_of_epoch s = civil (nat (s div 86400 + epoch_days))"

text \<open>\<^verbatim>\<open>datetime(y, m, d, tzinfo=utc)\<close>, in microseconds since 1970.\<close>

definition datetime_ymd :: "int \<Rightarrow> int \<Rightarrow> int \<Rightarrow> py_error + timestamp" where
  "datetime_ymd y m d =
     (if 1 \<le> y \<and> y \<le> 9999 \<and> 1 \<le> m \<and> m \<le> 12 \<and> 1 \<le> d \<and> d \<le> int (month_lengths (nat y) ! nat (m - 1))
      then Inr ((365 * (y - 1) + (y - 1) div 4 - (y - 1) div 100 + (y - 1) div 400
                 + int (sum_list (take (nat (m - 1)) (month_lengths (nat y)))) + (d - 1) - epoch_days) * 86400000000)
      else Inl ValueError)"

section \<open>Formatting\<close>

definition digit :: "nat \<Rightarrow> char" where
  "digit n = char_of (48 + n mod 10)"

text \<open>Fixed-width, zero-padded decimal (\<^verbatim>\<open>%Y\<close>, \<^verbatim>\<open>%m\<close>, \<dots>).\<close>

primrec fixw :: "nat \<Rightarrow> nat \<Rightarrow> string" where
  "fixw 0 n = []"
| "fixw (Suc k) n = fixw k (n div 10) @ [digit n]"

text \<open>\<^verbatim>\<open>strftime("%Y-%m-%d")\<close>\<close>

definition strftime_date :: "int \<Rightarrow> string" where
  "strftime_date s = (case civil_of_epoch s of (y, m, d) \<Rightarrow>
     fixw 4 y @ ''-'' @ fixw 2 m @ ''-'' @ fixw 2 d)"

text \<open>\<^verbatim>\<open>strftime("%Y%m%dT%H%M%SZ")\<close>\<close>

definition strftime_compact :: "int \<Rightarrow> string" where
  "strftime_compact s = (case civil_of_epoch s of (y, m, d) \<Rightarrow>
     let r = nat (s mod 86400) in
     fixw 4 y @ fixw 2 m @ fixw 2 d @ ''T''
       @ fixw 2 (r div 3600) @ fixw 2 (r mod 3600 div 60) @ fixw 2 (r mod 60) @ ''Z'')"

section \<open>Digits\<close>

lemma digit_eq_iff: "digit a = digit b \<longleftrightarrow> a mod 10 = b mod 10"
proof -
  have "of_char (digit a) = 48 + a mod 10" and "of_char (digit b) = 48 + b mod 10"
    using pos_mod_bound [of 10] by (simp_all add: digit_def)
  then show ?thesis by (metis add_left_cancel digit_def)
qed

lemma digit_neq_dash: "digit n \<noteq> CHR ''-''"
proof
  assume "digit n = CHR ''-''"
  then have "(of_char (digit n) :: nat) = of_char CHR ''-''" by simp
  then show False by (simp add: digit_def)
qed

lemma length_fixw [simp]: "length (fixw k n) = k"
  by (induction k arbitrary: n) auto

lemma dash_notin_fixw: "CHR ''-'' \<notin> set (fixw k n)"
  by (induction k arbitrary: n) (auto simp: digit_neq_dash [symmetric])

lemma fixw_inj: "a < 10 ^ k \<Longrightarrow> b < 10 ^ k \<Longrightarrow> fixw k a = fixw k b \<Longrightarrow> a = b"
proof (induction k arbitrary: a b)
  case 0
  then show ?case by simp
next
  case (Suc k)
  then have "fixw k (a div 10) = fixw k (b div 10)" and "a mod 10 = b mod 10"
    by (auto simp: digit_eq_iff)
  moreover have "a div 10 < 10 ^ k" and "b div 10 < 10 ^ k"
    using Suc.prems by (auto simp: less_mult_imp_div_less mult.commute)
  ultimately show ?case
    using Suc.IH by (metis mult_div_mod_eq)
qed

section \<open>The calendar is injective\<close>

lemma year_of_spec:
  "year_of n y = (y', r) \<Longrightarrow> y \<le> y' \<and> r < ylen y' \<and> n = (\<Sum>k = y..<y'. ylen k) + r"
proof (induction n y arbitrary: y' r rule: year_of.induct)
  case (1 n y)
  show ?case
  proof (cases "n < ylen y")
    case True
    with "1.prems" show ?thesis by (simp add: year_of.simps [of n y])
  next
    case False
    with "1.prems" have "year_of (n - ylen y) (Suc y) = (y', r)"
      by (simp add: year_of.simps [of n y])
    with "1.IH" [OF False]
    have IH: "Suc y \<le> y'" "r < ylen y'" "n - ylen y = (\<Sum>k = Suc y..<y'. ylen k) + r" by auto
    then have "(\<Sum>k = y..<y'. ylen k) = ylen y + (\<Sum>k = Suc y..<y'. ylen k)"
      by (simp add: sum.atLeast_Suc_lessThan)
    with IH False show ?thesis by simp
  qed
qed

lemma cycle_sum: "(\<Sum>k = 1..<401. ylen k) = cycle_days"
proof -
  have "(\<Sum>k\<leftarrow>[2..<401]. ylen k) = 145732"
    by (simp add: ylen_def leap_def)
  then have "(\<Sum>k = 2..<401. ylen k) = 145732"
    by (simp only: atLeastLessThan_upt sum_set_upt_conv_sum_list_nat)
  moreover have "(\<Sum>k = 1..<401. ylen k) = ylen 1 + (\<Sum>k = 2..<401. ylen k)"
    by (subst sum.atLeast_Suc_lessThan) (simp_all add: numeral_2_eq_2)
  ultimately show ?thesis by (simp add: cycle_days_def ylen_def leap_def)
qed

lemma year_of_cycle:
  assumes "year_of n 1 = (k, r)" and "n < cycle_days"
  shows "1 \<le> k \<and> k \<le> 400"
proof (rule ccontr)
  assume "\<not> ?thesis"
  with year_of_spec [OF assms(1)] have k: "401 \<le> k" by simp
  have "(\<Sum>j = 1..<401. ylen j) \<le> (\<Sum>j = 1..<k. ylen j)"
    using k by (intro sum_mono2) auto
  with year_of_spec [OF assms(1)] assms(2) cycle_sum show False by simp
qed

lemma month_of_spec:
  "month_of ls m n = (m', d) \<Longrightarrow>
   m \<le> m' \<and> m' \<le> m + length ls \<and> 1 \<le> d \<and> Suc n = sum_list (take (m' - m) ls) + d"
proof (induction ls m n rule: month_of.induct)
  case (2 l ls m n)
  show ?case
  proof (cases "n < l")
    case False
    with 2 have "Suc m \<le> m'" "m' \<le> Suc m + length ls" "1 \<le> d"
      "Suc (n - l) = sum_list (take (m' - Suc m) ls) + d" by auto
    with False show ?thesis by (simp add: take_Cons' Suc_diff_Suc)
  qed (use 2 in auto)
qed auto

lemma month_of_bounds:
  "month_of ls m n = (m', d) \<Longrightarrow> n < sum_list ls \<Longrightarrow> \<forall>l \<in> set ls. l \<le> b \<Longrightarrow>
   m' < m + length ls \<and> d \<le> b"
proof (induction ls m n rule: month_of.induct)
  case (2 l ls m n)
  show ?case
  proof (cases "n < l")
    case True
    with 2 show ?thesis by auto
  next
    case False
    with "2.prems" have "month_of ls (Suc m) (n - l) = (m', d)" "n - l < sum_list ls" by auto
    with "2.IH" [OF False] "2.prems"(3) show ?thesis by simp
  qed
qed auto

lemma month_of_year:
  assumes "month_of (month_lengths y) 1 r = (m, d)" and "r < ylen y"
  shows "m \<le> 12 \<and> d \<le> 31"
proof -
  have "sum_list (month_lengths y) = ylen y" "length (month_lengths y) = 12"
    "\<forall>l \<in> set (month_lengths y). l \<le> 31" by (simp_all add: month_lengths_def ylen_def)
  with month_of_bounds [OF assms(1), of 31] assms(2) show ?thesis by simp
qed

lemma cycle_split:
  "400 * p + k = 400 * q + k' \<Longrightarrow> 1 \<le> k \<Longrightarrow> k \<le> 400 \<Longrightarrow> 1 \<le> k' \<Longrightarrow> k' \<le> 400 \<Longrightarrow> p = (q :: nat)"
  by linarith

lemma civil_inj:
  assumes "civil a = civil b"
  shows "a = b"
proof -
  obtain k r k' r' where y: "year_of (a mod cycle_days) 1 = (k, r)"
      "year_of (b mod cycle_days) 1 = (k', r')" by fastforce
  obtain m d m' d' where m: "month_of (month_lengths k) 1 r = (m, d)"
      "month_of (month_lengths k') 1 r' = (m', d')" by fastforce
  have bounds: "1 \<le> k \<and> k \<le> 400" "1 \<le> k' \<and> k' \<le> 400"
    by (rule year_of_cycle [OF y(1)], simp add: cycle_days_def)
       (rule year_of_cycle [OF y(2)], simp add: cycle_days_def)
  from assms y m have eq: "400 * (a div cycle_days) + k = 400 * (b div cycle_days) + k'"
      "m = m'" "d = d'" by (auto simp: civil_def)
  from eq(1) bounds have c: "a div cycle_days = b div cycle_days" by (blast dest: cycle_split)
  with eq(1) have k: "k = k'" by simp
  from month_of_spec [OF m(1)] month_of_spec [OF m(2)] eq k have "r = r'" by simp
  with year_of_spec [OF y(1)] year_of_spec [OF y(2)] k
  have "a mod cycle_days = b mod cycle_days" by simp
  with c show ?thesis by (metis mult_div_mod_eq)
qed

lemma last_cycle:
  assumes "year_of n 1 = (k, r)" and "n < 145731"
  shows "k < 400"
proof (rule ccontr)
  assume "\<not> k < 400"
  then have "(\<Sum>j = 1..<400. ylen j) \<le> (\<Sum>j = 1..<k. ylen j)"
    by (intro sum_mono2) auto
  moreover have "(\<Sum>j = 1..<401. ylen j) = (\<Sum>j = 1..<400. ylen j) + ylen 400"
    using sum.atLeastLessThan_Suc [of 1 400 ylen] by simp
  moreover have "ylen 400 = 366" by (simp add: ylen_def leap_def)
  ultimately show False
    using year_of_spec [OF assms(1)] assms(2) cycle_sum by (simp add: cycle_days_def)
qed

lemma civil_bounds:
  assumes "civil z = (y, m, d)" and "z \<le> 3652058"
  shows "y < 10000 \<and> m \<le> 12 \<and> d \<le> 31"
proof -
  obtain k r where y: "year_of (z mod cycle_days) 1 = (k, r)" by fastforce
  obtain m' d' where md: "month_of (month_lengths k) 1 r = (m', d')" by fastforce
  from assms(1) y md have eqs: "y = 400 * (z div cycle_days) + k" "m = m'" "d = d'"
    by (simp_all add: civil_def)
  have k400: "k \<le> 400" using year_of_cycle [OF y] by (simp add: cycle_days_def)
  have c24: "z div cycle_days \<le> 24" using assms(2) by (simp add: cycle_days_def)
  have "y < 10000"
  proof (cases "z div cycle_days = 24")
    case True
    have "z mod cycle_days < 145731"
      using assms(2) True mult_div_mod_eq [of cycle_days z] by (simp add: cycle_days_def)
    with last_cycle [OF y] eqs True show ?thesis by simp
  next
    case False
    with c24 have "z div cycle_days \<le> 23" by simp
    with eqs k400 show ?thesis by simp
  qed
  moreover have "m \<le> 12 \<and> d \<le> 31"
    using month_of_year [OF md] year_of_spec [OF y] eqs by simp
  ultimately show ?thesis by simp
qed

lemma civil_of_epoch_inj:
  assumes "utc_ok s" "utc_ok t" "civil_of_epoch s = civil_of_epoch t"
  shows "s div 86400 = t div 86400"
  using civil_inj [OF assms(3) [unfolded civil_of_epoch_def]] assms(1,2)
  by (simp add: utc_ok_def nat_eq_iff2)

lemma civil_of_epoch_bounds:
  "utc_ok s \<Longrightarrow> civil_of_epoch s = (y, m, d) \<Longrightarrow> y < 10 ^ 4 \<and> m < 10 ^ 2 \<and> d < 10 ^ 2"
  using civil_bounds [of "nat (s div 86400 + epoch_days)" y m d]
  by (simp add: civil_of_epoch_def utc_ok_def nat_le_iff)

section \<open>The formats separate instants\<close>

lemma strftime_date_inj:
  assumes "utc_ok s" "utc_ok t" "strftime_date s = strftime_date t"
  shows "s div 86400 = t div 86400"
proof -
  obtain y m d y' m' d' where c: "civil_of_epoch s = (y, m, d)" "civil_of_epoch t = (y', m', d')"
    by (metis prod_cases3)
  from assms(3) c have "fixw 4 y = fixw 4 y'" "fixw 2 m = fixw 2 m'" "fixw 2 d = fixw 2 d'"
    by (simp_all add: strftime_date_def)
  with civil_of_epoch_bounds [OF assms(1) c(1)] civil_of_epoch_bounds [OF assms(2) c(2)]
  have "(y, m, d) = (y', m', d')" using fixw_inj by (metis prod.inject)
  with c have "civil_of_epoch s = civil_of_epoch t" by simp
  with assms(1,2) show ?thesis by (rule civil_of_epoch_inj)
qed

lemma hms_inj:
  fixes a b :: nat
  assumes "a div 3600 = b div 3600" "a mod 3600 div 60 = b mod 3600 div 60" "a mod 60 = b mod 60"
  shows "a = b"
proof -
  have "a mod 3600 mod 60 = a mod 60" "b mod 3600 mod 60 = b mod 60"
    by (simp_all add: mod_mod_cancel)
  then have "a mod 3600 = b mod 3600"
    using assms(2,3) by (metis mult_div_mod_eq)
  with assms(1) show ?thesis by (metis mult_div_mod_eq)
qed

lemma strftime_compact_inj:
  assumes "utc_ok s" "utc_ok t" "strftime_compact s = strftime_compact t"
  shows "s = t"
proof -
  obtain y m d y' m' d' where c: "civil_of_epoch s = (y, m, d)" "civil_of_epoch t = (y', m', d')"
    by (metis prod_cases3)
  define a b where "a = nat (s mod 86400)" and "b = nat (t mod 86400)"
  have lt: "a < 86400" "b < 86400" by (simp_all add: a_def b_def nat_less_iff)
  from assms(3) c have f: "fixw 4 y = fixw 4 y'" "fixw 2 m = fixw 2 m'" "fixw 2 d = fixw 2 d'"
    "fixw 2 (a div 3600) = fixw 2 (b div 3600)"
    "fixw 2 (a mod 3600 div 60) = fixw 2 (b mod 3600 div 60)"
    "fixw 2 (a mod 60) = fixw 2 (b mod 60)"
    by (simp_all add: strftime_compact_def a_def b_def Let_def)
  from f(1-3) civil_of_epoch_bounds [OF assms(1) c(1)] civil_of_epoch_bounds [OF assms(2) c(2)]
  have "civil_of_epoch s = civil_of_epoch t" using fixw_inj c by metis
  with assms(1,2) have days: "s div 86400 = t div 86400" by (rule civil_of_epoch_inj)
  have "a div 3600 < 10 ^ 2" "b div 3600 < 10 ^ 2" using lt by auto
  then have "a div 3600 = b div 3600" using f(4) by (rule fixw_inj)
  moreover have "a mod 3600 div 60 = b mod 3600 div 60"
    by (rule fixw_inj [OF _ _ f(5)]) auto
  moreover have "a mod 60 = b mod 60"
    by (rule fixw_inj [OF _ _ f(6)]) (auto intro: less_le_trans [of _ 60])
  ultimately have "a = b" by (rule hms_inj)
  then have "s mod 86400 = t mod 86400" by (simp add: a_def b_def)
  with days show ?thesis by (metis mult_div_mod_eq)
qed

lemma dash_notin_strftime_compact: "CHR ''-'' \<notin> set (strftime_compact s)"
  by (auto simp: strftime_compact_def Let_def dash_notin_fixw split: prod.splits)

end
