(* ===== verification/WalSegment.thy ===== *)
theory WalSegment
  imports Calendar
begin

text \<open>
  \<^verbatim>\<open>wal/segment.py\<close>: names of write-ahead-log segments. A segment file is named after the
  start of its time bucket and the node that writes it, and moves through three names:
  \<^verbatim>\<open>.ndjson\<close> (active), \<^verbatim>\<open>.ndjson.sealed\<close> and \<^verbatim>\<open>.ndjson.sealed.compacted\<close> (a marker file next to
  the sealed segment). The lemmas show that the three predicates recognise exactly one stage,
  that the two parsers recover what the name was built from at every stage, and that
  different buckets or nodes never share a name.
\<close>

section \<open>Model\<close>

definition SEGMENT_SECONDS :: int where "SEGMENT_SECONDS = 300"

definition segment_index :: "seconds \<Rightarrow> int \<Rightarrow> py_error + int" where
  "segment_index ts segment_seconds =
     (if segment_seconds = 0 then Inl ZeroDivisionError
      else Inr \<lfloor>ts / of_int segment_seconds\<rfloor>)"

definition active_segment_path ::
  "path \<Rightarrow> string \<Rightarrow> string \<Rightarrow> string \<Rightarrow> string \<Rightarrow> int \<Rightarrow> string \<Rightarrow> int \<Rightarrow> py_error + path" where
  "active_segment_path base exchange channel symbol date start_idx node_id segment_seconds =
     (let start_ts = start_idx * segment_seconds in
      if \<not> utc_ok start_ts then Inl ValueError
      else let ts_str = strftime_compact start_ts;
               filename = ''segment-'' @ ts_str @ ''-'' @ node_id @ ''.ndjson''
           in Inr (base @ [''wal'', exchange, channel, symbol, date, filename]))"

definition seal_path :: "path \<Rightarrow> path" where
  "seal_path active = path_add active ''.sealed''"

definition compacted_path :: "path \<Rightarrow> path" where
  "compacted_path sealed = path_add sealed ''.compacted''"

definition is_active :: "path \<Rightarrow> bool" where
  "is_active p \<longleftrightarrow> ends_with (path_name p) ''.ndjson'' \<and> \<not> ends_with (path_name p) ''.sealed''"

definition is_sealed :: "path \<Rightarrow> bool" where
  "is_sealed p \<longleftrightarrow> ends_with (path_name p) ''.ndjson.sealed''
                    \<and> \<not> ends_with (path_name p) ''.compacted''"

definition is_compacted :: "path \<Rightarrow> bool" where
  "is_compacted p \<longleftrightarrow> ends_with (path_name p) ''.ndjson.sealed.compacted''"

definition scan_sealed :: "path \<Rightarrow> 'f fsys \<Rightarrow> path list" where
  "scan_sealed base fs =
     filter (\<lambda>p. \<not> fs_exists fs (compacted_path p))
       (fs_rglob (base @ [''wal'']) ''.ndjson.sealed'' fs)"

definition strip_segment_suffixes :: "string \<Rightarrow> string" where
  "strip_segment_suffixes name =
     (if ends_with name ''.ndjson.sealed.compacted''
      then drop_suffix name ''.ndjson.sealed.compacted''
      else if ends_with name ''.ndjson.sealed'' then drop_suffix name ''.ndjson.sealed''
      else if ends_with name ''.ndjson'' then drop_suffix name ''.ndjson''
      else name)"

definition parse_node_id_from_segment :: "path \<Rightarrow> string" where
  "parse_node_id_from_segment sealed =
     (let parts = split_max CHR ''-'' 2 (strip_segment_suffixes (path_name sealed))
      in if length parts \<ge> 3 then parts ! 2 else ''DEFAULT'')"

definition parse_ts_from_segment :: "path \<Rightarrow> py_error + string" where
  "parse_ts_from_segment sealed =
     (let parts = split_max CHR ''-'' 2 (strip_segment_suffixes (path_name sealed))
      in if length parts < 3 \<or> parts ! 0 \<noteq> ''segment'' then Inl ValueError
         else Inr (parts ! 1))"

section \<open>Stages of a name\<close>

text \<open>Suffixes of a name that ends in a known literal are decided on the literal.\<close>

lemma ends_with_short: "length b \<le> length a \<Longrightarrow> ends_with (s @ a) b \<longleftrightarrow> ends_with a b"
  by (simp add: ends_with_def)

lemma ends_with_long: "length a \<le> length b \<Longrightarrow> \<not> ends_with b a \<Longrightarrow> \<not> ends_with (s @ a) b"
  by (auto simp: ends_with_iff append_eq_append_conv2)

text \<open>The stages have the same base name with a growing suffix.\<close>

inductive stage_name :: "string \<Rightarrow> string \<Rightarrow> bool" for b :: string where
  active: "stage_name b (b @ ''.ndjson'')"
| sealed: "stage_name b (b @ ''.ndjson.sealed'')"
| compacted: "stage_name b (b @ ''.ndjson.sealed.compacted'')"

lemma ends_with_stage [simp]:
  "\<not> ends_with (b @ ''.ndjson'') ''.sealed''"
  "\<not> ends_with (b @ ''.ndjson'') ''.ndjson.sealed''"
  "\<not> ends_with (b @ ''.ndjson'') ''.ndjson.sealed.compacted''"
  "\<not> ends_with (b @ ''.ndjson.sealed'') ''.ndjson''"
  "\<not> ends_with (b @ ''.ndjson.sealed'') ''.compacted''"
  "\<not> ends_with (b @ ''.ndjson.sealed'') ''.ndjson.sealed.compacted''"
  "\<not> ends_with (b @ ''.ndjson.sealed.compacted'') ''.ndjson''"
  "ends_with (b @ ''.ndjson.sealed.compacted'') ''.compacted''"
  by (simp_all add: ends_with_short ends_with_long ends_with_def)

lemma strip_stage: "stage_name b s \<Longrightarrow> strip_segment_suffixes s = b"
  by (induction rule: stage_name.induct) (simp_all add: strip_segment_suffixes_def)

lemma stage_unique:
  "path_name p = b @ ''.ndjson'' \<Longrightarrow> is_active p \<and> \<not> is_sealed p \<and> \<not> is_compacted p"
  "path_name p = b @ ''.ndjson.sealed'' \<Longrightarrow> \<not> is_active p \<and> is_sealed p \<and> \<not> is_compacted p"
  "path_name p = b @ ''.ndjson.sealed.compacted'' \<Longrightarrow> \<not> is_active p \<and> \<not> is_sealed p \<and> is_compacted p"
  by (simp_all add: is_active_def is_sealed_def is_compacted_def)

lemma split_segment_name:
  "CHR ''-'' \<notin> set ts \<Longrightarrow>
   split_max CHR ''-'' 2 (''segment-'' @ ts @ ''-'' @ node) = [''segment'', ts, node]"
  using split_max_hit [of "CHR ''-''" "''segment''" 1 "ts @ ''-'' @ node"]
    split_max_hit [of "CHR ''-''" ts 0 node]
  by (simp add: numeral_2_eq_2)

lemma parse_stage:
  assumes "stage_name (''segment-'' @ strftime_compact t @ ''-'' @ node) (path_name p)"
  shows "parse_ts_from_segment p = Inr (strftime_compact t)" "parse_node_id_from_segment p = node"
  using strip_stage [OF assms] split_segment_name [OF dash_notin_strftime_compact, of t node]
  by (simp_all add: parse_ts_from_segment_def parse_node_id_from_segment_def Let_def)

lemma active_segment_path_Inr:
  "active_segment_path base ex ch sy d i node secs = Inr p \<longleftrightarrow>
   utc_ok (i * secs) \<and>
   p = base @ [''wal'', ex, ch, sy, d,
               ''segment-'' @ strftime_compact (i * secs) @ ''-'' @ node @ ''.ndjson'']"
  by (auto simp: active_segment_path_def Let_def)

lemma active_name:
  "active_segment_path base ex ch sy d i node secs = Inr p \<Longrightarrow>
   p \<noteq> [] \<and> path_name p = (''segment-'' @ strftime_compact (i * secs) @ ''-'' @ node) @ ''.ndjson''"
  by (auto simp: active_segment_path_Inr path_name_def)

text \<open>The name alone determines the bucket and the node.\<close>

lemma active_name_inj:
  assumes "active_segment_path base ex ch sy d i node secs = Inr p"
    and "active_segment_path base' ex' ch' sy' d' j node' secs = Inr q"
    and "path_name p = path_name q" and "secs \<noteq> 0"
  shows "i = j \<and> node = node'"
proof -
  have "stage_name (''segment-'' @ strftime_compact (i * secs) @ ''-'' @ node) (path_name p)"
    using active_name [OF assms(1)] stage_name.active by metis
  note a = parse_stage [OF this]
  have "stage_name (''segment-'' @ strftime_compact (j * secs) @ ''-'' @ node') (path_name p)"
    using active_name [OF assms(2)] stage_name.active assms(3) by metis
  note b = parse_stage [OF this]
  from a b have "strftime_compact (i * secs) = strftime_compact (j * secs)" "node = node'"
    by simp_all
  moreover have "utc_ok (i * secs)" "utc_ok (j * secs)"
    using assms(1,2) by (simp_all add: active_segment_path_Inr)
  ultimately have "i * secs = j * secs" by (blast intro: strftime_compact_inj)
  with assms(4) \<open>node = node'\<close> show ?thesis by simp
qed

lemma active_is_active:
  "active_segment_path base ex ch sy d i node secs = Inr p \<Longrightarrow> is_active p"
  using active_name [of base ex ch sy d i node secs p] stage_unique(1) [of p] by blast

lemma seal_path_eq_iff: "p \<noteq> [] \<Longrightarrow> q \<noteq> [] \<Longrightarrow> seal_path p = seal_path q \<longleftrightarrow> p = q"
  by (simp add: seal_path_def path_add_eq_iff)

lemma seal_path_neq: "seal_path p \<noteq> p"
  by (simp add: seal_path_def path_add_neq_self)

lemma is_sealed_seal_path:
  "is_active p \<Longrightarrow> is_sealed (seal_path p) \<and> \<not> is_active (seal_path p)"
proof -
  assume "is_active p"
  then obtain b where "path_name p = b @ ''.ndjson''" by (auto simp: is_active_def ends_with_iff)
  then have "path_name (seal_path p) = b @ ''.ndjson.sealed''" by (simp add: seal_path_def)
  from stage_unique(2) [OF this] show ?thesis by simp
qed

text \<open>Scanning returns each sealed segment once, in order, and only those without a marker.\<close>

lemma set_scan_sealed:
  "p \<in> set (scan_sealed base fs) \<longleftrightarrow>
     fs_exists fs p \<and> \<not> fs_exists fs (compacted_path p) \<and>
     take (length base + 1) p = base @ [''wal''] \<and> length base + 1 < length p \<and>
     ends_with (path_name p) ''.ndjson.sealed''"
  by (auto simp: scan_sealed_def set_fs_rglob)

section \<open>Properties\<close>

text \<open>
  C4. Whatever stage a segment is in (active, sealed, or its compaction marker), the file
  name yields back the start of its time bucket and the node it was written by, and exactly
  one of \<^verbatim>\<open>is_active\<close>, \<^verbatim>\<open>is_sealed\<close>, \<^verbatim>\<open>is_compacted\<close> holds.
\<close>

theorem segment_name_roundtrip:
  assumes "active_segment_path base ex ch sy d i node secs = Inr p"
    and "q \<in> {p, seal_path p, compacted_path (seal_path p)}"
  shows "parse_ts_from_segment q = Inr (strftime_compact (i * secs)) \<and>
         parse_node_id_from_segment q = node \<and>
         is_active q = (q = p) \<and> is_sealed q = (q = seal_path p) \<and>
         is_compacted q = (q = compacted_path (seal_path p))"
proof -
  let ?b = "''segment-'' @ strftime_compact (i * secs) @ ''-'' @ node"
  have names: "path_name p = ?b @ ''.ndjson''" "path_name (seal_path p) = ?b @ ''.ndjson.sealed''"
    "path_name (compacted_path (seal_path p)) = ?b @ ''.ndjson.sealed.compacted''"
    using active_name [OF assms(1)] by (simp_all add: seal_path_def compacted_path_def)
  have distinct: "p \<noteq> seal_path p" "seal_path p \<noteq> compacted_path (seal_path p)"
    "p \<noteq> compacted_path (seal_path p)"
    using names by (auto simp: path_add_neq_self [symmetric] seal_path_neq [symmetric])
  consider "q = p" | "q = seal_path p" | "q = compacted_path (seal_path p)" using assms(2) by blast
  then show ?thesis
  proof cases
    case 1
    have "stage_name ?b (path_name q)" unfolding 1 names by (rule stage_name.active)
    from parse_stage [OF this] show ?thesis using stage_unique(1) [OF names(1)] distinct 1 by simp
  next
    case 2
    have "stage_name ?b (path_name q)" unfolding 2 names by (rule stage_name.sealed)
    from parse_stage [OF this] show ?thesis using stage_unique(2) [OF names(2)] distinct 2 by simp
  next
    case 3
    have "stage_name ?b (path_name q)" unfolding 3 names by (rule stage_name.compacted)
    from parse_stage [OF this] show ?thesis using stage_unique(3) [OF names(3)] distinct 3 by simp
  qed
qed

theorem segment_name_roundtrip_witness:
  "\<exists>p. active_segment_path [''d''] ''upbit'' ''tx'' ''KRW-BTC'' ''2026-05-18'' 5936352 ''n-1'' 300 = Inr p
       \<and> parse_ts_from_segment (seal_path p) = Inr (strftime_compact 1780905600)
       \<and> parse_node_id_from_segment (seal_path p) = ''n-1''"
proof -
  let ?a = "active_segment_path [''d''] ''upbit'' ''tx'' ''KRW-BTC'' ''2026-05-18'' 5936352 ''n-1'' 300"
  obtain p where p: "?a = Inr p"
    by (simp add: active_segment_path_def utc_ok_def epoch_days_def Let_def)
  from segment_name_roundtrip [OF p, of "seal_path p"] p show ?thesis by auto
qed

text \<open>
  Segments never collide: two active paths under the same root are equal only if exchange,
  channel, symbol, date, bucket index and node are all equal, so two different buckets (or
  nodes, or streams) are never written to the same file.
\<close>

lemma segment_name_injective:
  assumes "active_segment_path base ex ch sy d i node secs = Inr p"
    and "active_segment_path base ex' ch' sy' d' j node' secs = Inr p"
    and "secs \<noteq> 0"
  shows "ex = ex' \<and> ch = ch' \<and> sy = sy' \<and> d = d' \<and> i = j \<and> node = node'"
  using active_name_inj [OF assms(1,2) refl assms(3)] assms(1,2)
  by (simp add: active_segment_path_Inr)

end
