(* ===== verification/PyDecimal.thy ===== *)
theory PyDecimal
  imports Prelude
begin

text \<open>
  Python's finite \<^verbatim>\<open>decimal.Decimal\<close> numbers under the default context (28 significant
  digits, rounding half to even), as far as the program uses them: addition, multiplication,
  division by a power of ten, comparison and conversion to \<^verbatim>\<open>int\<close>. A number is a signed
  coefficient and an exponent; \<open>dval\<close> is its value. Comparisons (and \<^verbatim>\<open>==\<close>, so also
  dictionary keys) go by value and are exact; arithmetic rounds once, in \<open>dec_fix\<close>. NaN,
  infinities, negative zero and the exponent limits (at 999999) are not modelled.

  The lemmas say when arithmetic is exact (\<open>dec_add_exact\<close>, \<open>dec_mul_exact\<close>), and bound the
  rounding error otherwise (\<open>dec_fix_error\<close>).
\<close>

section \<open>Numbers and rounding\<close>

datatype decimal = Dec (dcoef: int) (dexp: int)

definition dval :: "decimal \<Rightarrow> rat" where
  "dval x = of_int (dcoef x) * 10 powi dexp x"

fun ndigits :: "nat \<Rightarrow> nat" where
  "ndigits n = (if n < 10 then 1 else Suc (ndigits (n div 10)))"

declare ndigits.simps [simp del]

definition prec :: nat where "prec = 28"

definition half_even :: "nat \<Rightarrow> nat \<Rightarrow> nat \<Rightarrow> nat" where
  "half_even q r m = (if m < 2 * r \<or> (2 * r = m \<and> odd q) then Suc q else q)"

definition dec_fix :: "decimal \<Rightarrow> decimal" where
  "dec_fix x =
     (let c = nat \<bar>dcoef x\<bar>; n = ndigits c in
      if n \<le> prec then x
      else let k = n - prec; q = half_even (c div 10 ^ k) (c mod 10 ^ k) (10 ^ k) in
        if q = 10 ^ prec then Dec (sgn (dcoef x) * 10 ^ (prec - 1)) (dexp x + int k + 1)
        else Dec (sgn (dcoef x) * int q) (dexp x + int k))"

section \<open>Operations\<close>

definition dec_of_int :: "int \<Rightarrow> decimal" where
  "dec_of_int n = Dec n 0"

text \<open>The coefficient of \<open>x\<close> at a smaller exponent \<open>e\<close>.\<close>

definition dec_scale :: "decimal \<Rightarrow> int \<Rightarrow> int" where
  "dec_scale x e = dcoef x * 10 ^ nat (dexp x - e)"

definition dec_add :: "decimal \<Rightarrow> decimal \<Rightarrow> decimal" where
  "dec_add x y = (let e = min (dexp x) (dexp y) in dec_fix (Dec (dec_scale x e + dec_scale y e) e))"

definition dec_mul :: "decimal \<Rightarrow> decimal \<Rightarrow> decimal" where
  "dec_mul x y = dec_fix (Dec (dcoef x * dcoef y) (dexp x + dexp y))"

text \<open>\<^verbatim>\<open>Decimal(10) ** p\<close>: an exact power, held with at most 28 digits.\<close>

definition dec_pow10 :: "nat \<Rightarrow> decimal" where
  "dec_pow10 p = (if p < prec then Dec (10 ^ p) 0 else Dec (10 ^ (prec - 1)) (int p - int (prec - 1)))"

text \<open>
  \<^verbatim>\<open>x / Decimal(10) ** p\<close>: the quotient rounded once; when it is exact, trailing zeros are dropped
  until the exponent reaches the difference of the operands' exponents.
\<close>

function dec_strip :: "int \<Rightarrow> int \<Rightarrow> int \<Rightarrow> decimal" where
  "dec_strip ideal c e = (if e < ideal \<and> 10 dvd c then dec_strip ideal (c div 10) (e + 1) else Dec c e)"
  by pat_completeness auto

termination dec_strip
  by (relation "measure (\<lambda>(ideal, c, e). nat (ideal - e))") auto

declare dec_strip.simps [simp del]

definition dec_div_pow10 :: "decimal \<Rightarrow> nat \<Rightarrow> decimal" where
  "dec_div_pow10 x p =
     (let y = Dec (dcoef x) (dexp x - int p); z = dec_fix y in
      if dcoef z * 10 ^ nat (dexp z - dexp y) = dcoef y
      then dec_strip (dexp x - dexp (dec_pow10 p)) (dcoef z) (dexp z) else z)"

definition dec_less :: "decimal \<Rightarrow> decimal \<Rightarrow> bool" where
  "dec_less x y = (let e = min (dexp x) (dexp y) in dec_scale x e < dec_scale y e)"

definition dec_le :: "decimal \<Rightarrow> decimal \<Rightarrow> bool" where
  "dec_le x y \<longleftrightarrow> \<not> dec_less y x"

definition dec_eq :: "decimal \<Rightarrow> decimal \<Rightarrow> bool" where
  "dec_eq x y = (let e = min (dexp x) (dexp y) in dec_scale x e = dec_scale y e)"

text \<open>\<^verbatim>\<open>x == x.to_integral_value()\<close> and \<^verbatim>\<open>int(x)\<close> on such an \<open>x\<close>.\<close>

definition dec_is_integral :: "decimal \<Rightarrow> bool" where
  "dec_is_integral x \<longleftrightarrow> 0 \<le> dexp x \<or> 10 ^ nat (- dexp x) dvd dcoef x"

definition dec_to_int :: "decimal \<Rightarrow> int" where
  "dec_to_int x = (if 0 \<le> dexp x then dcoef x * 10 ^ nat (dexp x)
                   else sgn (dcoef x) * (\<bar>dcoef x\<bar> div 10 ^ nat (- dexp x)))"

section \<open>Comparison is by value\<close>

lemma powi_shift: "0 \<le> k \<Longrightarrow> (10 :: rat) powi (e + k) = 10 ^ nat k * 10 powi e"
proof -
  assume "0 \<le> k"
  then have "(10 :: rat) powi k = 10 ^ nat k" by (simp add: power_int_def)
  then show ?thesis by (simp add: power_int_add)
qed

lemma dval_scale:
  assumes "e \<le> dexp x"
  shows "of_int (dec_scale x e) * 10 powi e = dval x"
proof -
  have "(10 :: rat) powi dexp x = 10 ^ nat (dexp x - e) * 10 powi e"
    using powi_shift [of "dexp x - e" e] assms by simp
  then show ?thesis by (simp add: dval_def dec_scale_def)
qed

lemma scale_less_iff:
  assumes "e \<le> dexp x" "e \<le> dexp y"
  shows "dec_scale x e < dec_scale y e \<longleftrightarrow> dval x < dval y"
proof -
  have "dval x < dval y \<longleftrightarrow>
      (of_int (dec_scale x e) :: rat) * 10 powi e < of_int (dec_scale y e) * 10 powi e"
    using assms by (simp add: dval_scale)
  also have "\<dots> \<longleftrightarrow> dec_scale x e < dec_scale y e"
    by (simp add: mult_less_cancel_right_pos)
  finally show ?thesis by simp
qed

lemma dec_less_iff: "dec_less x y \<longleftrightarrow> dval x < dval y"
  by (simp add: dec_less_def scale_less_iff Let_def)

lemma dec_le_iff: "dec_le x y \<longleftrightarrow> dval x \<le> dval y"
  by (auto simp: dec_le_def dec_less_iff)

lemma dec_eq_iff: "dec_eq x y \<longleftrightarrow> dval x = dval y"
  using scale_less_iff [of "min (dexp x) (dexp y)" x y] scale_less_iff [of "min (dexp x) (dexp y)" y x]
  by (auto simp: dec_eq_def Let_def)

section \<open>Digits\<close>

lemma ndigits_pos: "0 < ndigits n"
  by (subst ndigits.simps) simp

lemma ndigits_le: "0 < k \<Longrightarrow> n < 10 ^ k \<Longrightarrow> ndigits n \<le> k"
proof (induction n arbitrary: k rule: ndigits.induct)
  case (1 n)
  show ?case
  proof (cases "n < 10")
    case True
    with "1.prems" show ?thesis by (simp add: ndigits.simps [of n])
  next
    case False
    then obtain j where k: "k = Suc j" using "1.prems" by (cases k) auto
    have "0 < j" using False "1.prems" k by (cases j) auto
    moreover have "n div 10 < 10 ^ j" using "1.prems" k by (simp add: less_mult_imp_div_less)
    ultimately have "ndigits (n div 10) \<le> j" using "1.IH" [OF False] by blast
    with False k show ?thesis by (simp add: ndigits.simps [of n])
  qed
qed

lemma ndigits_upper: "n < 10 ^ ndigits n"
proof (induction n rule: ndigits.induct)
  case (1 n)
  show ?case
  proof (cases "n < 10")
    case True
    then show ?thesis by (simp add: ndigits.simps [of n])
  next
    case False
    with "1.IH" have "n div 10 < 10 ^ ndigits (n div 10)" by simp
    then have "n < 10 * 10 ^ ndigits (n div 10)" by (simp add: div_less_iff_less_mult mult.commute)
    with False show ?thesis by (simp add: ndigits.simps [of n])
  qed
qed

section \<open>When arithmetic is exact\<close>

lemma dec_fix_exact:
  assumes "\<bar>dcoef x\<bar> < 10 ^ prec"
  shows "dec_fix x = x"
proof -
  have "nat \<bar>dcoef x\<bar> < 10 ^ prec" using assms by (simp add: nat_less_iff)
  then have "ndigits (nat \<bar>dcoef x\<bar>) \<le> prec" by (rule ndigits_le [rotated]) (simp add: prec_def)
  then show ?thesis by (simp add: dec_fix_def)
qed

lemma dec_add_exact:
  assumes "\<bar>dec_scale x (min (dexp x) (dexp y)) + dec_scale y (min (dexp x) (dexp y))\<bar> < 10 ^ prec"
  shows "dval (dec_add x y) = dval x + dval y"
proof -
  let ?e = "min (dexp x) (dexp y)"
  have "dval (dec_add x y) = of_int (dec_scale x ?e + dec_scale y ?e) * 10 powi ?e"
    using assms by (simp add: dec_add_def Let_def dec_fix_exact dval_def)
  also have "\<dots> = dval x + dval y"
    using dval_scale [of ?e x] dval_scale [of ?e y] by (simp add: distrib_right)
  finally show ?thesis .
qed

lemma dec_mul_exact:
  assumes "\<bar>dcoef x * dcoef y\<bar> < 10 ^ prec"
  shows "dval (dec_mul x y) = dval x * dval y"
  using assms by (simp add: dec_mul_def dec_fix_exact dval_def power_int_add)

lemma dval_pow10: "dval (dec_pow10 p) = 10 ^ p"
proof (cases "p < prec")
  case False
  then have le: "prec - 1 \<le> p" by simp
  then have "(10 :: rat) ^ p = 10 ^ (prec - 1) * 10 ^ (p - (prec - 1))"
    by (metis le_add_diff_inverse power_add)
  moreover have "(10 :: rat) powi (int p - int (prec - 1)) = 10 ^ (p - (prec - 1))"
    using le by (metis of_nat_diff power_int_of_nat)
  ultimately show ?thesis using False by (simp add: dec_pow10_def dval_def)
qed (simp add: dec_pow10_def dval_def)

lemma dval_strip: "dval (dec_strip i c e) = dval (Dec c e)"
proof (induction i c e rule: dec_strip.induct)
  case (1 i c e)
  show ?case
  proof (cases "e < i \<and> 10 dvd c")
    case True
    then obtain d where d: "c = 10 * d" by (auto elim: dvdE)
    have "dval (Dec (c div 10) (e + 1)) = dval (Dec c e)"
      using powi_shift [of 1 e] by (simp add: dval_def d)
    with 1 True show ?thesis by (simp add: dec_strip.simps [of i c e])
  qed (auto simp: dec_strip.simps [of i c e])
qed

lemma dval_div_pow10:
  assumes "\<bar>dcoef x\<bar> < 10 ^ prec"
  shows "dval (dec_div_pow10 x p) = dval x / 10 ^ p"
proof -
  have "dec_fix (Dec (dcoef x) (dexp x - int p)) = Dec (dcoef x) (dexp x - int p)"
    using assms by (simp add: dec_fix_exact)
  then have "dval (dec_div_pow10 x p) = of_int (dcoef x) * 10 powi (dexp x - int p)"
    by (simp add: dec_div_pow10_def Let_def dval_strip) (simp add: dval_def)
  also have "\<dots> = dval x / 10 ^ p" by (simp add: dval_def power_int_diff)
  finally show ?thesis .
qed

lemma dec_to_int_integral:
  assumes "dec_is_integral x"
  shows "of_int (dec_to_int x) = dval x"
proof (cases "0 \<le> dexp x")
  case True
  then show ?thesis by (simp add: dec_to_int_def dval_def power_int_def)
next
  case False
  let ?m = "10 ^ nat (- dexp x) :: int"
  have dvd: "?m dvd dcoef x" using assms False by (simp add: dec_is_integral_def)
  then obtain t where t: "dcoef x = ?m * t" by blast
  have mpos: "0 < ?m" by simp
  have "sgn (dcoef x) * (\<bar>dcoef x\<bar> div ?m) = t"
    using mpos unfolding t by (simp add: abs_mult sgn_mult sgn_mult_abs)
  then have "dec_to_int x = t" using False by (simp add: dec_to_int_def)
  moreover have "dval x = of_int t"
    using False by (simp add: dval_def t power_int_def field_simps)
  ultimately show ?thesis by simp
qed

section \<open>The rounding error\<close>

text \<open>Rounding moves the value by at most half a unit of the last kept digit.\<close>

lemma half_even_error:
  assumes "0 < m"
  shows "2 * \<bar>int (half_even (c div m) (c mod m) m) * int m - int c\<bar> \<le> int m"
proof -
  have c: "int c = int (c div m) * int m + int (c mod m)"
    by (metis mult.commute mult_div_mod_eq of_nat_add of_nat_mult)
  have r: "c mod m < m" using assms by simp
  show ?thesis
    using r unfolding c half_even_def by (auto simp: algebra_simps)
qed

lemma dval_fix:
  assumes "prec < ndigits (nat \<bar>dcoef x\<bar>)"
  defines "k \<equiv> ndigits (nat \<bar>dcoef x\<bar>) - prec"
  defines "q \<equiv> half_even (nat \<bar>dcoef x\<bar> div 10 ^ k) (nat \<bar>dcoef x\<bar> mod 10 ^ k) (10 ^ k)"
  shows "dval (dec_fix x) = of_int (sgn (dcoef x)) * of_nat q * 10 powi (dexp x + int k)"
proof (cases "q = 10 ^ prec")
  case True
  have "dec_fix x = Dec (sgn (dcoef x) * 10 ^ (prec - 1)) (dexp x + int k + 1)"
    using assms(1) True by (simp add: dec_fix_def Let_def k_def q_def)
  then show ?thesis
    using True powi_shift [of 1 "dexp x + int k"] by (simp add: dval_def prec_def)
next
  case False
  have "dec_fix x = Dec (sgn (dcoef x) * int q) (dexp x + int k)"
    using assms(1) False by (simp add: dec_fix_def Let_def k_def q_def)
  then show ?thesis by (simp add: dval_def)
qed

lemma dec_fix_error:
  "2 * \<bar>dval (dec_fix x) - dval x\<bar> \<le> 10 powi (dexp x + int (ndigits (nat \<bar>dcoef x\<bar>) - prec))"
proof (cases "prec < ndigits (nat \<bar>dcoef x\<bar>)")
  case False
  then have "dec_fix x = x" by (simp add: dec_fix_def)
  then show ?thesis by simp
next
  case True
  define c where "c = nat \<bar>dcoef x\<bar>"
  define k where "k = ndigits c - prec"
  define q where "q = half_even (c div 10 ^ k) (c mod 10 ^ k) (10 ^ k)"
  define s where "s = (of_int (sgn (dcoef x)) :: rat)"
  have x: "dval x = s * of_nat c * 10 powi dexp x"
  proof -
    have "dcoef x = sgn (dcoef x) * int c" by (simp add: c_def sgn_mult_abs)
    then have "(of_int (dcoef x) :: rat) = s * of_nat c" by (metis of_int_mult of_int_of_nat_eq s_def)
    then show ?thesis by (simp add: dval_def)
  qed
  have "dval (dec_fix x) = s * of_nat q * (10 ^ k * 10 powi dexp x)"
    using dval_fix [OF True] powi_shift [of "int k" "dexp x"]
    by (simp only: c_def k_def q_def s_def nat_int of_nat_0_le_iff simp_thms)
  then have "dval (dec_fix x) - dval x = s * (of_nat q * 10 ^ k - of_nat c) * 10 powi dexp x"
    by (simp add: x algebra_simps)
  then have "2 * \<bar>dval (dec_fix x) - dval x\<bar> =
      \<bar>s\<bar> * (2 * \<bar>of_nat q * 10 ^ k - of_nat c\<bar>) * 10 powi dexp x"
    by (simp add: abs_mult)
  also have "\<dots> \<le> 1 * 10 ^ k * 10 powi dexp x"
  proof (intro mult_right_mono mult_mono)
    show "\<bar>s\<bar> \<le> 1" by (simp add: s_def sgn_if)
    have "2 * \<bar>int q * 10 ^ k - int c\<bar> \<le> 10 ^ k"
      using half_even_error [of "10 ^ k" c] by (simp add: q_def)
    then have "(of_int (2 * \<bar>int q * 10 ^ k - int c\<bar>) :: rat) \<le> of_int (10 ^ k)"
      by (rule of_int_le_iff [THEN iffD2])
    then show "2 * \<bar>of_nat q * 10 ^ k - of_nat c\<bar> \<le> (10 ^ k :: rat)" by simp
  qed auto
  also have "\<dots> = 10 powi (dexp x + int k)"
    using powi_shift [of "int k" "dexp x"] by simp
  finally show ?thesis by (simp add: k_def c_def)
qed

lemma dec_fix_nonneg: "0 \<le> dval x \<Longrightarrow> 0 \<le> dval (dec_fix x)"
proof -
  assume "0 \<le> dval x"
  moreover have "(0 :: rat) < 10 powi dexp x" by simp
  ultimately have "0 \<le> dcoef x" by (simp add: dval_def zero_le_mult_iff not_le [symmetric])
  then show ?thesis
    by (cases "prec < ndigits (nat \<bar>dcoef x\<bar>)")
       (auto simp: dval_fix sgn_if, simp add: dec_fix_def dval_def)
qed

end
