(* ===== verification/NdjsonCodec.thy ===== *)
theory NdjsonCodec
  imports Calendar PyDecimal
begin

text \<open>
  \<^verbatim>\<open>wal/ndjson_codec.py\<close>, encoding side: a record (a \<^verbatim>\<open>dict\<close>) is printed as one line of JSON in
  which a \<^verbatim>\<open>Decimal\<close> is a plain number literal and a UTC \<^verbatim>\<open>datetime\<close> an ISO-8601 string. The
  standard library's part (\<^verbatim>\<open>json.dumps\<close> on a key, \<^verbatim>\<open>JSONEncoder\<close> on a leaf, \<^verbatim>\<open>format(d, "f")\<close>,
  \<^verbatim>\<open>isoformat\<close>) is written out. Characters are code points below 256; floats and time zones
  other than UTC do not occur in the model.

  What the log needs of the encoder is line framing: the printed record has no line break
  before its end, so a file of appended lines splits back into exactly those lines.
\<close>

section \<open>Values\<close>

datatype jval =
    JNull
  | JBool bool
  | JInt int
  | JStr string
  | JDecimal decimal
  | JDecimalNonFinite
  | JDatetime timestamp
  | JList "jval list"
  | JDict "(string \<times> jval) list"

section \<open>Leaves: numbers, dates and strings\<close>

fun show_nat :: "nat \<Rightarrow> string" where
  "show_nat n = (if n < 10 then [digit n] else show_nat (n div 10) @ [digit n])"

declare show_nat.simps [simp del]

definition show_int :: "int \<Rightarrow> string" where
  "show_int i = (if i < 0 then ''-'' @ show_nat (nat (- i)) else show_nat (nat i))"

text \<open>\<^verbatim>\<open>format(d, "f")\<close>: no exponent; zeros are added on either side as needed.\<close>

definition format_f :: "decimal \<Rightarrow> string" where
  "format_f d =
     (let digits = show_nat (nat \<bar>dcoef d\<bar>); sign = (if dcoef d < 0 then ''-'' else []) in
      if dcoef d = 0 \<and> 0 < dexp d then ''0''
      else if 0 \<le> dexp d then sign @ digits @ replicate (nat (dexp d)) CHR ''0''
      else let f = nat (- dexp d);
               padded = replicate (Suc f - length digits) CHR ''0'' @ digits;
               n = length padded - f
           in sign @ take n padded @ ''.'' @ drop n padded)"

text \<open>\<^verbatim>\<open>datetime.isoformat()\<close> of an aware UTC value.\<close>

definition isoformat :: "timestamp \<Rightarrow> string" where
  "isoformat t =
     (let s = t div 1000000; us = nat (t mod 1000000); r = nat (s mod 86400) in
      strftime_date s @ ''T'' @ fixw 2 (r div 3600) @ '':'' @ fixw 2 (r mod 3600 div 60) @ '':''
        @ fixw 2 (r mod 60) @ (if us = 0 then [] else ''.'' @ fixw 6 us) @ ''+00:00'')"

definition hex :: "nat \<Rightarrow> char" where
  "hex n = ''0123456789abcdef'' ! (n mod 16)"

definition esc_u :: "char \<Rightarrow> string" where
  "esc_u c = [CHR 0x5C] @ ''u00'' @ [hex (of_char c div 16), hex (of_char c)]"

text \<open>One character of a JSON string; \<open>ascii\<close> is the encoder's \<^verbatim>\<open>ensure_ascii\<close>.\<close>

definition esc :: "bool \<Rightarrow> char \<Rightarrow> string" where
  "esc ascii c =
     (if c = CHR 0x22 \<or> c = CHR 0x5C then [CHR 0x5C, c]
      else if c = CHR 0x0A then [CHR 0x5C, CHR ''n'']
      else if c = CHR 0x0D then [CHR 0x5C, CHR ''r'']
      else if c = CHR 0x09 then [CHR 0x5C, CHR ''t'']
      else if c = CHR 0x0C then [CHR 0x5C, CHR ''f'']
      else if c = CHR 0x08 then [CHR 0x5C, CHR ''b'']
      else if of_char c < (32 :: nat) \<or> (ascii \<and> (127 :: nat) \<le> of_char c) then esc_u c
      else [c])"

definition json_str :: "bool \<Rightarrow> string \<Rightarrow> string" where
  "json_str ascii s = [CHR 0x22] @ concat (map (esc ascii) s) @ [CHR 0x22]"

section \<open>The encoder\<close>

fun join :: "string \<Rightarrow> string list \<Rightarrow> string" where
  "join sep [] = []"
| "join sep [x] = x"
| "join sep (x # xs) = x @ sep @ join sep xs"

text \<open>\<^verbatim>\<open>_decimal_iterencode\<close>, with the fragments it yields already concatenated.\<close>

fun decimal_iterencode :: "jval \<Rightarrow> string" where
  "decimal_iterencode JNull = ''null''"
| "decimal_iterencode (JBool b) = (if b then ''true'' else ''false'')"
| "decimal_iterencode (JInt i) = show_int i"
| "decimal_iterencode (JStr s) = json_str False s"
| "decimal_iterencode (JDecimal d) = format_f d"
| "decimal_iterencode JDecimalNonFinite = []"
| "decimal_iterencode (JDatetime t) = json_str False (isoformat t)"
| "decimal_iterencode (JList xs) = ''['' @ join '','' (map decimal_iterencode xs) @ '']''"
| "decimal_iterencode (JDict kvs) =
     ''{'' @ join '','' (map (\<lambda>kv. json_str True (fst kv) @ '':'' @ decimal_iterencode (snd kv)) kvs) @ ''}''"

text \<open>A NaN or an infinity anywhere makes the generator raise.\<close>

fun all_finite :: "jval \<Rightarrow> bool" where
  "all_finite JDecimalNonFinite = False"
| "all_finite (JList xs) = list_all all_finite xs"
| "all_finite (JDict kvs) = list_all (\<lambda>kv. all_finite (snd kv)) kvs"
| "all_finite _ = True"

type_synonym jrecord = "(string \<times> jval) list"

definition encode_record :: "jrecord \<Rightarrow> py_error + string" where
  "encode_record r =
     (if all_finite (JDict r) then Inr (decimal_iterencode (JDict r) @ [CHR 0x0A])
      else Inl ValueError)"

text \<open>Cutting a file's text at line breaks, as iterating over a text file does.\<close>

fun text_lines :: "string \<Rightarrow> string list" where
  "text_lines [] = []"
| "text_lines (c # cs) =
     (if c = CHR 0x0A then [c] # text_lines cs
      else (case text_lines cs of [] \<Rightarrow> [[c]] | l # ls \<Rightarrow> (c # l) # ls))"

section \<open>No line break inside a record\<close>

abbreviation newline_free :: "string \<Rightarrow> bool" where
  "newline_free s \<equiv> CHR 0x0A \<notin> set s"

lemma digit_no_newline: "digit n \<noteq> CHR 0x0A"
proof
  assume "digit n = CHR 0x0A"
  then have "(of_char (digit n) :: nat) = of_char (CHR 0x0A :: char)" by simp
  then show False by (simp add: digit_def)
qed

lemmas digit_no_newline_both [simp] = digit_no_newline digit_no_newline [symmetric]

lemma newline_free_show_nat: "newline_free (show_nat n)"
proof (induction n rule: show_nat.induct)
  case (1 n)
  then show ?case by (subst show_nat.simps) auto
qed

lemma newline_free_fixw: "newline_free (fixw k n)"
  by (induction k arbitrary: n) auto

lemma newline_free_format_f: "newline_free (format_f d)"
proof -
  have "newline_free (replicate k CHR ''0'' @ show_nat n)" for k n
    using newline_free_show_nat by auto
  then have "newline_free (take i (replicate k CHR ''0'' @ show_nat n))"
    "newline_free (drop i (replicate k CHR ''0'' @ show_nat n))" for i k n
    by (meson in_set_takeD, meson in_set_dropD)
  then show ?thesis
    using newline_free_show_nat by (auto simp: format_f_def Let_def simp del: take_append drop_append)
qed

lemma hex_no_newline: "hex n \<noteq> CHR 0x0A"
proof -
  have "hex n \<in> set ''0123456789abcdef''"
    unfolding hex_def by (rule nth_mem) simp
  then show ?thesis by auto
qed

lemma newline_free_esc: "newline_free (esc a c)"
  by (auto simp: esc_def esc_u_def hex_no_newline hex_no_newline [symmetric])

lemma newline_free_json_str: "newline_free (json_str a s)"
  using newline_free_esc by (auto simp: json_str_def)

lemma newline_free_show_int: "newline_free (show_int i)"
  using newline_free_show_nat by (auto simp: show_int_def)

lemma newline_free_join:
  "newline_free sep \<Longrightarrow> (\<And>x. x \<in> set xs \<Longrightarrow> newline_free x) \<Longrightarrow> newline_free (join sep xs)"
  by (induction sep xs rule: join.induct) auto

lemma newline_free_iterencode: "newline_free (decimal_iterencode v)"
proof (induction v rule: decimal_iterencode.induct)
  case (8 xs)
  then have "newline_free (join '','' (map decimal_iterencode xs))"
    by (intro newline_free_join) auto
  then show ?case by simp
next
  case (9 kvs)
  have "newline_free (join '','' (map (\<lambda>kv. json_str True (fst kv) @ '':'' @ decimal_iterencode (snd kv)) kvs))"
    using 9 newline_free_json_str by (intro newline_free_join) auto
  then show ?case by simp
qed (simp_all add: newline_free_show_int newline_free_json_str newline_free_format_f)

lemma encode_record_line:
  "encode_record r = Inr l \<Longrightarrow> \<exists>b. l = b @ [CHR 0x0A] \<and> newline_free b"
  using newline_free_iterencode [of "JDict r"] by (auto simp: encode_record_def split: if_splits)

lemma text_lines_line: "newline_free b \<Longrightarrow> text_lines (b @ CHR 0x0A # rest) = (b @ [CHR 0x0A]) # text_lines rest"
  by (induction b) auto

section \<open>Property\<close>

text \<open>
  Line framing: the text of any sequence of encoded records, written one after the other,
  splits at line breaks into exactly the encoded records, whatever strings they contain.
\<close>

lemma encoded_records_reframe:
  assumes "map encode_record rs = map Inr ls"
  shows "text_lines (concat ls) = ls"
  using assms
proof (induction rs arbitrary: ls)
  case Nil
  then show ?case by simp
next
  case (Cons r rs)
  then obtain l ls' where ls: "ls = l # ls'" "encode_record r = Inr l" "map encode_record rs = map Inr ls'"
    by (cases ls) auto
  from encode_record_line [OF ls(2)] obtain b where "l = b @ [CHR 0x0A]" "newline_free b" by blast
  with Cons.IH [OF ls(3)] ls(1) show ?case by (simp add: text_lines_line)
qed

end
