(* ===== verification/WalIngester.thy ===== *)
theory WalIngester
  imports WalSegment NdjsonCodec "HOL-Library.Sublist"
begin

text \<open>
  \<^verbatim>\<open>wal/ingester.py\<close>: the append-only writer of one (exchange, channel, symbol) stream.

  A file is its list of lines together with the number of leading lines known to be on disk:
  \<^verbatim>\<open>os.write\<close> adds a line, \<^verbatim>\<open>os.fsync\<close> makes all lines of the file durable, and a crash keeps at
  least the durable ones. The object's attributes form the record \<open>wal\<close>; every method takes
  the readings of the clocks and the outcome of each system call during that call from a
  record \<open>env\<close>, and returns its result or exception together with the state it leaves,
  also when it raises half-way. The lock serialises the methods, so a run is a
  sequence of calls; a short count from \<^verbatim>\<open>os.write\<close> is not modelled.
\<close>

section \<open>Files and the object's state\<close>

record wfile =
  f_lines :: "string list"
  f_synced :: nat

record wal_cfg =
  w_root :: path
  w_exchange :: string
  w_symbol :: string
  w_channel :: string
  w_node_id :: string
  w_fsync_batch :: int
  w_segment_seconds :: int
  w_fsync_window_ms :: "int option"
  w_fsync_window_msgs :: "int option"
  w_buffer_max_msgs :: "int option"

record wal =
  w_fs :: "wfile fsys"
  w_fd :: "path option"
  w_current_path :: "path option"
  w_segment_start_idx :: int
  w_write_count :: nat
  w_writes_since_fsync :: nat
  w_last_fsync :: seconds
  w_closed :: bool

text \<open>What the outside world does during one call.\<close>

record env =
  e_time :: seconds
  e_mono_open :: seconds
  e_mono_check :: seconds
  e_mono_fsync :: seconds
  e_open_ok :: bool
  e_write_ok :: bool
  e_fsync_ok :: bool
  e_replace_ok :: bool

definition empty_wfile :: wfile where
  "empty_wfile = \<lparr>f_lines = [], f_synced = 0\<rparr>"

definition os_open_append :: "path \<Rightarrow> wfile fsys \<Rightarrow> wfile fsys" where
  "os_open_append p fs = (if fs_exists fs p then fs else fs_put p empty_wfile fs)"

definition os_write :: "path \<Rightarrow> string \<Rightarrow> wfile fsys \<Rightarrow> wfile fsys" where
  "os_write p l fs =
     (case fs_get fs p of None \<Rightarrow> fs | Some f \<Rightarrow> fs_put p (f\<lparr>f_lines := f_lines f @ [l]\<rparr>) fs)"

definition os_fsync :: "path \<Rightarrow> wfile fsys \<Rightarrow> wfile fsys" where
  "os_fsync p fs =
     (case fs_get fs p of None \<Rightarrow> fs | Some f \<Rightarrow> fs_put p (f\<lparr>f_synced := length (f_lines f)\<rparr>) fs)"

text \<open>The worst a power failure can leave: only what was synced.\<close>

definition crash :: "wfile fsys \<Rightarrow> wfile fsys" where
  "crash fs = map (\<lambda>(p, f). (p, f\<lparr>f_lines := take (f_synced f) (f_lines f)\<rparr>)) fs"

section \<open>Methods\<close>

definition segment_path :: "wal_cfg \<Rightarrow> int \<Rightarrow> py_error + path" where
  "segment_path c i =
     active_segment_path (w_root c) (w_exchange c) (w_channel c) (w_symbol c)
       (strftime_date (i * w_segment_seconds c)) i (w_node_id c) (w_segment_seconds c)"

definition open_new_segment :: "wal_cfg \<Rightarrow> env \<Rightarrow> int option \<Rightarrow> wal \<Rightarrow> (py_error + unit) \<times> wal" where
  "open_new_segment c e start_idx st =
     (case (case start_idx of Some i \<Rightarrow> Inr i | None \<Rightarrow> segment_index (e_time e) (w_segment_seconds c)) of
        Inl x \<Rightarrow> (Inl x, st)
      | Inr i \<Rightarrow>
          (let st1 = st\<lparr>w_segment_start_idx := i\<rparr> in
           case segment_path c i of
             Inl x \<Rightarrow> (Inl x, st1)
           | Inr p \<Rightarrow>
               if \<not> e_open_ok e then (Inl OSError, st1\<lparr>w_current_path := Some p\<rparr>)
               else (Inr (), st1\<lparr>w_fs := os_open_append p (w_fs st), w_current_path := Some p,
                                w_fd := Some p, w_write_count := 0, w_writes_since_fsync := 0,
                                w_last_fsync := e_mono_open e\<rparr>)))"

definition wal_init :: "wal_cfg \<Rightarrow> env \<Rightarrow> wfile fsys \<Rightarrow> (py_error + unit) \<times> wal" where
  "wal_init c e fs =
     open_new_segment c e None
       \<lparr>w_fs = fs, w_fd = None, w_current_path = None, w_segment_start_idx = 0, w_write_count = 0,
        w_writes_since_fsync = 0, w_last_fsync = e_mono_open e, w_closed = False\<rparr>"

definition replace_current :: "env \<Rightarrow> path \<Rightarrow> wal \<Rightarrow> (py_error + path) \<times> wal" where
  "replace_current e p st =
     (if \<not> fs_exists (w_fs st) p then (Inl FileNotFoundError, st)
      else if \<not> e_replace_ok e then (Inl OSError, st)
      else (Inr (seal_path p),
            st\<lparr>w_fs := fs_replace p (seal_path p) (w_fs st), w_current_path := None\<rparr>))"

definition seal_current :: "env \<Rightarrow> wal \<Rightarrow> (py_error + path) \<times> wal" where
  "seal_current e st =
     (case w_fd st of
        None \<Rightarrow> (Inl AssertionError, st)
      | Some d \<Rightarrow>
          if \<not> e_fsync_ok e then (Inl OSError, st)
          else let st1 = st\<lparr>w_fs := os_fsync d (w_fs st), w_fd := None\<rparr> in
               (case w_current_path st1 of
                  None \<Rightarrow> (Inl AssertionError, st1)
                | Some p \<Rightarrow> replace_current e p st1))"

definition maybe_seal :: "wal_cfg \<Rightarrow> env \<Rightarrow> wal \<Rightarrow> (py_error + path option) \<times> wal" where
  "maybe_seal c e st =
     (case segment_index (e_time e) (w_segment_seconds c) of
        Inl x \<Rightarrow> (Inl x, st)
      | Inr now_idx \<Rightarrow>
          if w_segment_start_idx st < now_idx
          then (case seal_current e st of
                  (Inl x, st1) \<Rightarrow> (Inl x, st1)
                | (Inr sealed, st1) \<Rightarrow>
                    (case open_new_segment c e (Some now_idx) st1 of
                       (Inl x, st2) \<Rightarrow> (Inl x, st2)
                     | (Inr _, st2) \<Rightarrow> (Inr (Some sealed), st2)))
          else (Inr None, st))"

definition should_fsync_now :: "wal_cfg \<Rightarrow> env \<Rightarrow> wal \<Rightarrow> py_error + bool" where
  "should_fsync_now c e st =
     (if w_fsync_window_ms c \<noteq> None \<or> w_fsync_window_msgs c \<noteq> None
      then Inr ((case w_fsync_window_msgs c of None \<Rightarrow> False | Some n \<Rightarrow> n \<le> int (w_writes_since_fsync st))
              \<or> (case w_fsync_window_ms c of None \<Rightarrow> False
                 | Some ms \<Rightarrow> of_int ms \<le> (e_mono_check e - w_last_fsync st) * 1000))
      else if w_fsync_batch c = 0 then Inl ZeroDivisionError
      else Inr (int (w_write_count st) mod w_fsync_batch c = 0))"

definition write_line :: "wal_cfg \<Rightarrow> env \<Rightarrow> string \<Rightarrow> wal \<Rightarrow> (py_error + unit) \<times> wal" where
  "write_line c e line st =
     (case w_fd st of
        None \<Rightarrow> (Inl AssertionError, st)
      | Some d \<Rightarrow>
          if \<not> e_write_ok e then (Inl OSError, st)
          else let st1 = st\<lparr>w_fs := os_write d line (w_fs st), w_write_count := Suc (w_write_count st),
                            w_writes_since_fsync := Suc (w_writes_since_fsync st)\<rparr> in
               (case should_fsync_now c e st1 of
                  Inl x \<Rightarrow> (Inl x, st1)
                | Inr False \<Rightarrow> (Inr (), st1)
                | Inr True \<Rightarrow>
                    if \<not> e_fsync_ok e then (Inl OSError, st1)
                    else (Inr (), st1\<lparr>w_fs := os_fsync d (w_fs st1), w_writes_since_fsync := 0,
                                      w_last_fsync := e_mono_fsync e\<rparr>)))"

definition buffer_full :: "wal_cfg \<Rightarrow> wal \<Rightarrow> bool" where
  "buffer_full c st \<longleftrightarrow>
     (case w_buffer_max_msgs c of None \<Rightarrow> False | Some m \<Rightarrow> m \<le> int (w_writes_since_fsync st))"

definition wal_append :: "wal_cfg \<Rightarrow> env \<Rightarrow> jrecord \<Rightarrow> wal \<Rightarrow> (py_error + unit) \<times> wal" where
  "wal_append c e r st =
     (if w_closed st then (Inl RuntimeError, st)
      else case maybe_seal c e st of
             (Inl x, st1) \<Rightarrow> (Inl x, st1)
           | (Inr _, st1) \<Rightarrow>
               if buffer_full c st1 then (Inl WalBufferOverflowError, st1)
               else (case encode_record r of
                       Inl x \<Rightarrow> (Inl x, st1)
                     | Inr line \<Rightarrow> write_line c e line st1))"

definition wal_flush :: "env \<Rightarrow> wal \<Rightarrow> (py_error + unit) \<times> wal" where
  "wal_flush e st =
     (if w_closed st then (Inr (), st)
      else case w_fd st of
             None \<Rightarrow> (Inr (), st)
           | Some d \<Rightarrow>
               if w_writes_since_fsync st = 0 then (Inr (), st)
               else if \<not> e_fsync_ok e then (Inl OSError, st)
               else (Inr (), st\<lparr>w_fs := os_fsync d (w_fs st), w_writes_since_fsync := 0,
                                w_last_fsync := e_mono_fsync e\<rparr>))"

definition close_fd :: "env \<Rightarrow> wal \<Rightarrow> (py_error + unit) \<times> wal" where
  "close_fd e st =
     (case w_fd st of
        None \<Rightarrow> (Inr (), st)
      | Some d \<Rightarrow> if \<not> e_fsync_ok e then (Inl OSError, st)
                  else (Inr (), st\<lparr>w_fs := os_fsync d (w_fs st), w_fd := None\<rparr>))"

definition wal_close :: "env \<Rightarrow> wal \<Rightarrow> (py_error + unit) \<times> wal" where
  "wal_close e st =
     (if w_closed st then (Inr (), st)
      else case close_fd e st of
             (Inl x, st1) \<Rightarrow> (Inl x, st1)
           | (Inr _, st1) \<Rightarrow>
               (case w_current_path st1 of
                  None \<Rightarrow> (Inr (), st1\<lparr>w_closed := True\<rparr>)
                | Some p \<Rightarrow>
                    if \<not> fs_exists (w_fs st1) p then (Inr (), st1\<lparr>w_closed := True\<rparr>)
                    else (case replace_current e p st1 of
                            (Inl x, st2) \<Rightarrow> (Inl x, st2)
                          | (Inr _, st2) \<Rightarrow> (Inr (), st2\<lparr>w_closed := True\<rparr>))))"

section \<open>Runs\<close>

text \<open>
  A run starts with the constructor on the files \<open>fs0\<close> in bucket \<open>i0\<close> and is any sequence of
  calls, failing ones included. \<open>acked\<close> lists the appends that returned, each with the bucket
  that was open when it did.
\<close>

inductive wal_run :: "wal_cfg \<Rightarrow> wfile fsys \<Rightarrow> int \<Rightarrow> (int \<times> string) list \<Rightarrow> wal \<Rightarrow> bool"
  for c fs0 i0 where
  init: "wal_init c e fs0 = (Inr (), st) \<Longrightarrow> w_segment_start_idx st = i0 \<Longrightarrow> wal_run c fs0 i0 [] st"
| append_ok: "wal_run c fs0 i0 acked st \<Longrightarrow> wal_append c e r st = (Inr (), st') \<Longrightarrow>
    encode_record r = Inr l \<Longrightarrow> wal_run c fs0 i0 (acked @ [(w_segment_start_idx st', l)]) st'"
| append_err: "wal_run c fs0 i0 acked st \<Longrightarrow> wal_append c e r st = (Inl x, st') \<Longrightarrow>
    wal_run c fs0 i0 acked st'"
| flush: "wal_run c fs0 i0 acked st \<Longrightarrow> wal_flush e st = (res, st') \<Longrightarrow> wal_run c fs0 i0 acked st'"
| seal: "wal_run c fs0 i0 acked st \<Longrightarrow> maybe_seal c e st = (res', st') \<Longrightarrow> wal_run c fs0 i0 acked st'"
| close: "wal_run c fs0 i0 acked st \<Longrightarrow> wal_close e st = (res, st') \<Longrightarrow> wal_run c fs0 i0 acked st'"

definition acked_in :: "(int \<times> string) list \<Rightarrow> int \<Rightarrow> string list" where
  "acked_in acked i = map snd (filter (\<lambda>x. fst x = i) acked)"

text \<open>The default policy: no window and a batch of one, i.e. one \<^verbatim>\<open>fsync\<close> per message.\<close>

definition per_message :: "wal_cfg \<Rightarrow> bool" where
  "per_message c \<longleftrightarrow> w_fsync_window_ms c = None \<and> w_fsync_window_msgs c = None \<and> w_fsync_batch c = 1"

definition synced :: "wfile \<Rightarrow> bool" where
  "synced f \<longleftrightarrow> f_synced f = length (f_lines f)"

definition files_synced :: "wfile fsys \<Rightarrow> bool" where
  "files_synced fs \<longleftrightarrow> list_all (\<lambda>(p, f). synced f) fs"

lemma files_syncedD: "files_synced fs \<Longrightarrow> fs_get fs q = Some f \<Longrightarrow> synced f"
  by (auto simp: files_synced_def fs_get_def list_all_iff dest!: map_of_SomeD)

section \<open>Paths and files\<close>

lemma segment_path_inj:
  "segment_path c i = Inr p \<Longrightarrow> segment_path c j = Inr p \<Longrightarrow> w_segment_seconds c \<noteq> 0 \<Longrightarrow> i = j"
  unfolding segment_path_def using active_name_inj [OF _ _ refl] by blast

lemma segment_path_nonempty: "segment_path c i = Inr p \<Longrightarrow> p \<noteq> []"
  unfolding segment_path_def using active_name by blast

lemma seal_path_inj:
  "segment_path c i = Inr p \<Longrightarrow> segment_path c j = Inr q \<Longrightarrow> seal_path p = seal_path q \<longleftrightarrow> p = q"
  using seal_path_eq_iff segment_path_nonempty by blast

lemma seal_path_not_active:
  "segment_path c i = Inr p \<Longrightarrow> segment_path c j = Inr q \<Longrightarrow> seal_path p \<noteq> q"
  unfolding segment_path_def using active_is_active is_sealed_seal_path by metis

lemma fs_get_open [fs_simps]:
  "fs_get (os_open_append p fs) q =
     (if q = p \<and> fs_get fs p = None then Some empty_wfile else fs_get fs q)"
  by (auto simp: os_open_append_def fs_exists_def fs_simps)

lemma fs_get_write [fs_simps]:
  "fs_get (os_write p l fs) q =
     (if q = p then map_option (\<lambda>f. f\<lparr>f_lines := f_lines f @ [l]\<rparr>) (fs_get fs p) else fs_get fs q)"
  by (auto simp: os_write_def fs_simps split: option.splits)

lemma fs_get_fsync [fs_simps]:
  "fs_get (os_fsync p fs) q =
     (if q = p then map_option (\<lambda>f. f\<lparr>f_synced := length (f_lines f)\<rparr>) (fs_get fs p) else fs_get fs q)"
  by (auto simp: os_fsync_def fs_simps split: option.splits)

lemma fs_get_crash [fs_simps]:
  "fs_get (crash fs) q = map_option (\<lambda>f. f\<lparr>f_lines := take (f_synced f) (f_lines f)\<rparr>) (fs_get fs q)"
  unfolding fs_get_def crash_def by (induction fs) auto

lemma acked_in_simps [simp]:
  "acked_in [] i = []"
  "acked_in (xs @ [(j, l)]) i = acked_in xs i @ (if j = i then [l] else [])"
  by (auto simp: acked_in_def)

lemma acked_in_nonempty: "acked_in xs i \<noteq> [] \<longleftrightarrow> (\<exists>l. (i, l) \<in> set xs)"
  by (force simp: acked_in_def filter_empty_conv)

section \<open>Invariant\<close>

text \<open>
  The invariant speaks of the file system, the descriptor, the current path, the bucket and the
  counter. Every file but the current one is durable; the current one lacks at most the
  counted lines and holds the acknowledged lines of its bucket; the acknowledged lines of an
  older bucket are in its sealed file.
\<close>

definition current_ok ::
  "wal_cfg \<Rightarrow> string list \<Rightarrow> path option \<Rightarrow> nat \<Rightarrow> wfile option \<Rightarrow> bool" where
  "current_ok c ls fd n fo \<longleftrightarrow>
     (case fo of
        None \<Rightarrow> ls = [] \<and> fd = None
      | Some f \<Rightarrow> f_synced f \<le> length (f_lines f) \<and> length (f_lines f) \<le> f_synced f + n \<and>
                  (fd = None \<longrightarrow> synced f) \<and> subseq ls (f_lines f) \<and>
                  (per_message c \<longrightarrow> subseq ls (take (f_synced f) (f_lines f))))"

definition sealed_ok :: "string list \<Rightarrow> wfile option \<Rightarrow> bool" where
  "sealed_ok ls fo \<longleftrightarrow> ls = [] \<or> (\<exists>f. fo = Some f \<and> subseq ls (f_lines f))"

definition seg_inv ::
  "wal_cfg \<Rightarrow> (int \<times> string) list \<Rightarrow> wfile fsys \<Rightarrow> path option \<Rightarrow> path option \<Rightarrow> int \<Rightarrow> nat \<Rightarrow> bool" where
  "seg_inv c acked fs fd cur idx n \<longleftrightarrow>
     (\<forall>x\<in>set acked. fst x \<le> idx \<and> (\<exists>p. segment_path c (fst x) = Inr p)) \<and>
     (\<forall>q f. fs_get fs q = Some f \<longrightarrow> cur \<noteq> Some q \<longrightarrow> synced f) \<and>
     (case cur of
        None \<Rightarrow> fd = None
      | Some p \<Rightarrow> segment_path c idx = Inr p \<and> (fd = None \<or> fd = Some p) \<and>
                  current_ok c (acked_in acked idx) fd n (fs_get fs p)) \<and>
     (\<forall>j p. segment_path c j = Inr p \<longrightarrow> cur \<noteq> Some p \<longrightarrow>
            sealed_ok (acked_in acked j) (fs_get fs (seal_path p))) \<and>
     (case w_buffer_max_msgs c of None \<Rightarrow> True | Some m \<Rightarrow> int n \<le> max m 0)"

abbreviation wal_inv :: "wal_cfg \<Rightarrow> (int \<times> string) list \<Rightarrow> wal \<Rightarrow> bool" where
  "wal_inv c acked st \<equiv>
     seg_inv c acked (w_fs st) (w_fd st) (w_current_path st) (w_segment_start_idx st) (w_writes_since_fsync st)"

lemma seg_inv_fsync:
  assumes "seg_inv c acked fs (Some p) cur idx n" and "fd = None \<or> fd = Some p" and "n' = 0 \<or> n' = n"
  shows "seg_inv c acked (os_fsync p fs) fd cur idx n'"
proof -
  have cur: "cur = Some p" "segment_path c idx = Inr p"
    and act: "current_ok c (acked_in acked idx) (Some p) n (fs_get fs p)"
    using assms(1) by (auto simp: seg_inv_def split: option.splits)
  have "current_ok c (acked_in acked idx) fd n' (fs_get (os_fsync p fs) p)"
    using act by (auto simp: current_ok_def fs_simps synced_def split: option.splits)
  moreover have "segment_path c j = Inr q \<Longrightarrow> seal_path q \<noteq> p" for j q
    using seal_path_not_active cur(2) by blast
  ultimately show ?thesis
    using assms cur by (auto simp: seg_inv_def fs_simps split: option.splits)
qed

lemma seg_inv_write:
  assumes "seg_inv c acked fs (Some p) cur idx n"
    and "case w_buffer_max_msgs c of None \<Rightarrow> True | Some m \<Rightarrow> int n < m"
  shows "seg_inv c acked (os_write p l fs) (Some p) cur idx (Suc n)"
proof -
  have cur: "cur = Some p" "segment_path c idx = Inr p"
    and act: "current_ok c (acked_in acked idx) (Some p) n (fs_get fs p)"
    using assms(1) by (auto simp: seg_inv_def split: option.splits)
  have "current_ok c (acked_in acked idx) (Some p) (Suc n) (fs_get (os_write p l fs) p)"
    using act by (auto simp: current_ok_def fs_simps synced_def split: option.splits)
  moreover have "segment_path c j = Inr q \<Longrightarrow> seal_path q \<noteq> p" for j q
    using seal_path_not_active cur(2) by blast
  ultimately show ?thesis
    using assms cur by (auto simp: seg_inv_def fs_simps split: option.splits)
qed

lemma seg_inv_replace:
  assumes "seg_inv c acked fs None (Some p) idx n" and "fs_exists fs p" and "w_segment_seconds c \<noteq> 0"
  shows "seg_inv c acked (fs_replace p (seal_path p) fs) None None idx n"
proof -
  obtain f where f: "fs_get fs p = Some f" using assms(2) by (auto simp: fs_exists_def)
  have p: "segment_path c idx = Inr p" and act: "current_ok c (acked_in acked idx) None n (Some f)"
    using assms(1) f by (auto simp: seg_inv_def)
  have sealed: "sealed_ok (acked_in acked j) (fs_get (fs_replace p (seal_path p) fs) (seal_path q))"
    if q: "segment_path c j = Inr q" for j q
  proof (cases "q = p")
    case True
    then have "j = idx" using segment_path_inj p q assms(3) by blast
    with True act show ?thesis by (simp add: sealed_ok_def current_ok_def fs_get_replace [OF f])
  next
    case False
    then have "seal_path q \<noteq> seal_path p" "seal_path q \<noteq> p"
      using seal_path_inj [OF q p] seal_path_not_active [OF q p] by auto
    moreover have "sealed_ok (acked_in acked j) (fs_get fs (seal_path q))"
      using assms(1) q False by (auto simp: seg_inv_def)
    ultimately show ?thesis by (simp add: fs_get_replace [OF f])
  qed
  have "synced f" using act by (simp add: current_ok_def)
  then have "\<forall>q g. fs_get (fs_replace p (seal_path p) fs) q = Some g \<longrightarrow> synced g"
    using assms(1) by (auto simp: seg_inv_def fs_get_replace [OF f])
  with sealed assms(1) show ?thesis by (auto simp: seg_inv_def)
qed

lemma seg_inv_open:
  assumes "seg_inv c acked fs None None idx n" and "\<forall>x\<in>set acked. fst x < i" and "segment_path c i = Inr p"
  shows "seg_inv c acked (os_open_append p fs) (Some p) (Some p) i 0"
    and "seg_inv c acked fs None (Some p) i n"
proof -
  have empty: "acked_in acked i = []" using assms(2) acked_in_nonempty [of acked i] by auto
  have sealed: "segment_path c j = Inr q \<Longrightarrow> seal_path q \<noteq> p" for j q
    using seal_path_not_active assms(3) by blast
  have synced: "fs_get fs q = Some f \<Longrightarrow> synced f" for q f using assms(1) by (auto simp: seg_inv_def)
  then have "current_ok c [] (Some p) 0 (fs_get (os_open_append p fs) p)" "current_ok c [] None n (fs_get fs p)"
    by (auto simp: current_ok_def fs_simps synced_def empty_wfile_def split: option.splits)
  then show "seg_inv c acked (os_open_append p fs) (Some p) (Some p) i 0" "seg_inv c acked fs None (Some p) i n"
    using assms sealed empty by (fastforce simp: seg_inv_def fs_simps split: option.splits)+
qed

lemma seg_inv_idx:
  "seg_inv c acked fs None None idx n \<Longrightarrow> \<forall>x\<in>set acked. fst x < i \<Longrightarrow> seg_inv c acked fs None None i n"
  by (fastforce simp: seg_inv_def)

lemma seg_inv_ack:
  assumes "seg_inv c acked fs (Some p) cur idx n"
    and "case w_buffer_max_msgs c of None \<Rightarrow> True | Some m \<Rightarrow> int n < m"
  shows "\<not> per_message c \<Longrightarrow> seg_inv c (acked @ [(idx, l)]) (os_write p l fs) (Some p) cur idx (Suc n)"
    and "seg_inv c (acked @ [(idx, l)]) (os_fsync p (os_write p l fs)) (Some p) cur idx 0"
proof -
  have cur: "cur = Some p" "segment_path c idx = Inr p"
    and act: "current_ok c (acked_in acked idx) (Some p) n (fs_get fs p)"
    using assms(1) by (auto simp: seg_inv_def split: option.splits)
  have new: "\<not> per_message c \<Longrightarrow>
      current_ok c (acked_in acked idx @ [l]) (Some p) (Suc n) (fs_get (os_write p l fs) p)"
    "current_ok c (acked_in acked idx @ [l]) (Some p) 0 (fs_get (os_fsync p (os_write p l fs)) p)"
    using act by (auto simp: current_ok_def fs_simps synced_def split: option.splits)
  have sealed: "sealed_ok (acked_in (acked @ [(idx, l)]) j) (fs_get fs (seal_path q))"
    if q: "segment_path c j = Inr q" "cur \<noteq> Some q" for j q
  proof -
    have "idx \<noteq> j" using q cur by auto
    then show ?thesis using assms(1) q by (simp add: seg_inv_def)
  qed
  have apart: "segment_path c j = Inr q \<Longrightarrow> seal_path q \<noteq> p" for j q
    using seal_path_not_active cur(2) by blast
  have acked: "\<forall>x\<in>set (acked @ [(idx, l)]). fst x \<le> idx \<and> (\<exists>p. segment_path c (fst x) = Inr p)"
    using assms(1) cur(2) by (auto simp: seg_inv_def)
  have synced: "\<And>q f. fs_get fs q = Some f \<Longrightarrow> q \<noteq> p \<Longrightarrow> synced f"
    using assms(1) cur(1) by (auto simp: seg_inv_def)
  show "\<not> per_message c \<Longrightarrow> seg_inv c (acked @ [(idx, l)]) (os_write p l fs) (Some p) cur idx (Suc n)"
    unfolding seg_inv_def using acked synced sealed apart new(1) assms(2) cur
    by (auto simp: fs_simps split: option.splits)
  show "seg_inv c (acked @ [(idx, l)]) (os_fsync p (os_write p l fs)) (Some p) cur idx 0"
    unfolding seg_inv_def using acked synced sealed apart new(2) assms(2) cur
    by (auto simp: fs_simps split: option.splits)
qed

section \<open>Every method keeps the invariant\<close>

lemma seg_inv_None: "seg_inv c acked fs fd None idx n \<Longrightarrow> fd = None"
  by (simp add: seg_inv_def)

lemma seg_inv_fd: "seg_inv c acked fs (Some d) cur idx n \<Longrightarrow> cur = Some d"
  by (auto simp: seg_inv_def split: option.splits)

lemma replace_current_inv:
  assumes "wal_inv c acked st" "w_segment_seconds c \<noteq> 0" "w_fd st = None" "w_current_path st = Some p"
    and "replace_current e p st = (res, st')"
  shows "wal_inv c acked st'" and "w_segment_start_idx st' = w_segment_start_idx st"
    and "res = Inr q \<Longrightarrow> w_current_path st' = None \<and> w_fd st' = None"
  using assms by (auto simp: replace_current_def seg_inv_replace split: if_splits)

lemma seal_current_inv:
  assumes "wal_inv c acked st" "w_segment_seconds c \<noteq> 0" "seal_current e st = (res, st')"
  shows "wal_inv c acked st'" and "w_segment_start_idx st' = w_segment_start_idx st"
    and "res = Inr q \<Longrightarrow> w_current_path st' = None \<and> w_fd st' = None"
proof -
  have "wal_inv c acked st' \<and> w_segment_start_idx st' = w_segment_start_idx st \<and>
        (res = Inr q \<longrightarrow> w_current_path st' = None \<and> w_fd st' = None)"
  proof (cases "w_fd st = None \<or> \<not> e_fsync_ok e")
    case True
    with assms show ?thesis by (auto simp: seal_current_def split: option.splits)
  next
    case False
    then obtain d where d: "w_fd st = Some d" "e_fsync_ok e" by auto
    let ?st = "st\<lparr>w_fs := os_fsync d (w_fs st), w_fd := None\<rparr>"
    have cur: "w_current_path st = Some d" using assms(1) d seg_inv_fd by metis
    have "wal_inv c acked ?st" using assms(1) d by (auto intro: seg_inv_fsync)
    moreover have "replace_current e d ?st = (res, st')"
      using assms(3) d cur by (simp add: seal_current_def Let_def)
    ultimately show ?thesis
      using replace_current_inv [of c acked ?st d e res st'] assms(2) cur by simp
  qed
  then show "wal_inv c acked st'" "w_segment_start_idx st' = w_segment_start_idx st"
    "res = Inr q \<Longrightarrow> w_current_path st' = None \<and> w_fd st' = None" by auto
qed

lemma open_new_segment_inv:
  assumes "wal_inv c acked st" "w_fd st = None" "w_current_path st = None" "\<forall>x\<in>set acked. fst x < i"
    and "open_new_segment c e (Some i) st = (res, st')"
  shows "wal_inv c acked st'"
  using assms seg_inv_open [of c acked "w_fs st" "w_segment_start_idx st" "w_writes_since_fsync st" i]
    seg_inv_idx [of c acked "w_fs st" "w_segment_start_idx st" "w_writes_since_fsync st" i]
  by (auto simp: open_new_segment_def Let_def split: sum.splits if_splits)

lemma maybe_seal_inv:
  assumes "wal_inv c acked st" "w_segment_seconds c \<noteq> 0" "maybe_seal c e st = (res, st')"
  shows "wal_inv c acked st'"
proof (cases "\<exists>i. segment_index (e_time e) (w_segment_seconds c) = Inr i \<and> w_segment_start_idx st < i")
  case False
  with assms show ?thesis by (auto simp: maybe_seal_def split: sum.splits if_splits)
next
  case True
  then obtain i where i: "segment_index (e_time e) (w_segment_seconds c) = Inr i" "w_segment_start_idx st < i"
    by blast
  obtain res1 st1 where s: "seal_current e st = (res1, st1)" by fastforce
  note s1 = seal_current_inv [OF assms(1,2) s]
  show ?thesis
  proof (cases res1)
    case (Inl x)
    with i s assms(3) s1 show ?thesis by (simp add: maybe_seal_def)
  next
    case (Inr q)
    obtain res2 st2 where o: "open_new_segment c e (Some i) st1 = (res2, st2)" by fastforce
    have "\<forall>x\<in>set acked. fst x < i" using assms(1) i(2) by (fastforce simp: seg_inv_def)
    from open_new_segment_inv [OF s1(1) _ _ this o] s1(3) [OF Inr] have "wal_inv c acked st2" by simp
    moreover have "st' = st2"
      using assms(3) i s o Inr by (auto simp: maybe_seal_def split: sum.splits)
    ultimately show ?thesis by simp
  qed
qed

lemma should_fsync_per_message: "per_message c \<Longrightarrow> should_fsync_now c e st = Inr True"
  by (simp add: per_message_def should_fsync_now_def)

lemma write_line_inv:
  assumes "wal_inv c acked st" "\<not> buffer_full c st" "write_line c e l st = (res, st')"
  shows "if res = Inr () then wal_inv c (acked @ [(w_segment_start_idx st', l)]) st' else wal_inv c acked st'"
proof (cases "w_fd st")
  case None
  with assms show ?thesis by (auto simp: write_line_def)
next
  case (Some d)
  have room: "case w_buffer_max_msgs c of None \<Rightarrow> True | Some m \<Rightarrow> int (w_writes_since_fsync st) < m"
    using assms(2) by (auto simp: buffer_full_def split: option.splits)
  have inv: "seg_inv c acked (w_fs st) (Some d) (w_current_path st) (w_segment_start_idx st) (w_writes_since_fsync st)"
    using assms(1) Some by simp
  note w = seg_inv_write [OF inv room, of l] and a = seg_inv_ack [OF inv room, of l]
  show ?thesis
  proof (cases "per_message c")
    case True
    then show ?thesis using assms(1,3) Some w a(2)
      by (auto simp: write_line_def should_fsync_per_message Let_def split: if_splits)
  next
    case False
    then show ?thesis using assms(1,3) Some w a
      by (auto simp: write_line_def Let_def split: if_splits sum.splits bool.splits)
  qed
qed

lemma wal_append_inv:
  assumes "wal_inv c acked st" "w_segment_seconds c \<noteq> 0" "wal_append c e r st = (res, st')"
  shows "res = Inl x \<Longrightarrow> wal_inv c acked st'"
    and "res = Inr () \<Longrightarrow> encode_record r = Inr l \<Longrightarrow> wal_inv c (acked @ [(w_segment_start_idx st', l)]) st'"
proof -
  obtain res1 st1 where m: "maybe_seal c e st = (res1, st1)" by fastforce
  note m1 = maybe_seal_inv [OF assms(1,2) m]
  have w: "if res = Inr () then wal_inv c (acked @ [(w_segment_start_idx st', l)]) st' else wal_inv c acked st'"
    if "encode_record r = Inr l" "\<not> buffer_full c st1" "write_line c e l st1 = (res, st')" for l
    using write_line_inv [OF m1 that(2,3)] .
  show "wal_inv c acked st'" if "res = Inl x"
    using assms(1,3) m m1 w that by (auto simp: wal_append_def split: if_splits sum.splits)
  show "wal_inv c (acked @ [(w_segment_start_idx st', l)]) st'" if "res = Inr ()" "encode_record r = Inr l"
    using assms(3) m m1 w that by (auto simp: wal_append_def split: if_splits sum.splits)
qed

lemma wal_flush_inv: "wal_inv c acked st \<Longrightarrow> wal_flush e st = (res, st') \<Longrightarrow> wal_inv c acked st'"
  by (auto simp: wal_flush_def seg_inv_fsync split: if_splits option.splits)

lemma wal_close_inv:
  assumes "wal_inv c acked st" "w_segment_seconds c \<noteq> 0" "wal_close e st = (res, st')"
  shows "wal_inv c acked st'"
proof -
  obtain res1 st1 where f: "close_fd e st = (res1, st1)" by fastforce
  have st1: "wal_inv c acked st1" "res1 = Inr u \<Longrightarrow> w_fd st1 = None" for u
    using assms(1) f by (auto simp: close_fd_def seg_inv_fsync split: option.splits if_splits)
  show ?thesis
  proof (cases "\<exists>p. res1 = Inr () \<and> w_current_path st1 = Some p \<and> fs_exists (w_fs st1) p \<and> \<not> w_closed st")
    case True
    then obtain p where p: "res1 = Inr ()" "w_current_path st1 = Some p" "fs_exists (w_fs st1) p" "\<not> w_closed st"
      by blast
    obtain res2 st2 where r: "replace_current e p st1 = (res2, st2)" by fastforce
    from replace_current_inv(1) [OF st1(1) assms(2) st1(2) [OF p(1)] p(2) r] assms(3) p f r
    show ?thesis by (auto simp: wal_close_def split: sum.splits)
  next
    case False
    with assms(1,3) f st1 show ?thesis
      by (auto simp: wal_close_def split: sum.splits option.splits if_splits)
  qed
qed

lemma wal_run_seconds: "wal_run c fs0 i0 acked st \<Longrightarrow> w_segment_seconds c \<noteq> 0"
  by (induction rule: wal_run.induct)
    (auto simp: wal_init_def open_new_segment_def segment_index_def split: if_splits)

lemma wal_init_inv:
  assumes "files_synced fs0" and "wal_init c e fs0 = (Inr (), st)"
  shows "wal_inv c [] st"
proof -
  have "seg_inv c [] fs0 None None 0 0"
    using files_syncedD [OF assms(1)] by (auto simp: seg_inv_def sealed_ok_def split: option.splits)
  note o = seg_inv_open(1) [OF this, of i p for i p]
  show ?thesis
    using assms(2) o by (auto simp: wal_init_def open_new_segment_def Let_def split: sum.splits if_splits)
qed

lemma wal_run_inv:
  assumes "wal_run c fs0 i0 acked st" and "files_synced fs0"
  shows "wal_inv c acked st"
  using assms(1)
proof (induction rule: wal_run.induct)
  case (init e st)
  then show ?case using wal_init_inv assms(2) by blast
next
  case (append_ok acked st e r st' l)
  then show ?case using wal_append_inv(2) wal_run_seconds assms(1) by blast
next
  case (append_err acked st e r x st')
  then show ?case using wal_append_inv(1) wal_run_seconds assms(1) by blast
next
  case (flush acked st e res st')
  then show ?case using wal_flush_inv by blast
next
  case (seal acked st e res' st')
  then show ?case using maybe_seal_inv wal_run_seconds assms(1) by blast
next
  case (close acked st e res st')
  then show ?case using wal_close_inv wal_run_seconds assms(1) by blast
qed

section \<open>What a run leaves alone\<close>

definition outside :: "wal_cfg \<Rightarrow> int \<Rightarrow> path \<Rightarrow> bool" where
  "outside c i q \<longleftrightarrow> (\<forall>j p. i \<le> j \<longrightarrow> segment_path c j = Inr p \<longrightarrow> q \<noteq> p \<and> q \<noteq> seal_path p)"

definition keeps_outside :: "wal_cfg \<Rightarrow> wal \<Rightarrow> wal \<Rightarrow> bool" where
  "keeps_outside c st st' \<longleftrightarrow> w_segment_start_idx st \<le> w_segment_start_idx st' \<and>
     (\<forall>q. outside c (w_segment_start_idx st) q \<longrightarrow> fs_get (w_fs st') q = fs_get (w_fs st) q)"

lemma keeps_outside_refl [simp]: "keeps_outside c st st"
  by (simp add: keeps_outside_def)

lemma outside_mono: "outside c i q \<Longrightarrow> i \<le> j \<Longrightarrow> outside c j q"
  unfolding outside_def using order_trans by blast

lemma keeps_outside_trans: "keeps_outside c a b \<Longrightarrow> keeps_outside c b d \<Longrightarrow> keeps_outside c a d"
  unfolding keeps_outside_def using outside_mono by (metis order_trans)

lemma outside_current: "outside c i q \<Longrightarrow> segment_path c i = Inr p \<Longrightarrow> q \<noteq> p \<and> q \<noteq> seal_path p"
  by (auto simp: outside_def)

lemma seg_inv_current: "seg_inv c acked fs fd (Some p) idx n \<Longrightarrow> segment_path c idx = Inr p"
  by (simp add: seg_inv_def)

lemma seg_inv_fd_path: "seg_inv c acked fs (Some d) cur idx n \<Longrightarrow> segment_path c idx = Inr d"
  using seg_inv_fd seg_inv_current by metis

lemma seal_current_keeps:
  assumes "wal_inv c acked st" "seal_current e st = (res, st')"
  shows "keeps_outside c st st'"
proof (cases "w_fd st")
  case None
  with assms(2) show ?thesis by (simp add: seal_current_def)
next
  case (Some d)
  then have "segment_path c (w_segment_start_idx st) = Inr d" "w_current_path st = Some d"
    using assms(1) seg_inv_fd_path seg_inv_fd by metis+
  then show ?thesis using assms(2) Some outside_current [of c "w_segment_start_idx st"]
    by (auto simp: seal_current_def replace_current_def keeps_outside_def fs_replace_def fs_simps Let_def
        split: if_splits option.splits)
qed

lemma open_new_segment_keeps:
  "open_new_segment c e (Some i) st = (res, st') \<Longrightarrow> w_segment_start_idx st \<le> i \<Longrightarrow> keeps_outside c st st'"
  by (auto simp: open_new_segment_def keeps_outside_def outside_def fs_simps Let_def
      split: sum.splits if_splits)

lemma maybe_seal_keeps:
  assumes "wal_inv c acked st" "w_segment_seconds c \<noteq> 0" "maybe_seal c e st = (res, st')"
  shows "keeps_outside c st st'"
proof -
  obtain res1 st1 where s: "seal_current e st = (res1, st1)" by fastforce
  note k = seal_current_keeps [OF assms(1) s] and idx = seal_current_inv(2) [OF assms(1,2) s]
  have "keeps_outside c st1 st2"
    if "open_new_segment c e (Some i) st1 = (res2, st2)" "w_segment_start_idx st < i" for i res2 st2
    using open_new_segment_keeps [OF that(1)] that(2) idx by simp
  then show ?thesis using assms(3) s k keeps_outside_trans
    by (fastforce simp: maybe_seal_def split: sum.splits if_splits prod.splits)
qed

lemma write_line_keeps:
  "wal_inv c acked st \<Longrightarrow> write_line c e l st = (res, st') \<Longrightarrow> keeps_outside c st st'"
  using outside_current [of c "w_segment_start_idx st"]
    seg_inv_fd_path [of c acked "w_fs st" _ "w_current_path st" "w_segment_start_idx st" "w_writes_since_fsync st"]
  by (auto simp: write_line_def keeps_outside_def fs_simps Let_def split: option.splits if_splits sum.splits bool.splits)

lemma wal_append_keeps:
  assumes "wal_inv c acked st" "w_segment_seconds c \<noteq> 0" "wal_append c e r st = (res, st')"
  shows "keeps_outside c st st'"
proof -
  obtain res1 st1 where m: "maybe_seal c e st = (res1, st1)" by fastforce
  note k = maybe_seal_keeps [OF assms(1,2) m] and i = maybe_seal_inv [OF assms(1,2) m]
  show ?thesis
    using assms(3) m k keeps_outside_trans [OF k write_line_keeps [OF i]]
    by (auto simp: wal_append_def split: if_splits sum.splits)
qed

lemma wal_flush_keeps:
  "wal_inv c acked st \<Longrightarrow> wal_flush e st = (res, st') \<Longrightarrow> keeps_outside c st st'"
  using outside_current [of c "w_segment_start_idx st"]
    seg_inv_fd_path [of c acked "w_fs st" _ "w_current_path st" "w_segment_start_idx st" "w_writes_since_fsync st"]
  by (auto simp: wal_flush_def keeps_outside_def fs_simps split: option.splits if_splits)

lemma wal_close_keeps:
  assumes "wal_inv c acked st" "wal_close e st = (res, st')"
  shows "keeps_outside c st st'"
proof -
  have "w_current_path st = Some p \<Longrightarrow> segment_path c (w_segment_start_idx st) = Inr p"
    "w_fd st = Some p \<Longrightarrow> segment_path c (w_segment_start_idx st) = Inr p" for p
    using assms(1) seg_inv_fd_path seg_inv_current by metis+
  then show ?thesis using assms(2) outside_current [of c "w_segment_start_idx st"]
    by (auto simp: wal_close_def close_fd_def replace_current_def keeps_outside_def fs_replace_def fs_simps
        split: if_splits option.splits sum.splits)
qed

lemmas op_keeps = wal_append_keeps wal_flush_keeps maybe_seal_keeps wal_close_keeps

lemma wal_run_keeps:
  assumes "wal_run c fs0 i0 acked st" and "files_synced fs0"
  shows "i0 \<le> w_segment_start_idx st \<and> (\<forall>q. outside c i0 q \<longrightarrow> fs_get (w_fs st) q = fs_get fs0 q)"
proof -
  have step: "i0 \<le> w_segment_start_idx st' \<and> (\<forall>q. outside c i0 q \<longrightarrow> fs_get (w_fs st') q = fs_get fs0 q)"
    if "keeps_outside c st st'"
      "i0 \<le> w_segment_start_idx st \<and> (\<forall>q. outside c i0 q \<longrightarrow> fs_get (w_fs st) q = fs_get fs0 q)" for st st'
    using that outside_mono by (fastforce simp: keeps_outside_def)
  note secs = wal_run_seconds [OF assms(1)] and inv = wal_run_inv [OF _ assms(2)]
  show ?thesis using assms(1)
  proof (induction rule: wal_run.induct)
    case (init e st)
    then obtain p where p: "segment_path c i0 = Inr p" "w_fs st = os_open_append p fs0"
      by (auto simp: wal_init_def open_new_segment_def Let_def split: sum.splits if_splits)
    have "fs_get (w_fs st) q = fs_get fs0 q" if "outside c i0 q" for q
      using outside_current [OF that p(1)] by (simp add: p(2) fs_get_open)
    with init(2) show ?case by simp
  next
    case (append_ok acked st e r st' l)
    show ?case
      by (rule step [OF op_keeps(1) [OF inv [OF append_ok.hyps(1)] secs append_ok.hyps(2)] append_ok.IH])
  next
    case (append_err acked st e r x st')
    show ?case
      by (rule step [OF op_keeps(1) [OF inv [OF append_err.hyps(1)] secs append_err.hyps(2)] append_err.IH])
  next
    case (flush acked st e res st')
    show ?case by (rule step [OF op_keeps(2) [OF inv [OF flush.hyps(1)] flush.hyps(2)] flush.IH])
  next
    case (seal acked st e res' st')
    show ?case by (rule step [OF op_keeps(3) [OF inv [OF seal.hyps(1)] secs seal.hyps(2)] seal.IH])
  next
    case (close acked st e res st')
    show ?case by (rule step [OF op_keeps(4) [OF inv [OF close.hyps(1)] close.hyps(2)] close.IH])
  qed
qed

section \<open>Properties\<close>

text \<open>A configuration and a world in which every system call succeeds, for the examples.\<close>

definition example_cfg :: wal_cfg where
  "example_cfg = \<lparr>w_root = [''d''], w_exchange = ''upbit'', w_symbol = ''KRW-BTC'', w_channel = ''tx'',
     w_node_id = ''n1'', w_fsync_batch = 1, w_segment_seconds = 300, w_fsync_window_ms = None,
     w_fsync_window_msgs = None, w_buffer_max_msgs = None\<rparr>"

definition example_env :: "seconds \<Rightarrow> env" where
  "example_env t = \<lparr>e_time = t, e_mono_open = 0, e_mono_check = 0, e_mono_fsync = 0,
     e_open_ok = True, e_write_ok = True, e_fsync_ok = True, e_replace_ok = True\<rparr>"

lemma example_segment: "\<exists>p. segment_path example_cfg 0 = Inr p"
  by (simp add: segment_path_def example_cfg_def active_segment_path_def utc_ok_def epoch_days_def Let_def)

lemma example_encode: "encode_record [(''a'', JNull)] = Inr (''{'' @ [CHR 0x22] @ ''a'' @ [CHR 0x22] @ '':null}'' @ [CHR 0x0A])"
  by (simp add: encode_record_def json_str_def esc_def)

lemma example_run:
  "\<exists>st. wal_run example_cfg [] 0 [(0, projr (encode_record [(''a'', JNull)]))] st \<and> \<not> w_closed st
        \<and> w_fd st \<noteq> None"
proof -
  obtain p where p: "segment_path example_cfg 0 = Inr p" using example_segment by blast
  obtain l where l: "encode_record [(''a'', JNull)] = Inr l" using example_encode by simp
  have idx: "segment_index 0 (w_segment_seconds example_cfg) = Inr 0"
    by (simp add: segment_index_def example_cfg_def)
  obtain st where st: "wal_init example_cfg (example_env 0) [] = (Inr (), st)"
    "w_segment_start_idx st = 0" "w_fd st = Some p" "\<not> w_closed st"
    using idx p by (simp add: wal_init_def open_new_segment_def example_env_def Let_def)
  have pm: "per_message example_cfg" by (simp add: per_message_def example_cfg_def)
  have "\<not> buffer_full example_cfg st" by (simp add: buffer_full_def example_cfg_def)
  then obtain st' where st': "wal_append example_cfg (example_env 0) [(''a'', JNull)] st = (Inr (), st')"
    "w_segment_start_idx st' = 0" "w_fd st' = Some p" "\<not> w_closed st'"
    using st l idx pm
    by (simp add: wal_append_def maybe_seal_def write_line_def should_fsync_per_message example_env_def Let_def)
  from wal_run.append_ok [OF wal_run.init [OF st(1,2)] st'(1) l] st' l show ?thesis by auto
qed

text \<open>
  C2. Durability of the log. After any sequence of calls, with any of the system calls failing,
  every append that returned has its line in the file of its bucket, in the order of the
  appends: in the active file if that bucket is still open, else in its sealed file, which
  is durable in full. The active file lacks at most \<^verbatim>\<open>_writes_since_fsync\<close> lines on disk,
  and that count never exceeds \<^verbatim>\<open>buffer_max_msgs\<close> when it is set.
\<close>

theorem wal_acked_durable:
  assumes "wal_run c fs0 i0 acked st" and "files_synced fs0"
    and "acked_in acked i \<noteq> []"
  shows "\<exists>p f. segment_path c i = Inr p \<and>
           fs_get (w_fs st) (if w_current_path st = Some p then p else seal_path p) = Some f \<and>
           subseq (acked_in acked i) (f_lines f) \<and>
           (if w_current_path st = Some p then length (f_lines f) \<le> f_synced f + w_writes_since_fsync st
            else synced f) \<and>
           (\<forall>m. w_buffer_max_msgs c = Some m \<longrightarrow> int (w_writes_since_fsync st) \<le> max m 0)"
proof -
  have inv: "wal_inv c acked st" using wal_run_inv assms(1,2) by blast
  obtain l where "(i, l) \<in> set acked" using assms(3) acked_in_nonempty by blast
  with inv obtain p where p: "segment_path c i = Inr p" by (force simp: seg_inv_def)
  have bound: "\<forall>m. w_buffer_max_msgs c = Some m \<longrightarrow> int (w_writes_since_fsync st) \<le> max m 0"
    using inv by (auto simp: seg_inv_def)
  show ?thesis
  proof (cases "w_current_path st = Some p")
    case True
    then have "i = w_segment_start_idx st"
      using inv p segment_path_inj wal_run_seconds [OF assms(1)] seg_inv_current by metis
    with inv True have "current_ok c (acked_in acked i) (w_fd st) (w_writes_since_fsync st) (fs_get (w_fs st) p)"
      by (simp add: seg_inv_def)
    with p True bound assms(3) show ?thesis by (auto simp: current_ok_def split: option.splits)
  next
    case False
    with inv p have "sealed_ok (acked_in acked i) (fs_get (w_fs st) (seal_path p))" by (simp add: seg_inv_def)
    then obtain f where f: "fs_get (w_fs st) (seal_path p) = Some f" "subseq (acked_in acked i) (f_lines f)"
      using assms(3) by (auto simp: sealed_ok_def)
    moreover have "synced f"
    proof -
      have "w_current_path st \<noteq> Some (seal_path p)"
        using inv seg_inv_current seal_path_not_active [OF p] by metis
      with inv f(1) show ?thesis by (auto simp: seg_inv_def)
    qed
    ultimately show ?thesis using p False bound by auto
  qed
qed

theorem wal_acked_durable_witness:
  "\<exists>st p f. wal_run example_cfg [] 0 [(0, projr (encode_record [(''a'', JNull)]))] st \<and>
        segment_path example_cfg 0 = Inr p \<and>
        fs_get (w_fs st) (if w_current_path st = Some p then p else seal_path p) = Some f \<and>
        subseq [projr (encode_record [(''a'', JNull)])] (f_lines f)"
proof -
  let ?l = "projr (encode_record [(''a'', JNull)])"
  obtain st where st: "wal_run example_cfg [] 0 [(0, ?l)] st" using example_run by blast
  have a: "acked_in [(0, ?l)] 0 = [?l]" by (simp add: acked_in_def)
  have files: "files_synced []" by (simp add: files_synced_def)
  have "acked_in [(0, ?l)] 0 \<noteq> []" using a by simp
  from wal_acked_durable [OF st files this, unfolded a] st show ?thesis by blast
qed

text \<open>
  With the default policy (one \<^verbatim>\<open>fsync\<close> per message) a power failure at any point between
  calls loses no acknowledged record: what is left of the bucket's file still contains all of
  them in order.
\<close>

lemma wal_default_no_loss:
  assumes "wal_run c fs0 i0 acked st" and "files_synced fs0"
    and "per_message c" and "acked_in acked i \<noteq> []"
  shows "\<exists>p f. segment_path c i = Inr p \<and>
           fs_get (crash (w_fs st)) (if w_current_path st = Some p then p else seal_path p) = Some f \<and>
           subseq (acked_in acked i) (f_lines f)"
proof -
  have inv: "wal_inv c acked st" using wal_run_inv assms(1,2) by blast
  obtain l where "(i, l) \<in> set acked" using assms(4) acked_in_nonempty by blast
  with inv obtain p where p: "segment_path c i = Inr p" by (force simp: seg_inv_def)
  show ?thesis
  proof (cases "w_current_path st = Some p")
    case True
    then have "i = w_segment_start_idx st"
      using inv p segment_path_inj wal_run_seconds [OF assms(1)] seg_inv_current by metis
    with inv True have "current_ok c (acked_in acked i) (w_fd st) (w_writes_since_fsync st) (fs_get (w_fs st) p)"
      by (simp add: seg_inv_def)
    with p True assms(3,4) show ?thesis by (auto simp: current_ok_def fs_simps split: option.splits)
  next
    case False
    with inv p have "sealed_ok (acked_in acked i) (fs_get (w_fs st) (seal_path p))" by (simp add: seg_inv_def)
    then obtain f where f: "fs_get (w_fs st) (seal_path p) = Some f" "subseq (acked_in acked i) (f_lines f)"
      using assms(4) by (auto simp: sealed_ok_def)
    have "w_current_path st \<noteq> Some (seal_path p)"
      using inv seg_inv_current seal_path_not_active [OF p] by metis
    with inv f(1) have "synced f" by (auto simp: seg_inv_def)
    with f p False show ?thesis by (auto simp: fs_simps synced_def)
  qed
qed

text \<open>
  A run touches only its own segments: a file that is neither the active nor the sealed
  name of a bucket from the starting one on is exactly as it was, whatever calls are made and
  whatever fails. In particular the sealed segments of all earlier buckets are kept.
\<close>

lemma wal_run_frame:
  assumes "wal_run c fs0 i0 acked st" and "files_synced fs0"
    and "outside c i0 q"
  shows "fs_get (w_fs st) q = fs_get fs0 q"
  using wal_run_keeps [OF assms(1,2)] assms(3) by blast



text \<open>
  C5. A restart inside a bucket destroys the bucket's sealed segment: when the sealed file of the
  current bucket already exists (an earlier writer of this node was closed in the same
  interval), constructing a writer and closing it again replaces that file, here by an
  empty one, although every system call succeeded. \<^verbatim>\<open>os.replace\<close> is called without looking at
  the target.
\<close>

theorem wal_restart_overwrites_sealed:
  assumes "segment_path c i = Inr p" "segment_index (e_time e) (w_segment_seconds c) = Inr i"
    and "e_open_ok e" "e_fsync_ok e" "e_replace_ok e"
    and "fs_get fs p = None" "fs_get fs (seal_path p) = Some old"
  shows "\<exists>st1 st2. wal_init c e fs = (Inr (), st1) \<and> wal_close e st1 = (Inr (), st2) \<and>
           fs_get (w_fs st2) p = None \<and> fs_get (w_fs st2) (seal_path p) = Some empty_wfile"
proof -
  define st1 where "st1 = \<lparr>w_fs = os_open_append p fs, w_fd = Some p, w_current_path = Some p,
    w_segment_start_idx = i, w_write_count = 0, w_writes_since_fsync = 0, w_last_fsync = e_mono_open e, w_closed = False\<rparr>"
  have "wal_init c e fs = (Inr (), st1)"
    using assms by (simp add: wal_init_def open_new_segment_def st1_def Let_def)
  moreover have g: "fs_get (os_fsync p (os_open_append p fs)) p = Some empty_wfile"
    using assms(6) by (simp add: fs_simps empty_wfile_def)
  then have "\<exists>st2. wal_close e st1 = (Inr (), st2) \<and> fs_get (w_fs st2) p = None \<and>
      fs_get (w_fs st2) (seal_path p) = Some empty_wfile"
    using assms(4,5) seal_path_neq [of p]
    by (simp add: wal_close_def close_fd_def replace_current_def st1_def fs_exists_def fs_get_replace [OF g])
  ultimately show ?thesis by blast
qed

theorem wal_restart_overwrites_sealed_witness:
  "\<exists>p st1 st2. segment_path example_cfg 0 = Inr p \<and>
     wal_init example_cfg (example_env 0) [(seal_path p, \<lparr>f_lines = [''x''], f_synced = 1\<rparr>)] = (Inr (), st1) \<and>
     wal_close (example_env 0) st1 = (Inr (), st2) \<and> fs_get (w_fs st2) (seal_path p) = Some empty_wfile"
proof -
  obtain p where p: "segment_path example_cfg 0 = Inr p" using example_segment by blast
  let ?fs = "[(seal_path p, \<lparr>f_lines = [''x''], f_synced = 1\<rparr>)]"
  have "segment_index (e_time (example_env 0)) (w_segment_seconds example_cfg) = Inr 0"
    by (simp add: segment_index_def example_cfg_def example_env_def)
  moreover have "fs_get ?fs p = None" "fs_get ?fs (seal_path p) = Some \<lparr>f_lines = [''x''], f_synced = 1\<rparr>"
    using seal_path_neq [of p] by (simp_all add: fs_get_def)
  ultimately show ?thesis
    using wal_restart_overwrites_sealed [OF p, of "example_env 0" ?fs] p by (auto simp: example_env_def)
qed

end
