(* ===== verification/Rows.thy ===== *)
theory Rows
  imports NdjsonCodec
begin

text \<open>
  The rows that cross component boundaries: candles, ticks (\<^verbatim>\<open>TickRowV1_1\<close>) and order-book events,
  with the optional fields the code reads through \<^verbatim>\<open>getattr\<close>; and \<^verbatim>\<open>str()\<close> of a decimal and
  of a UTC time, which hashes, labels and identifiers are built from.
\<close>

section \<open>Rows\<close>

record candle =
  c_exchange :: string
  c_symbol :: string
  c_timeframe :: string
  c_ts_utc :: timestamp
  c_open :: decimal
  c_high :: decimal
  c_low :: decimal
  c_close :: decimal
  c_volume :: decimal
  c_received_at :: "timestamp option"
  c_node_id :: "string option"

record tick =
  t_exchange :: string
  t_symbol :: string
  t_ts_utc :: timestamp
  t_price :: decimal
  t_quantity :: decimal
  t_side :: string
  t_raw_json :: "string option"
  t_node_id :: "string option"
  t_payload_hash :: "string option"
  t_ingest_seq :: "int option"

record ob_event =
  o_exchange :: string
  o_symbol :: string
  o_ts_utc :: timestamp
  o_event_type :: string
  o_side :: string
  o_level :: int
  o_price :: decimal
  o_quantity :: decimal
  o_raw_json :: "string option"
  o_node_id :: "string option"

section \<open>Printing decimals and times\<close>

text \<open>\<^verbatim>\<open>str(d)\<close> of a decimal: plain notation for exponents between -6 and 0, else scientific.\<close>

definition dec_str :: "decimal \<Rightarrow> string" where
  "dec_str d =
     (let digits = show_nat (nat \<bar>dcoef d\<bar>); n = int (length digits);
          left = dexp d + n;
          dot = (if dexp d \<le> 0 \<and> -6 < left then left else 1);
          body = (if dot \<le> 0 then ''0.'' @ replicate (nat (- dot)) CHR ''0'' @ digits
                  else if n \<le> dot then digits @ replicate (nat (dot - n)) CHR ''0''
                  else take (nat dot) digits @ ''.'' @ drop (nat dot) digits);
          e = (if left = dot then []
               else ''E'' @ (if 0 \<le> left - dot then ''+'' else []) @ show_int (left - dot))
      in (if dcoef d < 0 then ''-'' else []) @ body @ e)"

text \<open>\<^verbatim>\<open>str(dt)\<close>: \<^verbatim>\<open>isoformat\<close> with a blank between date and time.\<close>

definition dt_str :: "timestamp \<Rightarrow> string" where
  "dt_str t = map (\<lambda>c. if c = CHR ''T'' then CHR '' '' else c) (isoformat t)"

end
