(* ===== verification/Dedup.thy ===== *)
theory Dedup
  imports Rows
begin

text \<open>
  \<^verbatim>\<open>dedup.py\<close>: read-side deduplication of rows written by several nodes at once.

  Rows of one logical key are resolved to one row. Candles (T1) keep the row received last, the
  node name deciding ties. Ticks (T2) and order-book events (T3) keep the first row and record a
  conflict whenever another row with the same key has a different raw payload; the 1.1 tick
  format compares payload hashes within a six-field body instead. Conflicts pass a
  limiter that delays, but must not drop, records above 100 per second.

  A \<^verbatim>\<open>Decimal\<close> in a key is its numeric value, because Python compares and hashes decimals by
  value. \<^verbatim>\<open>time.monotonic()\<close> is a function \<open>clk\<close> of the number of readings made before.
\<close>

section \<open>Candle hashes\<close>

definition hash_fields :: "candle \<Rightarrow> string" where
  "hash_fields c = join ''|'' [dt_str (c_ts_utc c), dec_str (c_open c), dec_str (c_high c),
     dec_str (c_low c), dec_str (c_close c), dec_str (c_volume c)]"

text \<open>The digest function is a parameter.\<close>

definition compute_data_hash :: "(string \<Rightarrow> string) \<Rightarrow> candle \<Rightarrow> string" where
  "compute_data_hash sha256 c = sha256 (hash_fields c)"

datatype DedupStatus = UNIQUE | SAME_HASH | HASH_CONFLICT

definition is_duplicate ::
  "(string \<Rightarrow> string) \<Rightarrow> candle \<Rightarrow> (timestamp \<times> string) list \<Rightarrow> DedupStatus \<times> (timestamp \<times> string) list" where
  "is_duplicate sha256 c seen =
     (let h = compute_data_hash sha256 c in
      case map_of seen (c_ts_utc c) of
        None \<Rightarrow> (UNIQUE, AList.update (c_ts_utc c) h seen)
      | Some prior \<Rightarrow> (if prior = h then SAME_HASH else HASH_CONFLICT, seen))"

section \<open>Keys and priorities\<close>

definition candle_logical_key :: "candle \<Rightarrow> string \<times> string \<times> string \<times> timestamp" where
  "candle_logical_key r = (c_exchange r, c_symbol r, c_timeframe r, c_ts_utc r)"

type_synonym tick_body = "string \<times> string \<times> timestamp \<times> rat \<times> rat \<times> string"

definition tick_logical_key :: "tick \<Rightarrow> tick_body" where
  "tick_logical_key r =
     (t_exchange r, t_symbol r, t_ts_utc r, dval (t_price r), dval (t_quantity r), t_side r)"

definition tick_v1_1_logical_key :: "tick \<Rightarrow> tick_body \<times> string option \<times> int option" where
  "tick_v1_1_logical_key r =
     ((t_exchange r, t_symbol r, t_ts_utc r, dval (t_price r), dval (t_quantity r), t_side r),
      t_payload_hash r, t_ingest_seq r)"

definition orderbook_logical_key ::
  "ob_event \<Rightarrow> string \<times> string \<times> timestamp \<times> string \<times> string \<times> int \<times> rat \<times> rat" where
  "orderbook_logical_key r =
     (o_exchange r, o_symbol r, o_ts_utc r, o_event_type r, o_side r, o_level r,
      dval (o_price r), dval (o_quantity r))"

definition NODE_PRIORITY_DEFAULT_SENTINEL :: string where
  "NODE_PRIORITY_DEFAULT_SENTINEL = ''zzz_DEFAULT''"

definition node_priority :: "string option \<Rightarrow> string" where
  "node_priority node_id =
     (case node_id of None \<Rightarrow> NODE_PRIORITY_DEFAULT_SENTINEL
      | Some s \<Rightarrow> if s = [] then NODE_PRIORITY_DEFAULT_SENTINEL else s)"

section \<open>Conflict records and their limiter\<close>

record ('k, 'r) quarantine_record =
  q_reason :: string
  q_tier :: string
  q_logical_key :: 'k
  q_rows :: "'r list"
  q_detected_at :: timestamp

record 'q limiter =
  l_cap :: nat
  l_window_start :: seconds
  l_window_count :: nat
  l_batch :: "'q list"
  l_artifact_count :: nat

definition QUARANTINE_RATE_LIMIT_PER_SEC :: nat where
  "QUARANTINE_RATE_LIMIT_PER_SEC = 100"

definition limiter_init :: "nat \<Rightarrow> seconds \<Rightarrow> 'q limiter" where
  "limiter_init cap now =
     \<lparr>l_cap = cap, l_window_start = now, l_window_count = 0, l_batch = [], l_artifact_count = 0\<rparr>"

definition admit :: "seconds \<Rightarrow> 'q \<Rightarrow> 'q limiter \<Rightarrow> 'q list option \<times> 'q limiter" where
  "admit now q l =
     (let rollover = (1 \<le> now - l_window_start l);
          l1 = (if rollover then l\<lparr>l_window_start := now, l_window_count := 0\<rparr> else l) in
      if rollover \<and> l_batch l1 \<noteq> []
      then (Some (l_batch l1), l1\<lparr>l_batch := [q], l_artifact_count := Suc (l_artifact_count l1)\<rparr>)
      else let l2 = l1\<lparr>l_window_count := Suc (l_window_count l1)\<rparr> in
           if l_window_count l2 \<le> l_cap l2
           then (Some [q], l2\<lparr>l_artifact_count := Suc (l_artifact_count l2)\<rparr>)
           else (None, l2\<lparr>l_batch := l_batch l2 @ [q]\<rparr>))"

definition limiter_flush :: "'q limiter \<Rightarrow> 'q list \<times> 'q limiter" where
  "limiter_flush l =
     (if l_batch l \<noteq> []
      then (l_batch l, l\<lparr>l_batch := [], l_artifact_count := Suc (l_artifact_count l)\<rparr>)
      else ([], l))"

record ('k, 'r) dedup_result =
  emitted :: "'r list"
  dup_skip_count :: nat
  quarantine_count :: nat
  quarantine_records :: "('k, 'r) quarantine_record list"

text \<open>The counter sink: the two heartbeat counters, if one is attached.\<close>

type_synonym sink = "(nat \<times> nat) option"

definition sink_add :: "nat \<Rightarrow> nat \<Rightarrow> sink \<Rightarrow> sink" where
  "sink_add dup quar s = map_option (\<lambda>(a, b). (a + dup, b + quar)) s"

section \<open>T1: candles\<close>

definition received :: "candle \<Rightarrow> timestamp" where
  "received r = (case c_received_at r of None \<Rightarrow> c_ts_utc r | Some t \<Rightarrow> t)"

definition candle_wins :: "candle \<Rightarrow> candle \<Rightarrow> bool" where
  "candle_wins row existing \<longleftrightarrow>
     (if received existing < received row then True
      else if received row < received existing then False
      else node_priority (c_node_id row) < node_priority (c_node_id existing))"

definition candle_step ::
  "candle \<Rightarrow> ((string \<times> string \<times> string \<times> timestamp) \<times> candle) list \<times> nat
          \<Rightarrow> ((string \<times> string \<times> string \<times> timestamp) \<times> candle) list \<times> nat" where
  "candle_step row s =
     (case s of (by_key, dup_skip) \<Rightarrow>
        let key = candle_logical_key row in
        case map_of by_key key of
          None \<Rightarrow> (AList.update key row by_key, dup_skip)
        | Some existing \<Rightarrow>
            (if candle_wins row existing then AList.update key row by_key else by_key, Suc dup_skip))"

definition deduplicate_candles ::
  "candle list \<Rightarrow> bool \<Rightarrow> sink \<Rightarrow> (string \<times> string \<times> string \<times> timestamp, candle) dedup_result \<times> sink" where
  "deduplicate_candles rows multi_node sink =
     (if \<not> multi_node
      then (\<lparr>emitted = sort_key c_ts_utc rows, dup_skip_count = 0, quarantine_count = 0,
             quarantine_records = []\<rparr>, sink)
      else let (by_key, dup_skip) = fold candle_step rows ([], 0) in
           (\<lparr>emitted = sort_key c_ts_utc (map snd by_key), dup_skip_count = dup_skip,
             quarantine_count = 0, quarantine_records = []\<rparr>, sink_add dup_skip 0 sink))"

section \<open>T2 and T3: ticks and order-book events\<close>

text \<open>
  The two functions have the same text up to the key, the tier name and the row type; the
  common loop body takes those as arguments.
\<close>

record ('k, 'r) dedup_state =
  d_by_key :: "('k \<times> 'r) list"
  d_dup_skip :: nat
  d_quarantine_count :: nat
  d_records :: "('k, 'r) quarantine_record list"
  d_limiter :: "('k, 'r) quarantine_record limiter"

definition dedup_init :: "(nat \<Rightarrow> seconds) \<Rightarrow> ('k, 'r) dedup_state" where
  "dedup_init clk =
     \<lparr>d_by_key = [], d_dup_skip = 0, d_quarantine_count = 0, d_records = [],
      d_limiter = limiter_init QUARANTINE_RATE_LIMIT_PER_SEC (clk 0)\<rparr>"

definition raw_mismatch :: "string option \<Rightarrow> string option \<Rightarrow> bool" where
  "raw_mismatch existing_raw new_raw \<longleftrightarrow>
     existing_raw \<noteq> None \<and> new_raw \<noteq> None \<and> existing_raw \<noteq> new_raw"

definition quarantine ::
  "(nat \<Rightarrow> seconds) \<Rightarrow> string \<Rightarrow> timestamp \<Rightarrow> 'k \<Rightarrow> 'r list \<Rightarrow> ('k, 'r) dedup_state \<Rightarrow> ('k, 'r) dedup_state" where
  "quarantine clk tier detected_at key rows s =
     (let qr = \<lparr>q_reason = ''ACTIVE_ACTIVE_MISMATCH'', q_tier = tier, q_logical_key = key,
                q_rows = rows, q_detected_at = detected_at\<rparr>;
          n = Suc (d_quarantine_count s);
          (batch, l) = admit (clk n) qr (d_limiter s)
      in s\<lparr>d_quarantine_count := n, d_limiter := l,
           d_records := d_records s @ (case batch of None \<Rightarrow> [] | Some b \<Rightarrow> b)\<rparr>)"

definition dedup_step ::
  "('r \<Rightarrow> 'k) \<Rightarrow> ('r \<Rightarrow> string option) \<Rightarrow> ('r \<Rightarrow> string option) \<Rightarrow> string \<Rightarrow> (nat \<Rightarrow> seconds) \<Rightarrow> timestamp
     \<Rightarrow> 'r \<Rightarrow> ('k, 'r) dedup_state \<Rightarrow> ('k, 'r) dedup_state" where
  "dedup_step logical_key raw_json node_id tier clk detected_at row s =
     (let key = logical_key row in
      case map_of (d_by_key s) key of
        None \<Rightarrow> s\<lparr>d_by_key := AList.update key row (d_by_key s)\<rparr>
      | Some existing \<Rightarrow>
          if raw_mismatch (raw_json existing) (raw_json row)
          then let s1 = quarantine clk tier detected_at key [existing, row] s in
               if node_priority (node_id row) < node_priority (node_id existing)
               then s1\<lparr>d_by_key := AList.update key row (d_by_key s1)\<rparr> else s1
          else s\<lparr>d_dup_skip := Suc (d_dup_skip s)\<rparr>)"

definition dedup_finish ::
  "('r \<Rightarrow> timestamp) \<Rightarrow> sink \<Rightarrow> ('k, 'r) dedup_state \<Rightarrow> ('k, 'r) dedup_result \<times> sink" where
  "dedup_finish ts_utc sink s =
     (\<lparr>emitted = sort_key ts_utc (map snd (d_by_key s)), dup_skip_count = d_dup_skip s,
       quarantine_count = d_quarantine_count s,
       quarantine_records = d_records s @ fst (limiter_flush (d_limiter s))\<rparr>,
      sink_add (d_dup_skip s) (d_quarantine_count s) sink)"

definition pass_through :: "('r \<Rightarrow> timestamp) \<Rightarrow> 'r list \<Rightarrow> sink \<Rightarrow> ('k, 'r) dedup_result \<times> sink" where
  "pass_through ts_utc rows sink =
     (\<lparr>emitted = sort_key ts_utc rows, dup_skip_count = 0, quarantine_count = 0,
       quarantine_records = []\<rparr>, sink)"

definition deduplicate_ticks ::
  "(nat \<Rightarrow> seconds) \<Rightarrow> timestamp \<Rightarrow> tick list \<Rightarrow> bool \<Rightarrow> sink \<Rightarrow> (tick_body, tick) dedup_result \<times> sink" where
  "deduplicate_ticks clk detected_at rows multi_node sink =
     (if \<not> multi_node then pass_through t_ts_utc rows sink
      else dedup_finish t_ts_utc sink
             (fold (dedup_step tick_logical_key t_raw_json t_node_id ''tick'' clk detected_at) rows
               (dedup_init clk)))"

definition deduplicate_orderbook_events ::
  "(nat \<Rightarrow> seconds) \<Rightarrow> timestamp \<Rightarrow> ob_event list \<Rightarrow> bool \<Rightarrow> sink
     \<Rightarrow> (string \<times> string \<times> timestamp \<times> string \<times> string \<times> int \<times> rat \<times> rat, ob_event) dedup_result \<times> sink" where
  "deduplicate_orderbook_events clk detected_at rows multi_node sink =
     (if \<not> multi_node then pass_through o_ts_utc rows sink
      else dedup_finish o_ts_utc sink
             (fold (dedup_step orderbook_logical_key o_raw_json o_node_id ''orderbook'' clk detected_at) rows
               (dedup_init clk)))"

section \<open>T2, format 1.1\<close>

type_synonym full_key = "tick_body \<times> string option \<times> int option"

record v11_state =
  v_by_full_key :: "(full_key \<times> tick) list"
  v_by_body :: "(tick_body \<times> (full_key \<times> tick) list) list"
  v_core :: "(tick_body, tick) dedup_state"

text \<open>
  The counters, the records and the limiter live in \<open>v_core\<close>, whose own table stays empty.
  The inner loop over the earlier rows of a body stops at the first payload mismatch.
\<close>

definition payload_mismatch :: "tick \<Rightarrow> full_key \<times> tick \<Rightarrow> bool" where
  "payload_mismatch row prior \<longleftrightarrow>
     t_payload_hash row \<noteq> None \<and> fst (snd (fst prior)) \<noteq> None \<and>
     t_payload_hash row \<noteq> fst (snd (fst prior))"

definition v11_add :: "full_key \<Rightarrow> tick \<Rightarrow> (full_key \<times> tick) list \<Rightarrow> v11_state \<Rightarrow> v11_state" where
  "v11_add full_key row prior_rows s =
     s\<lparr>v_by_full_key := AList.update full_key row (v_by_full_key s),
       v_by_body := AList.update (fst full_key) (prior_rows @ [(full_key, row)]) (v_by_body s)\<rparr>"

definition v11_step :: "(nat \<Rightarrow> seconds) \<Rightarrow> timestamp \<Rightarrow> tick \<Rightarrow> v11_state \<Rightarrow> py_error + v11_state" where
  "v11_step clk detected_at row s =
     (let full_key = tick_v1_1_logical_key row; body = tick_logical_key row in
      if map_of (v_by_full_key s) full_key \<noteq> None
      then Inr (s\<lparr>v_core := (v_core s)\<lparr>d_dup_skip := Suc (d_dup_skip (v_core s))\<rparr>\<rparr>)
      else let prior_rows = (case map_of (v_by_body s) body of None \<Rightarrow> [] | Some ps \<Rightarrow> ps) in
           case find (payload_mismatch row) prior_rows of
             None \<Rightarrow> Inr (v11_add full_key row prior_rows s)
           | Some (prior_full, prior_row) \<Rightarrow>
               let s1 = s\<lparr>v_core := quarantine clk ''tick'' detected_at body [prior_row, row] (v_core s)\<rparr> in
               if node_priority (t_node_id row) < node_priority (t_node_id prior_row)
               then if map_of (v_by_full_key s1) prior_full = None then Inl KeyError
                    else Inr (s1\<lparr>v_by_full_key :=
                                   AList.update full_key row (AList.delete prior_full (v_by_full_key s1)),
                                 v_by_body := AList.update body [(full_key, row)] (v_by_body s1)\<rparr>)
               else Inr s1)"

fun v11_run :: "(nat \<Rightarrow> seconds) \<Rightarrow> timestamp \<Rightarrow> tick list \<Rightarrow> v11_state \<Rightarrow> py_error + v11_state" where
  "v11_run clk detected_at [] s = Inr s"
| "v11_run clk detected_at (r # rs) s =
     (case v11_step clk detected_at r s of Inl e \<Rightarrow> Inl e | Inr s1 \<Rightarrow> v11_run clk detected_at rs s1)"

definition deduplicate_ticks_v1_1 ::
  "(nat \<Rightarrow> seconds) \<Rightarrow> timestamp \<Rightarrow> tick list \<Rightarrow> bool \<Rightarrow> sink
     \<Rightarrow> py_error + ((tick_body, tick) dedup_result \<times> sink)" where
  "deduplicate_ticks_v1_1 clk detected_at rows multi_node sink =
     (if \<not> multi_node then Inr (pass_through t_ts_utc rows sink)
      else case v11_run clk detected_at rows
                  \<lparr>v_by_full_key = [], v_by_body = [], v_core = dedup_init clk\<rparr> of
             Inl e \<Rightarrow> Inl e
           | Inr s \<Rightarrow> Inr (dedup_finish t_ts_utc sink ((v_core s)\<lparr>d_by_key := map (\<lambda>(k, r). (fst k, r)) (v_by_full_key s)\<rparr>)))"

section \<open>A table with one row per key\<close>

text \<open>
  What the loops do to their table: the first row of a key is entered, a later one replaces it
  if \<open>repl new old\<close>.
\<close>

definition upsert :: "('r \<Rightarrow> 'k) \<Rightarrow> ('r \<Rightarrow> 'r \<Rightarrow> bool) \<Rightarrow> 'r \<Rightarrow> ('k \<times> 'r) list \<Rightarrow> ('k \<times> 'r) list" where
  "upsert key repl r m =
     (case map_of m (key r) of
        None \<Rightarrow> AList.update (key r) r m
      | Some e \<Rightarrow> if repl r e then AList.update (key r) r m else m)"

definition resolve :: "('r \<Rightarrow> 'r \<Rightarrow> bool) \<Rightarrow> 'r list \<Rightarrow> 'r option \<Rightarrow> 'r option" where
  "resolve repl rs old =
     fold (\<lambda>r a. case a of None \<Rightarrow> Some r | Some e \<Rightarrow> Some (if repl r e then r else e)) rs old"

lemma distinct_upsert: "distinct (map fst m) \<Longrightarrow> distinct (map fst (upsert key repl r m))"
  by (auto simp: upsert_def distinct_update split: option.splits)

lemma map_of_upsert:
  "map_of (upsert key repl r m) k = (if key r = k then resolve repl [r] (map_of m k) else map_of m k)"
  by (auto simp: upsert_def resolve_def map_of_update_Some split: option.splits)

lemma length_upsert:
  "length (upsert key repl r m) = length m + (if map_of m (key r) = None then 1 else 0)"
  by (auto simp: upsert_def length_update split: option.splits)

lemma distinct_upserts: "distinct (map fst m) \<Longrightarrow> distinct (map fst (fold (upsert key repl) rs m))"
  by (induction rs arbitrary: m) (auto simp: distinct_upsert)

lemma map_of_upserts:
  "map_of (fold (upsert key repl) rs m) k = resolve repl (filter (\<lambda>r. key r = k) rs) (map_of m k)"
  by (induction rs arbitrary: m) (auto simp: map_of_upsert resolve_def)

lemma resolve_snoc:
  "resolve repl (rs @ [r]) a =
     (case resolve repl rs a of None \<Rightarrow> Some r | Some e \<Rightarrow> Some (if repl r e then r else e))"
  by (simp add: resolve_def)

lemma resolve_None: "resolve repl rs None = None \<longleftrightarrow> rs = []"
  by (induction rs rule: rev_induct) (auto simp: resolve_snoc resolve_def split: option.splits)

lemma resolve_in: "resolve repl rs None = Some x \<Longrightarrow> x \<in> set rs"
  by (induction rs arbitrary: x rule: rev_induct)
    (auto simp: resolve_snoc resolve_def split: option.splits if_splits)

lemma upserts_lookup:
  assumes "map_of (fold (upsert key repl) rs []) k = Some r"
  shows "r \<in> set rs \<and> key r = k"
  using assms resolve_in [of repl "filter (\<lambda>r. key r = k) rs" r] by (auto simp: map_of_upserts)

lemma upserts_None: "map_of (fold (upsert key repl) rs []) k = None \<longleftrightarrow> k \<notin> key ` set rs"
  by (auto simp: map_of_upserts resolve_None filter_empty_conv)

lemma upserts_member:
  "(k, r) \<in> set (fold (upsert key repl) rs []) \<Longrightarrow> map_of (fold (upsert key repl) rs []) k = Some r"
  by (rule map_of_is_SomeI) (simp_all add: distinct_upserts)

lemma upserts_keys:
  "(k, r) \<in> set (fold (upsert key repl) rs []) \<Longrightarrow> r \<in> set rs \<and> key r = k"
  by (rule upserts_lookup, rule upserts_member)

lemma map_key_upserts: "map key (map snd (fold (upsert key repl) rs [])) = map fst (fold (upsert key repl) rs [])"
  using upserts_keys [of _ _ key repl rs] by auto

lemma set_fst_upserts: "fst ` set (fold (upsert key repl) rs []) = key ` set rs"
proof -
  have "fst ` set (fold (upsert key repl) rs []) = {k. \<not> (map_of (fold (upsert key repl) rs []) k = None)}"
    by (simp only: dom_map_of_conv_image_fst [symmetric] dom_def)
  also have "\<dots> = key ` set rs" by (simp only: upserts_None not_not Collect_mem_eq)
  finally show ?thesis .
qed

text \<open>If \<open>repl\<close> compares ranks, the surviving row has the best one.\<close>

lemma resolve_best:
  assumes "\<And>x y z. \<not> repl x y \<Longrightarrow> \<not> repl y z \<Longrightarrow> \<not> repl x z" "\<And>x y. repl x y \<Longrightarrow> \<not> repl y x"
    and "resolve repl rs None = Some x" "y \<in> set rs"
  shows "\<not> repl y x"
  using assms(3,4)
proof (induction rs arbitrary: x y rule: rev_induct)
  case Nil
  then show ?case by simp
next
  case (snoc r rs)
  show ?case
  proof (cases "resolve repl rs None")
    case None
    with snoc.prems have "x = r" "y = r" by (auto simp: resolve_snoc resolve_None)
    then show ?thesis using assms(2) [of r r] by blast
  next
    case (Some e)
    with snoc.prems have x: "x = (if repl r e then r else e)" by (simp add: resolve_snoc)
    consider "y = r" | "y \<in> set rs" using snoc.prems(2) by auto
    then show ?thesis
    proof cases
      case 1
      then show ?thesis using x assms(2) [of r r] by (auto split: if_splits)
    next
      case 2
      from snoc.IH [OF Some this] x assms(1) [of y e r] assms(2) [of r e] show ?thesis
        by (auto split: if_splits)
    qed
  qed
qed

section \<open>The contract of a deduplicating scan\<close>

locale keyed_dedup =
  fixes key :: "'r \<Rightarrow> 'k" and ts :: "'r \<Rightarrow> timestamp" and dd :: "'r list \<Rightarrow> 'r list"
  assumes dd_subset: "set (dd rs) \<subseteq> set rs"
    and dd_keys: "key ` set (dd rs) = key ` set rs"
    and dd_distinct: "distinct (map key (dd rs))"
    and dd_sorted: "sorted (map ts (dd rs))"
begin

lemma dd_length: "length (dd rs) = card (key ` set rs)"
  by (metis dd_distinct dd_keys distinct_card length_map set_map)

lemma dd_unique: "distinct (map key rs) \<Longrightarrow> mset (dd rs) = mset rs"
proof -
  assume d: "distinct (map key rs)"
  have "x \<in> set (dd rs)" if x: "x \<in> set rs" for x
  proof -
    obtain y where y: "y \<in> set (dd rs)" "key y = key x" using dd_keys x by (metis imageE imageI)
    then have "y = x" using d x dd_subset by (auto simp: distinct_map dest: inj_onD)
    with y show ?thesis by simp
  qed
  then have "set (dd rs) = set rs" using dd_subset by blast
  moreover have "distinct (dd rs)" "distinct rs" using dd_distinct d by (auto simp: distinct_map)
  ultimately show ?thesis by (simp add: set_eq_iff_mset_eq_distinct)
qed

lemma dd_idem: "mset (dd (dd rs)) = mset (dd rs)"
  using dd_unique dd_distinct by blast

text \<open>Scanning window by window and then over the results finds the same keys as one scan.\<close>

lemma dd_windows: "key ` set (dd (concat (map dd ws))) = key ` set (dd (concat ws))"
proof -
  have "key ` set (concat (map dd ws)) = key ` set (concat ws)"
    using dd_keys by (induction ws) (auto simp: image_Un)
  then show ?thesis by (simp add: dd_keys)
qed

end

section \<open>Candles\<close>

lemma candle_step_upsert:
  "candle_step r (m, n) =
     (upsert candle_logical_key candle_wins r m,
      n + (if map_of m (candle_logical_key r) = None then 0 else 1))"
  by (auto simp: candle_step_def upsert_def Let_def split: option.splits)

lemma candle_fold:
  "fold candle_step rows (m, n) = (fold (upsert candle_logical_key candle_wins) rows m, n') \<Longrightarrow>
   length (fold (upsert candle_logical_key candle_wins) rows m) + n' = length m + n + length rows"
proof (induction rows arbitrary: m n)
  case (Cons r rows)
  let ?m = "upsert candle_logical_key candle_wins r m"
  let ?n = "n + (if map_of m (candle_logical_key r) = None then 0 else 1)"
  have "fold candle_step rows (?m, ?n) = (fold (upsert candle_logical_key candle_wins) rows ?m, n')"
    using Cons.prems by (simp add: candle_step_upsert)
  from Cons.IH [OF this] show ?case by (auto simp: length_upsert split: if_splits)
qed simp

lemma candle_fold_fst:
  "fst (fold candle_step rows (m, n)) = fold (upsert candle_logical_key candle_wins) rows m"
  by (induction rows arbitrary: m n) (simp_all add: candle_step_upsert)

definition candle_table :: "candle list \<Rightarrow> ((string \<times> string \<times> string \<times> timestamp) \<times> candle) list" where
  "candle_table rows = fold (upsert candle_logical_key candle_wins) rows []"

lemma deduplicate_candles_multi:
  "emitted (fst (deduplicate_candles rows True s)) = sort_key c_ts_utc (map snd (candle_table rows))"
  "length (candle_table rows) + dup_skip_count (fst (deduplicate_candles rows True s)) = length rows"
proof -
  obtain n where n: "fold candle_step rows ([], 0) = (candle_table rows, n)"
    using candle_fold_fst [of rows "[]" 0] by (metis candle_table_def prod.collapse)
  then show "emitted (fst (deduplicate_candles rows True s)) = sort_key c_ts_utc (map snd (candle_table rows))"
    by (simp add: deduplicate_candles_def)
  show "length (candle_table rows) + dup_skip_count (fst (deduplicate_candles rows True s)) = length rows"
    using candle_fold [of rows "[]" 0 n] n by (simp add: deduplicate_candles_def candle_table_def)
qed

lemma distinct_key_table: "distinct (map key (map snd (fold (upsert key repl) rs [])))"
  by (simp only: map_key_upserts) (simp add: distinct_upserts)

lemma distinct_map_sort_key: "distinct (map f xs) \<Longrightarrow> distinct (map f (sort_key g xs))"
  by (metis distinct_map distinct_sort set_sort)

lemma set_snd_upserts: "snd ` set (fold (upsert key repl) rs []) \<subseteq> set rs"
  using upserts_keys [of _ _ key repl rs] by auto

lemma key_image_upserts: "key ` snd ` set (fold (upsert key repl) rs []) = key ` set rs"
  using arg_cong [OF map_key_upserts [of key repl rs], of set] set_fst_upserts [of key repl rs]
  by (simp add: image_image)

lemmas table_facts = distinct_key_table set_snd_upserts key_image_upserts

interpretation candles: keyed_dedup candle_logical_key c_ts_utc
  "\<lambda>rows. emitted (fst (deduplicate_candles rows True None))"
  using table_facts [of candle_logical_key candle_wins]
  by unfold_locales
    (simp_all add: deduplicate_candles_multi candle_table_def distinct_map_sort_key del: map_map)

lemma candle_wins_order:
  "\<not> candle_wins x y \<Longrightarrow> \<not> candle_wins y z \<Longrightarrow> \<not> candle_wins x z"
  "candle_wins x y \<Longrightarrow> \<not> candle_wins y x"
  by (auto simp: candle_wins_def split: if_splits)

section \<open>Ticks and order-book events\<close>

lemma admit_conserves:
  "admit now q l = (b, l') \<Longrightarrow>
   mset (case b of None \<Rightarrow> [] | Some x \<Rightarrow> x) + mset (l_batch l') = add_mset q (mset (l_batch l))"
  by (auto simp: admit_def Let_def split: if_splits)

text \<open>All conflict records so far, delivered or waiting in the limiter.\<close>

definition pending :: "('k, 'r) dedup_state \<Rightarrow> ('k, 'r) quarantine_record multiset" where
  "pending s = mset (d_records s) + mset (l_batch (d_limiter s))"

definition conflict_record :: "string \<Rightarrow> timestamp \<Rightarrow> 'k \<Rightarrow> 'r list \<Rightarrow> ('k, 'r) quarantine_record" where
  "conflict_record tier d k rs =
     \<lparr>q_reason = ''ACTIVE_ACTIVE_MISMATCH'', q_tier = tier, q_logical_key = k, q_rows = rs, q_detected_at = d\<rparr>"

lemma quarantine_effect [simp]:
  "d_by_key (quarantine clk tier d k rs s) = d_by_key s"
  "d_dup_skip (quarantine clk tier d k rs s) = d_dup_skip s"
  "d_quarantine_count (quarantine clk tier d k rs s) = Suc (d_quarantine_count s)"
  "pending (quarantine clk tier d k rs s) = add_mset (conflict_record tier d k rs) (pending s)"
proof -
  obtain b l where a: "admit (clk (Suc (d_quarantine_count s))) (conflict_record tier d k rs) (d_limiter s) = (b, l)"
    by fastforce
  from admit_conserves [OF a]
  show "pending (quarantine clk tier d k rs s) = add_mset (conflict_record tier d k rs) (pending s)"
    using a by (simp add: quarantine_def pending_def conflict_record_def Let_def ac_simps)
qed (simp_all add: quarantine_def Let_def split: prod.splits)

lemma pending_simps [simp]:
  "pending (s\<lparr>d_by_key := m\<rparr>) = pending s" "pending (s\<lparr>d_dup_skip := n\<rparr>) = pending s"
  "pending (dedup_init clk) = {#}"
  by (simp_all add: pending_def dedup_init_def limiter_init_def)

lemma dedup_finish_simps [simp]:
  "mset (quarantine_records (fst (dedup_finish ts sink s))) = pending s"
  "emitted (fst (dedup_finish ts sink s)) = sort_key ts (map snd (d_by_key s))"
  "dup_skip_count (fst (dedup_finish ts sink s)) = d_dup_skip s"
  "quarantine_count (fst (dedup_finish ts sink s)) = d_quarantine_count s"
  by (auto simp: dedup_finish_def pending_def limiter_flush_def)

definition tick_repl :: "('r \<Rightarrow> string option) \<Rightarrow> ('r \<Rightarrow> string option) \<Rightarrow> 'r \<Rightarrow> 'r \<Rightarrow> bool" where
  "tick_repl raw node new old \<longleftrightarrow>
     raw_mismatch (raw old) (raw new) \<and> node_priority (node new) < node_priority (node old)"

abbreviation dedup_run ::
  "('r \<Rightarrow> 'k) \<Rightarrow> ('r \<Rightarrow> string option) \<Rightarrow> ('r \<Rightarrow> string option) \<Rightarrow> string \<Rightarrow> (nat \<Rightarrow> seconds) \<Rightarrow> timestamp
     \<Rightarrow> 'r list \<Rightarrow> ('k, 'r) dedup_state" where
  "dedup_run key raw node tier clk d rows \<equiv> fold (dedup_step key raw node tier clk d) rows (dedup_init clk)"

lemma dedup_step_table:
  "d_by_key (dedup_step key raw node tier clk d r s) = upsert key (tick_repl raw node) r (d_by_key s)"
  by (auto simp: dedup_step_def upsert_def tick_repl_def Let_def split: option.splits)

lemma dedup_run_table:
  "d_by_key (dedup_run key raw node tier clk d rows) = fold (upsert key (tick_repl raw node)) rows []"
  by (induction rows rule: rev_induct) (simp_all add: dedup_step_table, simp add: dedup_init_def)

lemma dedup_step_count:
  "length (d_by_key (dedup_step key raw node tier clk d r s))
     + d_dup_skip (dedup_step key raw node tier clk d r s)
     + d_quarantine_count (dedup_step key raw node tier clk d r s)
   = Suc (length (d_by_key s) + d_dup_skip s + d_quarantine_count s)"
  by (auto simp: dedup_step_table length_upsert) (auto simp: dedup_step_def Let_def split: option.splits)

lemma dedup_run_count:
  "length (d_by_key (dedup_run key raw node tier clk d rows)) + d_dup_skip (dedup_run key raw node tier clk d rows)
     + d_quarantine_count (dedup_run key raw node tier clk d rows) = length rows"
  by (induction rows rule: rev_induct) (simp_all add: dedup_step_count, simp add: dedup_init_def)

lemma dedup_step_pending:
  "pending (dedup_step key raw node tier clk d r s) =
     (case map_of (d_by_key s) (key r) of
        None \<Rightarrow> pending s
      | Some e \<Rightarrow> (if raw_mismatch (raw e) (raw r)
                   then add_mset (conflict_record tier d (key r) [e, r]) (pending s) else pending s))"
  by (auto simp: dedup_step_def Let_def split: option.splits)

lemma dedup_step_quarantine_count:
  "d_quarantine_count (dedup_step key raw node tier clk d r s) + size (pending s) =
     d_quarantine_count s + size (pending (dedup_step key raw node tier clk d r s))"
  by (auto simp: dedup_step_def Let_def split: option.splits)

lemma dedup_run_pending_size:
  "size (pending (dedup_run key raw node tier clk d rows)) =
     d_quarantine_count (dedup_run key raw node tier clk d rows)"
proof (induction rows rule: rev_induct)
  case Nil
  then show ?case by (simp add: dedup_init_def [of clk] pending_def limiter_init_def)
next
  case (snoc r rows)
  then show ?case
    using dedup_step_quarantine_count [of key raw node tier clk d r "dedup_run key raw node tier clk d rows"]
    by simp
qed

text \<open>A record is well founded: two rows of its key with different payloads.\<close>

definition sound_record :: "('r \<Rightarrow> 'k) \<Rightarrow> ('r \<Rightarrow> string option) \<Rightarrow> 'r list \<Rightarrow> ('k, 'r) quarantine_record \<Rightarrow> bool" where
  "sound_record key raw rows q \<longleftrightarrow>
     (case q_rows q of
        [a, b] \<Rightarrow> a \<in> set rows \<and> b \<in> set rows \<and> key a = q_logical_key q \<and> key b = q_logical_key q
                  \<and> raw_mismatch (raw a) (raw b)
      | _ \<Rightarrow> False)"

lemma sound_record_mono: "sound_record key raw rows q \<Longrightarrow> set rows \<subseteq> set rows' \<Longrightarrow> sound_record key raw rows' q"
  by (auto simp: sound_record_def split: list.splits)

lemma dedup_run_sound:
  "q \<in># pending (dedup_run key raw node tier clk d rows) \<Longrightarrow> sound_record key raw rows q"
proof (induction rows rule: rev_induct)
  case Nil
  then show ?case by simp
next
  case (snoc r rows)
  let ?s = "dedup_run key raw node tier clk d rows"
  show ?case
  proof (cases "q \<in># pending ?s")
    case True
    show ?thesis by (rule sound_record_mono [OF snoc.IH [OF True]]) auto
  next
    case False
    with snoc.prems obtain e where e: "map_of (d_by_key ?s) (key r) = Some e" "raw_mismatch (raw e) (raw r)"
      "q = conflict_record tier d (key r) [e, r]"
      by (auto simp: dedup_step_pending split: option.splits if_splits)
    have "e \<in> set rows \<and> key e = key r" using e(1) unfolding dedup_run_table by (rule upserts_lookup)
    with e show ?thesis by (simp add: sound_record_def conflict_record_def)
  qed
qed

text \<open>Nothing is missed as long as every row carries its payload.\<close>

lemma dedup_run_complete:
  assumes "\<forall>r\<in>set rows. raw r \<noteq> None" "a \<in> set rows" "b \<in> set rows" "key a = key b" "raw a \<noteq> raw b"
  shows "\<exists>q. q \<in># pending (dedup_run key raw node tier clk d rows) \<and> q_logical_key q = key a"
  using assms
proof (induction rows arbitrary: a b rule: rev_induct)
  case Nil
  then show ?case by simp
next
  case (snoc r rows)
  let ?s = "dedup_run key raw node tier clk d rows"
  let ?s' = "dedup_run key raw node tier clk d (rows @ [r])"
  have mono: "q \<in># pending ?s'" if "q \<in># pending ?s" for q
    using that by (auto simp: dedup_step_pending split: option.splits)
  have old: "\<exists>q. q \<in># pending ?s' \<and> q_logical_key q = key x"
    if "x \<in> set rows" "y \<in> set rows" "key x = key y" "raw x \<noteq> raw y" for x y
    using snoc.IH [of x y] snoc.prems(1) that mono by auto
  have new: "\<exists>q. q \<in># pending ?s' \<and> q_logical_key q = key r"
    if x: "x \<in> set rows" "key x = key r" "raw x \<noteq> raw r" for x
  proof -
    have "key r \<in> key ` set rows" using x by (metis imageI)
    then have "map_of (d_by_key ?s) (key r) \<noteq> None" unfolding dedup_run_table by (simp only: upserts_None not_not)
    then obtain e where e: "map_of (d_by_key ?s) (key r) = Some e" by blast
    have e': "e \<in> set rows" "key e = key r"
      using upserts_lookup [of key "tick_repl raw node" rows "key r" e] e unfolding dedup_run_table by blast+
    show ?thesis
    proof (cases "raw e = raw r")
      case True
      then show ?thesis using old [of x e] x e' by auto
    next
      case False
      then have "raw_mismatch (raw e) (raw r)" using snoc.prems(1) e'(1) by (auto simp: raw_mismatch_def)
      then show ?thesis using e by (auto simp: dedup_step_pending conflict_record_def)
    qed
  qed
  from snoc.prems consider "a \<in> set rows" "b \<in> set rows" | "a = r" "b \<in> set rows" | "b = r" "a \<in> set rows" | "a = r" "b = r"
    by auto
  then show ?case
  proof cases
    case 1
    then show ?thesis using old snoc.prems(4,5) by blast
  next
    case 2
    then show ?thesis using new [of b] snoc.prems(4,5) by auto
  next
    case 3
    then show ?thesis using new [of a] snoc.prems(4,5) by auto
  next
    case 4
    then show ?thesis using snoc.prems(5) by simp
  qed
qed

lemma deduplicate_ticks_multi:
  "fst (deduplicate_ticks clk d rows True sink) =
     fst (dedup_finish t_ts_utc sink (dedup_run tick_logical_key t_raw_json t_node_id ''tick'' clk d rows))"
  by (simp add: deduplicate_ticks_def)

lemma deduplicate_orderbook_multi:
  "fst (deduplicate_orderbook_events clk d rows True sink) =
     fst (dedup_finish o_ts_utc sink
            (dedup_run orderbook_logical_key o_raw_json o_node_id ''orderbook'' clk d rows))"
  by (simp add: deduplicate_orderbook_events_def)

interpretation ticks: keyed_dedup tick_logical_key t_ts_utc
  "\<lambda>rows. emitted (fst (deduplicate_ticks clk d rows True None))" for clk d
  using table_facts [of tick_logical_key "tick_repl t_raw_json t_node_id"]
  by unfold_locales
    (simp_all add: deduplicate_ticks_multi dedup_run_table distinct_map_sort_key del: map_map)

interpretation orderbook: keyed_dedup orderbook_logical_key o_ts_utc
  "\<lambda>rows. emitted (fst (deduplicate_orderbook_events clk d rows True None))" for clk d
  using table_facts [of orderbook_logical_key "tick_repl o_raw_json o_node_id"]
  by unfold_locales
    (simp_all add: deduplicate_orderbook_multi dedup_run_table distinct_map_sort_key del: map_map)

section \<open>Format 1.1\<close>

text \<open>
  Every earlier row of a body is still in the table under its full key, so deleting it never
  fails; each row is entered, skipped or recorded.
\<close>

definition bodies_ok :: "(full_key \<times> tick) list \<Rightarrow> (tick_body \<times> (full_key \<times> tick) list) list \<Rightarrow> bool" where
  "bodies_ok m bm \<longleftrightarrow>
     (\<forall>b ps k r. map_of bm b = Some ps \<longrightarrow> (k, r) \<in> set ps \<longrightarrow> fst k = b \<and> map_of m k = Some r)"

lemma bodies_okD: "bodies_ok m bm \<Longrightarrow> map_of bm b = Some ps \<Longrightarrow> (k, r) \<in> set ps \<Longrightarrow> fst k = b \<and> map_of m k = Some r"
  unfolding bodies_ok_def by blast

lemma bodies_okI:
  "(\<And>b ps k r. map_of bm b = Some ps \<Longrightarrow> (k, r) \<in> set ps \<Longrightarrow> fst k = b \<and> map_of m k = Some r) \<Longrightarrow> bodies_ok m bm"
  unfolding bodies_ok_def by blast

definition v11_inv :: "nat \<Rightarrow> v11_state \<Rightarrow> bool" where
  "v11_inv n s \<longleftrightarrow>
     distinct (map fst (v_by_full_key s)) \<and> bodies_ok (v_by_full_key s) (v_by_body s) \<and>
     length (v_by_full_key s) + d_dup_skip (v_core s) + d_quarantine_count (v_core s) = n \<and>
     size (pending (v_core s)) = d_quarantine_count (v_core s)"

lemma full_key_body [simp]: "fst (tick_v1_1_logical_key r) = tick_logical_key r"
  by (simp add: tick_v1_1_logical_key_def tick_logical_key_def)

lemma length_delete:
  "distinct (map fst m) \<Longrightarrow> map_of m k \<noteq> None \<Longrightarrow> Suc (length (AList.delete k m)) = length m"
proof (induction m)
  case (Cons a m)
  show ?case
  proof (cases "fst a = k")
    case True
    then have "k \<notin> fst ` set m" using Cons.prems(1) by auto
    then have "AList.delete k m = m" by (simp add: delete_id)
    with True show ?thesis by (cases a) (simp add: AList.delete_eq)
  next
    case False
    with Cons show ?thesis by (cases a) (auto simp: AList.delete_eq)
  qed
qed simp

lemma v11_priors:
  assumes "v11_inv n s" "(k, r) \<in> set (case map_of (v_by_body s) b of None \<Rightarrow> [] | Some ps \<Rightarrow> ps)"
  shows "fst k = b" "map_of (v_by_full_key s) k = Some r"
proof -
  obtain ps where "map_of (v_by_body s) b = Some ps" "(k, r) \<in> set ps"
    using assms(2) by (cases "map_of (v_by_body s) b") auto
  moreover have "bodies_ok (v_by_full_key s) (v_by_body s)" using assms(1) by (simp add: v11_inv_def)
  ultimately show "fst k = b" "map_of (v_by_full_key s) k = Some r" using bodies_okD by blast+
qed

lemma bodies_ok_add:
  assumes "bodies_ok m bm" "map_of m fk = None"
    and "\<And>k r. (k, r) \<in> set ps \<Longrightarrow> fst k = fst fk \<and> map_of m k = Some r"
  shows "bodies_ok (AList.update fk row m) (AList.update (fst fk) (ps @ [(fk, row)]) bm)"
proof (rule bodies_okI)
  fix b qs k r
  assume b: "map_of (AList.update (fst fk) (ps @ [(fk, row)]) bm) b = Some qs" "(k, r) \<in> set qs"
  show "fst k = b \<and> map_of (AList.update fk row m) k = Some r"
  proof (cases "b = fst fk")
    case True
    with b have "(k, r) \<in> set ps \<or> (k = fk \<and> r = row)" by (auto simp: map_of_update_Some)
    with True assms(2) assms(3) [of k r] show ?thesis by (auto simp: map_of_update_Some)
  next
    case False
    with b have "map_of bm b = Some qs" by (simp add: map_of_update_Some)
    from bodies_okD [OF assms(1) this b(2)] False show ?thesis by (auto simp: map_of_update_Some)
  qed
qed

lemma bodies_ok_replace:
  assumes "bodies_ok m bm" "map_of m fk = None" "fst pk = fst fk"
  shows "bodies_ok (AList.update fk row (AList.delete pk m)) (AList.update (fst fk) [(fk, row)] bm)"
proof (rule bodies_okI)
  fix b qs k r
  assume b: "map_of (AList.update (fst fk) [(fk, row)] bm) b = Some qs" "(k, r) \<in> set qs"
  show "fst k = b \<and> map_of (AList.update fk row (AList.delete pk m)) k = Some r"
  proof (cases "b = fst fk")
    case True
    with b show ?thesis by (auto simp: map_of_update_Some)
  next
    case False
    with b have "map_of bm b = Some qs" by (simp add: map_of_update_Some)
    from bodies_okD [OF assms(1) this b(2)] False assms(3) show ?thesis
      by (auto simp: map_of_update_Some delete_conv')
  qed
qed

lemma v11_add_inv:
  assumes "v11_inv n s" "map_of (v_by_full_key s) (tick_v1_1_logical_key row) = None"
    and "prior = (case map_of (v_by_body s) (tick_logical_key row) of None \<Rightarrow> [] | Some ps \<Rightarrow> ps)"
  shows "v11_inv (Suc n) (v11_add (tick_v1_1_logical_key row) row prior s)"
proof -
  have "bodies_ok (AList.update (tick_v1_1_logical_key row) row (v_by_full_key s))
      (AList.update (fst (tick_v1_1_logical_key row)) (prior @ [(tick_v1_1_logical_key row, row)]) (v_by_body s))"
    using assms(1,2) v11_priors [OF assms(1)]
    by (intro bodies_ok_add) (simp_all add: v11_inv_def assms(3))
  then show ?thesis using assms(1,2) by (simp add: v11_inv_def v11_add_def distinct_update length_update)
qed

lemma v11_step_inv:
  assumes "v11_inv n s"
  shows "\<exists>s'. v11_step clk d row s = Inr s' \<and> v11_inv (Suc n) s'"
proof -
  let ?fk = "tick_v1_1_logical_key row" and ?b = "tick_logical_key row"
  let ?prior = "case map_of (v_by_body s) ?b of None \<Rightarrow> [] | Some ps \<Rightarrow> ps"
  show ?thesis
  proof (cases "map_of (v_by_full_key s) ?fk")
    case (Some r)
    with assms show ?thesis by (auto simp: v11_step_def v11_inv_def Let_def)
  next
    case None
    show ?thesis
    proof (cases "find (payload_mismatch row) ?prior")
      case None
      with \<open>map_of (v_by_full_key s) ?fk = None\<close> v11_add_inv [OF assms \<open>map_of (v_by_full_key s) ?fk = None\<close> refl]
      show ?thesis by (auto simp: v11_step_def Let_def)
    next
      case (Some p)
      obtain pk pr where p: "p = (pk, pr)" by fastforce
      with Some have "(pk, pr) \<in> set ?prior" by (metis find_Some_iff nth_mem)
      note m = v11_priors [OF assms this]
      have new: "pk \<noteq> ?fk" using m(2) None by auto
      have bodies: "bodies_ok (AList.update ?fk row (AList.delete pk (v_by_full_key s)))
          (AList.update ?b [(?fk, row)] (v_by_body s))"
        using bodies_ok_replace [of "v_by_full_key s" "v_by_body s" ?fk pk row] assms None m(1)
        by (simp add: v11_inv_def)
      have len: "Suc (length (AList.delete pk (v_by_full_key s))) = length (v_by_full_key s)"
        using assms m(2) by (intro length_delete) (simp_all add: v11_inv_def)
      have "v11_inv (Suc n) (s\<lparr>v_core := quarantine clk ''tick'' d ?b [pr, row] (v_core s)\<rparr>)"
        using assms by (auto simp: v11_inv_def)
      moreover have "v11_inv (Suc n) (s\<lparr>v_core := quarantine clk ''tick'' d ?b [pr, row] (v_core s),
          v_by_full_key := AList.update ?fk row (AList.delete pk (v_by_full_key s)),
          v_by_body := AList.update ?b [(?fk, row)] (v_by_body s)\<rparr>)"
        using assms None new len bodies
        by (simp add: v11_inv_def distinct_update distinct_delete length_update delete_conv')
      ultimately show ?thesis using None Some p m(2) by (simp add: v11_step_def Let_def)
    qed
  qed
qed

lemma v11_run_inv:
  "v11_inv n s \<Longrightarrow> \<exists>s'. v11_run clk d rows s = Inr s' \<and> v11_inv (n + length rows) s'"
proof (induction rows arbitrary: n s)
  case (Cons r rows)
  obtain s1 where s1: "v11_step clk d r s = Inr s1" "v11_inv (Suc n) s1" using v11_step_inv [OF Cons.prems] by blast
  from Cons.IH [OF s1(2)] s1(1) show ?case by simp
qed simp

section \<open>Properties\<close>

text \<open>Rows for the examples.\<close>

definition example_candle :: "timestamp \<Rightarrow> string \<Rightarrow> candle" where
  "example_candle t node =
     \<lparr>c_exchange = ''upbit'', c_symbol = ''KRW-BTC'', c_timeframe = ''1m'', c_ts_utc = 0,
      c_open = Dec 1 0, c_high = Dec 1 0, c_low = Dec 1 0, c_close = Dec 1 0, c_volume = Dec 1 0,
      c_received_at = Some t, c_node_id = Some node\<rparr>"

definition example_tick :: "string \<Rightarrow> string \<Rightarrow> string \<Rightarrow> int \<Rightarrow> tick" where
  "example_tick raw node payload seq =
     \<lparr>t_exchange = ''upbit'', t_symbol = ''KRW-BTC'', t_ts_utc = 0, t_price = Dec 1 0, t_quantity = Dec 1 0,
      t_side = ''buy'', t_raw_json = Some raw, t_node_id = Some node, t_payload_hash = Some payload,
      t_ingest_seq = Some seq\<rparr>"

definition example_event :: "string \<Rightarrow> string \<Rightarrow> ob_event" where
  "example_event raw node =
     \<lparr>o_exchange = ''upbit'', o_symbol = ''KRW-BTC'', o_ts_utc = 0, o_event_type = ''delta'', o_side = ''bid'',
      o_level = 1, o_price = Dec 1 0, o_quantity = Dec 1 0, o_raw_json = Some raw, o_node_id = Some node\<rparr>"

text \<open>
  C6. Candle deduplication over several nodes: the result is ordered by time and has exactly one
  row for each logical key of the input; that row is one of the input rows of the key, and no
  input row of the key was received later, or at the same time on a node of higher priority.
  Every row that is not emitted is counted.
\<close>

theorem dedup_candles_latest:
  assumes "fst (deduplicate_candles rows True sink) = res"
  shows "sorted (map c_ts_utc (emitted res)) \<and> distinct (map candle_logical_key (emitted res)) \<and>
         candle_logical_key ` set (emitted res) = candle_logical_key ` set rows \<and>
         set (emitted res) \<subseteq> set rows \<and>
         (\<forall>x\<in>set (emitted res). \<forall>y\<in>set rows. candle_logical_key y = candle_logical_key x \<longrightarrow>
            received y < received x \<or>
            (received y = received x \<and> node_priority (c_node_id x) \<le> node_priority (c_node_id y))) \<and>
         length (emitted res) + dup_skip_count res = length rows"
proof -
  have sink: "emitted res = emitted (fst (deduplicate_candles rows True None))"
    using assms by (auto simp: deduplicate_candles_multi)
  have best: "\<not> candle_wins y x"
    if "x \<in> set (emitted res)" "y \<in> set rows" "candle_logical_key y = candle_logical_key x" for x y
  proof -
    have "x \<in> snd ` set (candle_table rows)"
      using that(1) deduplicate_candles_multi(1) [of rows sink] assms by simp
    then obtain k where k: "(k, x) \<in> set (candle_table rows)" by (metis imageE prod.collapse)
    have "map_of (candle_table rows) k = Some x" "k = candle_logical_key x"
      using upserts_member [OF k [unfolded candle_table_def]] upserts_keys [OF k [unfolded candle_table_def]]
      by (simp_all add: candle_table_def)
    then have "resolve candle_wins (filter (\<lambda>r. candle_logical_key r = candle_logical_key x) rows) None = Some x"
      by (simp add: candle_table_def map_of_upserts)
    from resolve_best [OF candle_wins_order this] that(2,3) show ?thesis by simp
  qed
  then have "\<forall>x\<in>set (emitted res). \<forall>y\<in>set rows. candle_logical_key y = candle_logical_key x \<longrightarrow>
      received y < received x \<or>
      (received y = received x \<and> node_priority (c_node_id x) \<le> node_priority (c_node_id y))"
    by (fastforce simp: candle_wins_def split: if_splits)
  moreover have "length (emitted res) + dup_skip_count res = length rows"
    using deduplicate_candles_multi [of rows sink] assms by simp
  ultimately show ?thesis
    unfolding sink using candles.dd_sorted candles.dd_distinct candles.dd_keys candles.dd_subset by blast
qed

theorem dedup_candles_latest_witness:
  "\<exists>res. fst (deduplicate_candles [example_candle 1 ''b'', example_candle 2 ''a'', example_candle 2 ''b''] True None) = res \<and>
     length (emitted res) + dup_skip_count res = 3"
  using dedup_candles_latest [of "[example_candle 1 ''b'', example_candle 2 ''a'', example_candle 2 ''b'']" None]
  by auto



text \<open>
  Order-book events obey the same contract as ticks, over their eight-field key.
\<close>

lemma dedup_orderbook_conserves:
  assumes "fst (deduplicate_orderbook_events clk d rows True sink) = res"
  shows "sorted (map o_ts_utc (emitted res)) \<and> distinct (map orderbook_logical_key (emitted res)) \<and>
         orderbook_logical_key ` set (emitted res) = orderbook_logical_key ` set rows \<and>
         set (emitted res) \<subseteq> set rows \<and>
         length (emitted res) + dup_skip_count res + quarantine_count res = length rows \<and>
         length (quarantine_records res) = quarantine_count res \<and>
         (\<forall>q\<in>set (quarantine_records res). sound_record orderbook_logical_key o_raw_json rows q)"
proof -
  let ?s = "dedup_run orderbook_logical_key o_raw_json o_node_id ''orderbook'' clk d rows"
  have recs: "mset (quarantine_records res) = pending ?s"
    and other: "emitted res = emitted (fst (deduplicate_orderbook_events clk d rows True None))"
    and cnt: "length (emitted res) = length (d_by_key ?s)" "dup_skip_count res = d_dup_skip ?s"
      "quarantine_count res = d_quarantine_count ?s"
    using assms by (auto simp: deduplicate_orderbook_multi)
  have "length (quarantine_records res) = quarantine_count res"
    using dedup_run_pending_size recs cnt(3) by (metis size_mset)
  moreover have set: "q \<in> set (quarantine_records res) \<longleftrightarrow> q \<in># pending ?s" for q
    using recs by (metis set_mset_mset)
  ultimately show ?thesis
    unfolding other
    using orderbook.dd_sorted orderbook.dd_distinct orderbook.dd_keys orderbook.dd_subset dedup_run_sound set
      dedup_run_count [of orderbook_logical_key o_raw_json o_node_id "''orderbook''" clk d rows] cnt other
    by metis
qed

text \<open>
  Deduplication of ticks in format 1.1 never fails (the \<^verbatim>\<open>del\<close> in its loop always finds its
  key), its emitted rows and counters add up to the input, and no conflict record is dropped.
\<close>

lemma dedup_v11_total:
  "\<exists>res s'. deduplicate_ticks_v1_1 clk d rows True sink = Inr (res, s') \<and>
     length (emitted res) + dup_skip_count res + quarantine_count res = length rows \<and>
     length (quarantine_records res) = quarantine_count res \<and>
     sorted (map t_ts_utc (emitted res))"
proof -
  let ?s0 = "\<lparr>v_by_full_key = [], v_by_body = [], v_core = dedup_init clk\<rparr>"
  have "v11_inv 0 ?s0" by (simp add: v11_inv_def bodies_ok_def) (simp add: dedup_init_def)
  from v11_run_inv [OF this, of clk d rows] obtain s where s: "v11_run clk d rows ?s0 = Inr s" "v11_inv (length rows) s"
    by auto
  let ?core = "(v_core s)\<lparr>d_by_key := map (\<lambda>(k, r). (fst k, r)) (v_by_full_key s)\<rparr>"
  let ?r = "dedup_finish t_ts_utc sink ?core"
  have "deduplicate_ticks_v1_1 clk d rows True sink = Inr ?r" using s(1) by (simp add: deduplicate_ticks_v1_1_def)
  moreover have "length (quarantine_records (fst ?r)) = size (pending ?core)"
    by (metis dedup_finish_simps(1) size_mset)
  then have "length (quarantine_records (fst ?r)) = quarantine_count (fst ?r)"
    using s(2) by (simp add: v11_inv_def)
  moreover have "length (emitted (fst ?r)) + dup_skip_count (fst ?r) + quarantine_count (fst ?r) = length rows"
    "sorted (map t_ts_utc (emitted (fst ?r)))"
    using s(2) by (simp_all add: v11_inv_def)
  ultimately show ?thesis by (metis prod.collapse)
qed

text \<open>
  The 1.1 tie-break resolves a conflict against one earlier row only: with two earlier
  rows that share a payload hash and differ in \<^verbatim>\<open>ingest_seq\<close>, a row of a higher-priority node with
  another hash replaces the first and leaves the second in the result, so both sides of the
  conflict are emitted.
\<close>

lemma dedup_v11_leaves_conflict:
  "\<exists>res s'. deduplicate_ticks_v1_1 (\<lambda>n. 0) 0
       [example_tick ''x'' ''b'' ''p'' 1, example_tick ''x'' ''b'' ''p'' 2, example_tick ''x'' ''a'' ''q'' 3] True None
       = Inr (res, s') \<and>
     emitted res = [example_tick ''x'' ''b'' ''p'' 2, example_tick ''x'' ''a'' ''q'' 3]"
  by (simp add: deduplicate_ticks_v1_1_def v11_step_def v11_add_def payload_mismatch_def example_tick_def
      tick_v1_1_logical_key_def tick_logical_key_def quarantine_def admit_def limiter_init_def dedup_init_def
      QUARANTINE_RATE_LIMIT_PER_SEC_def node_priority_def dedup_finish_def limiter_flush_def Let_def)

end
