(* ===== verification/BarAggregation.thy ===== *)
theory BarAggregation
  imports Rows
begin

text \<open>
  \<^verbatim>\<open>aggregation/core.py\<close>, \<^verbatim>\<open>aggregation/scaled_int.py\<close> and \<^verbatim>\<open>aggregation/contract_metadata.py\<close>:
  information bars built from ticks.

  An aggregator keeps one running bar per symbol. Volume, tick and dollar bars merge a
  tick and close when a running total reaches the threshold; time bars close when a tick of a
  later window arrives. The bar class \<^verbatim>\<open>InformationBarModel\<close> belongs to another package: the
  model gets its validator as the parameter \<open>ok\<close>, and a bar it refuses raises.

  The reference is a segmentation of each symbol's ticks. The theorems show that the
  stateful code emits exactly the bars of that segmentation, loses no tick, keeps symbols apart,
  and that prices and times of a bar are those of its ticks.
\<close>

section \<open>Running bars\<close>

record bar_state =
  b_genesis_ts :: timestamp
  b_open :: decimal
  b_high :: decimal
  b_low :: decimal
  b_close :: decimal
  b_volume :: decimal
  b_value :: decimal
  b_last_ts :: timestamp
  b_tick_count :: int

record info_bar =
  i_bar_label :: string
  i_genesis_ts :: timestamp
  i_ts_close :: timestamp
  i_threshold :: decimal
  i_exchange :: string
  i_symbol :: string
  i_open :: decimal
  i_high :: decimal
  i_low :: decimal
  i_close :: decimal
  i_volume :: decimal
  i_value :: decimal

definition update_ohlc :: "decimal \<Rightarrow> bar_state \<Rightarrow> bar_state" where
  "update_ohlc price s =
     (let s1 = (if dec_less (b_high s) price then s\<lparr>b_high := price\<rparr> else s);
          s2 = (if dec_less price (b_low s1) then s1\<lparr>b_low := price\<rparr> else s1)
      in s2\<lparr>b_close := price\<rparr>)"

definition new_state :: "tick \<Rightarrow> bar_state" where
  "new_state t =
     \<lparr>b_genesis_ts = t_ts_utc t, b_open = t_price t, b_high = t_price t, b_low = t_price t,
      b_close = t_price t, b_volume = t_quantity t, b_value = dec_mul (t_price t) (t_quantity t),
      b_last_ts = t_ts_utc t, b_tick_count = 1\<rparr>"

definition merge :: "bar_state \<Rightarrow> tick \<Rightarrow> bar_state" where
  "merge s t =
     (let s1 = update_ohlc (t_price t) s in
      s1\<lparr>b_volume := dec_add (b_volume s1) (t_quantity t),
         b_value := dec_add (b_value s1) (dec_mul (t_price t) (t_quantity t)),
         b_last_ts := t_ts_utc t, b_tick_count := b_tick_count s1 + 1\<rparr>)"

section \<open>Threshold bars\<close>

text \<open>What distinguishes the subclasses: the closing test, the label and the threshold.\<close>

record bar_kind =
  k_should_close :: "bar_state \<Rightarrow> bool"
  k_label :: string
  k_threshold :: decimal

definition emit :: "bar_kind \<Rightarrow> bar_state \<Rightarrow> tick \<Rightarrow> info_bar" where
  "emit k s t =
     (let ts_close = (if t_ts_utc t \<le> b_genesis_ts s then b_genesis_ts s + 1 else t_ts_utc t) in
      \<lparr>i_bar_label = k_label k, i_genesis_ts = b_genesis_ts s, i_ts_close = ts_close,
       i_threshold = k_threshold k, i_exchange = t_exchange t, i_symbol = t_symbol t,
       i_open = b_open s, i_high = b_high s, i_low = b_low s, i_close = b_close s,
       i_volume = b_volume s, i_value = b_value s\<rparr>)"

type_synonym states = "(string \<times> bar_state) list"

definition close_if_due ::
  "(info_bar \<Rightarrow> bool) \<Rightarrow> bar_kind \<Rightarrow> bar_state \<Rightarrow> tick \<Rightarrow> states \<Rightarrow> (py_error + info_bar option) \<times> states" where
  "close_if_due ok k s t states =
     (if k_should_close k s
      then let bar = emit k s t in
           if ok bar then (Inr (Some bar), AList.delete (t_symbol t) states)
           else (Inl ValueError, states)
      else (Inr None, states))"

definition default_process ::
  "(info_bar \<Rightarrow> bool) \<Rightarrow> bar_kind \<Rightarrow> tick \<Rightarrow> states \<Rightarrow> (py_error + info_bar option) \<times> states" where
  "default_process ok k t states =
     (case map_of states (t_symbol t) of
        None \<Rightarrow> let s = new_state t in close_if_due ok k s t (AList.update (t_symbol t) s states)
      | Some s \<Rightarrow> let s' = merge s t in close_if_due ok k s' t (AList.update (t_symbol t) s' states))"

definition VolumeBar :: "decimal \<Rightarrow> py_error + bar_kind" where
  "VolumeBar threshold =
     (if dec_le threshold (Dec 0 0) then Inl ValueError
      else Inr \<lparr>k_should_close = (\<lambda>s. dec_le threshold (b_volume s)),
                k_label = ''vol_'' @ dec_str threshold, k_threshold = threshold\<rparr>)"

definition TickBar :: "int \<Rightarrow> py_error + bar_kind" where
  "TickBar threshold =
     (if threshold \<le> 0 then Inl ValueError
      else Inr \<lparr>k_should_close = (\<lambda>s. threshold \<le> b_tick_count s),
                k_label = ''tick_'' @ show_int threshold, k_threshold = dec_of_int threshold\<rparr>)"

definition DollarBar :: "decimal \<Rightarrow> py_error + bar_kind" where
  "DollarBar threshold =
     (if dec_le threshold (Dec 0 0) then Inl ValueError
      else Inr \<lparr>k_should_close = (\<lambda>s. dec_le threshold (b_value s)),
                k_label = ''dollar_'' @ dec_str threshold, k_threshold = threshold\<rparr>)"

section \<open>Time bars\<close>

text \<open>Time frames are in microseconds; the constructor accepts positive whole seconds.\<close>

definition TimeBar :: "int \<Rightarrow> py_error + int" where
  "TimeBar timeframe =
     (if timeframe \<le> 0 then Inl ValueError
      else if timeframe mod 1000000 \<noteq> 0 then Inl ValueError
      else Inr (timeframe div 1000000))"

definition window_start :: "int \<Rightarrow> timestamp \<Rightarrow> timestamp" where
  "window_start timeframe ts = (ts div timeframe) * timeframe"

definition time_bar :: "int \<Rightarrow> bar_state \<Rightarrow> tick \<Rightarrow> info_bar" where
  "time_bar timeframe s t =
     \<lparr>i_bar_label = ''time_'' @ show_int (timeframe div 1000000), i_genesis_ts = b_genesis_ts s,
      i_ts_close = b_genesis_ts s + timeframe, i_threshold = dec_of_int (timeframe div 1000000),
      i_exchange = t_exchange t, i_symbol = t_symbol t, i_open = b_open s, i_high = b_high s,
      i_low = b_low s, i_close = b_close s, i_volume = b_volume s, i_value = b_value s\<rparr>"

definition time_process ::
  "(info_bar \<Rightarrow> bool) \<Rightarrow> int \<Rightarrow> tick \<Rightarrow> states \<Rightarrow> (py_error + info_bar option) \<times> states" where
  "time_process ok timeframe t states =
     (let start = window_start timeframe (t_ts_utc t);
          fresh = (new_state t)\<lparr>b_genesis_ts := start\<rparr> in
      case map_of states (t_symbol t) of
        None \<Rightarrow> (Inr None, AList.update (t_symbol t) fresh states)
      | Some s \<Rightarrow>
          if t_ts_utc t < b_genesis_ts s + timeframe
          then (Inr None, AList.update (t_symbol t) (merge s t) states)
          else let bar = time_bar timeframe s t in
               if ok bar then (Inr (Some bar), AList.update (t_symbol t) fresh states)
               else (Inl ValueError, states))"

section \<open>A stream of ticks\<close>

text \<open>
  Feeding a list of ticks to an aggregator: the bars emitted and the states left, or the first
  exception.
\<close>

fun run_bars ::
  "(tick \<Rightarrow> states \<Rightarrow> (py_error + info_bar option) \<times> states) \<Rightarrow> tick list \<Rightarrow> states
     \<Rightarrow> py_error + info_bar list \<times> states" where
  "run_bars process [] states = Inr ([], states)"
| "run_bars process (t # ts) states =
     (case process t states of
        (Inl e, _) \<Rightarrow> Inl e
      | (Inr b, states1) \<Rightarrow>
          (case run_bars process ts states1 of
             Inl e \<Rightarrow> Inl e
           | Inr (bs, states2) \<Rightarrow> Inr ((case b of None \<Rightarrow> bs | Some x \<Rightarrow> x # bs), states2)))"

section \<open>Scaled integers\<close>

definition to_scaled :: "decimal \<Rightarrow> int \<Rightarrow> py_error + int" where
  "to_scaled value precision =
     (if precision < 0 then Inl ValueError
      else let scaled = dec_mul value (dec_pow10 (nat precision)) in
           if \<not> dec_is_integral scaled then Inl ValueError else Inr (dec_to_int scaled))"

definition from_scaled :: "int \<Rightarrow> int \<Rightarrow> py_error + decimal" where
  "from_scaled value precision =
     (if precision < 0 then Inl ValueError
      else if precision = 0 then Inr (dec_of_int value)
      else Inr (dec_div_pow10 (dec_of_int value) (nat precision)))"

section \<open>Contract metadata\<close>

text \<open>A datetime with its offset from UTC in seconds; \<^term>\<open>None\<close> is a naive one.\<close>

type_synonym aware = "timestamp \<times> int option"

record contract_metadata =
  m_bar_label :: string
  m_genesis_ts :: aware
  m_threshold :: decimal
  m_precision :: int
  m_rounding_rule :: string
  m_source_cutoff :: aware
  m_tie_breaking :: string
  m_version :: string

definition ensure_utc :: "aware \<Rightarrow> py_error + aware" where
  "ensure_utc v = (case snd v of None \<Rightarrow> Inl ValueError
                   | Some off \<Rightarrow> if off \<noteq> 0 then Inl ValueError else Inr v)"

definition post_init :: "contract_metadata \<Rightarrow> py_error + contract_metadata" where
  "post_init m =
     (if m_bar_label m = [] then Inl ValueError
      else if dec_le (m_threshold m) (Dec 0 0) then Inl ValueError
      else if m_precision m < 0 then Inl ValueError
      else if m_tie_breaking m \<noteq> ''current_tick'' \<and> m_tie_breaking m \<noteq> ''next_tick'' then Inl ValueError
      else case ensure_utc (m_genesis_ts m) of
             Inl e \<Rightarrow> Inl e
           | Inr _ \<Rightarrow> (case ensure_utc (m_source_cutoff m) of Inl e \<Rightarrow> Inl e | Inr _ \<Rightarrow> Inr m))"

definition canonical_repr :: "contract_metadata \<Rightarrow> string" where
  "canonical_repr m = join ''|''
     [''bar_label='' @ m_bar_label m, ''genesis_ts='' @ isoformat (fst (m_genesis_ts m)),
      ''threshold='' @ dec_str (m_threshold m), ''precision='' @ show_int (m_precision m),
      ''rounding_rule='' @ m_rounding_rule m, ''source_cutoff='' @ isoformat (fst (m_source_cutoff m)),
      ''tie_breaking='' @ m_tie_breaking m, ''version='' @ m_version m]"

definition compute_contract_id :: "(string \<Rightarrow> string) \<Rightarrow> contract_metadata \<Rightarrow> string" where
  "compute_contract_id sha256 m = take 16 (sha256 (canonical_repr m))"

section \<open>The reference: segments of ticks\<close>

definition state_of :: "tick list \<Rightarrow> bar_state" where
  "state_of seg = foldl merge (new_state (hd seg)) (tl seg)"

fun segment :: "(bar_state \<Rightarrow> bool) \<Rightarrow> tick list \<Rightarrow> tick list \<Rightarrow> tick list list \<times> tick list" where
  "segment closes cur [] = ([], cur)"
| "segment closes cur (t # ts) =
     (let seg = cur @ [t] in
      if closes (state_of seg) then (seg # fst (segment closes [] ts), snd (segment closes [] ts))
      else segment closes seg ts)"

definition bar_of :: "bar_kind \<Rightarrow> tick list \<Rightarrow> info_bar" where
  "bar_of k seg = emit k (state_of seg) (last seg)"

abbreviation of_symbol :: "string \<Rightarrow> tick list \<Rightarrow> tick list" where
  "of_symbol y ts \<equiv> filter (\<lambda>t. t_symbol t = y) ts"

abbreviation bars_of :: "string \<Rightarrow> info_bar list \<Rightarrow> info_bar list" where
  "bars_of y bs \<equiv> filter (\<lambda>b. i_symbol b = y) bs"

lemma state_of_single [simp]: "state_of [t] = new_state t"
  by (simp add: state_of_def)

lemma state_of_snoc: "seg \<noteq> [] \<Longrightarrow> state_of (seg @ [t]) = merge (state_of seg) t"
  by (cases seg) (simp_all add: state_of_def)

lemma segment_concat: "concat (fst (segment closes cur ts)) @ snd (segment closes cur ts) = cur @ ts"
  by (induction closes cur ts rule: segment.induct) (auto simp: Let_def)

lemma segment_nonempty: "seg \<in> set (fst (segment closes cur ts)) \<Longrightarrow> seg \<noteq> []"
  by (induction closes cur ts rule: segment.induct) (auto simp: Let_def split: if_splits)

section \<open>What a segment's bar holds\<close>

lemma update_ohlc_simps [simp]:
  "dval (b_high (update_ohlc p s)) = max (dval (b_high s)) (dval p)"
  "dval (b_low (update_ohlc p s)) = min (dval (b_low s)) (dval p)"
  "b_close (update_ohlc p s) = p" "b_open (update_ohlc p s) = b_open s"
  "b_genesis_ts (update_ohlc p s) = b_genesis_ts s" "b_tick_count (update_ohlc p s) = b_tick_count s"
  "b_volume (update_ohlc p s) = b_volume s" "b_value (update_ohlc p s) = b_value s"
  by (auto simp: update_ohlc_def dec_less_iff Let_def max_def min_def)

lemma merge_simps [simp]:
  "dval (b_high (merge s t)) = max (dval (b_high s)) (dval (t_price t))"
  "dval (b_low (merge s t)) = min (dval (b_low s)) (dval (t_price t))"
  "b_close (merge s t) = t_price t" "b_open (merge s t) = b_open s"
  "b_genesis_ts (merge s t) = b_genesis_ts s" "b_tick_count (merge s t) = b_tick_count s + 1"
  "b_volume (merge s t) = dec_add (b_volume s) (t_quantity t)"
  "b_value (merge s t) = dec_add (b_value s) (dec_mul (t_price t) (t_quantity t))"
  by (simp_all add: merge_def Let_def)

text \<open>Facts about a nonempty segment go by induction on appending a tick.\<close>

lemma seg_induct [consumes 1, case_names single snoc]:
  assumes "seg \<noteq> []" "\<And>t. P [t]" "\<And>seg t. seg \<noteq> [] \<Longrightarrow> P seg \<Longrightarrow> P (seg @ [t])"
  shows "P seg"
  using assms(1)
proof (induction seg rule: rev_induct)
  case (snoc t seg)
  then show ?case using assms(2,3) by (cases "seg = []") auto
qed simp

abbreviation prices :: "tick list \<Rightarrow> rat set" where
  "prices seg \<equiv> (\<lambda>t. dval (t_price t)) ` set seg"

lemma state_of_ohlc:
  "seg \<noteq> [] \<Longrightarrow>
   b_genesis_ts (state_of seg) = t_ts_utc (hd seg) \<and> b_open (state_of seg) = t_price (hd seg) \<and>
   b_close (state_of seg) = t_price (last seg) \<and>
   dval (b_high (state_of seg)) = Max (prices seg) \<and> dval (b_low (state_of seg)) = Min (prices seg) \<and>
   b_tick_count (state_of seg) = int (length seg)"
proof (induction seg rule: seg_induct)
  case (single t)
  then show ?case by (simp add: new_state_def)
next
  case (snoc seg t)
  have ins: "prices (seg @ [t]) = insert (dval (t_price t)) (prices seg)" by auto
  have "Max (prices (seg @ [t])) = max (Max (prices seg)) (dval (t_price t))"
    "Min (prices (seg @ [t])) = min (Min (prices seg)) (dval (t_price t))"
    unfolding ins using snoc.hyps by (simp_all add: max.commute min.commute)
  with snoc show ?case by (simp add: state_of_snoc)
qed

definition tick_ok :: "tick \<Rightarrow> bool" where
  "tick_ok t \<longleftrightarrow> 0 < dval (t_price t) \<and> 0 \<le> dval (t_quantity t)"

lemma dec_add_nonneg: "0 \<le> dval x \<Longrightarrow> 0 \<le> dval y \<Longrightarrow> 0 \<le> dval (dec_add x y)"
proof -
  assume xy: "0 \<le> dval x" "0 \<le> dval y"
  let ?e = "min (dexp x) (dexp y)"
  have "dval (Dec (dec_scale x ?e + dec_scale y ?e) ?e) = dval x + dval y"
    using dval_scale [of ?e x] dval_scale [of ?e y] by (simp add: dval_def [of "Dec _ _"] distrib_right)
  with xy show ?thesis by (simp add: dec_add_def Let_def dec_fix_nonneg)
qed

lemma dec_mul_nonneg: "0 \<le> dval x \<Longrightarrow> 0 \<le> dval y \<Longrightarrow> 0 \<le> dval (dec_mul x y)"
proof -
  assume "0 \<le> dval x" "0 \<le> dval y"
  moreover have "dval (Dec (dcoef x * dcoef y) (dexp x + dexp y)) = dval x * dval y"
    by (simp add: dval_def power_int_add)
  ultimately show ?thesis by (simp add: dec_mul_def dec_fix_nonneg)
qed

lemma state_of_nonneg:
  "seg \<noteq> [] \<Longrightarrow> list_all tick_ok seg \<Longrightarrow> 0 \<le> dval (b_volume (state_of seg)) \<and> 0 \<le> dval (b_value (state_of seg))"
proof (induction seg rule: seg_induct)
  case (single t)
  then show ?case by (simp add: new_state_def tick_ok_def dec_mul_nonneg)
next
  case (snoc seg t)
  then show ?case by (simp add: state_of_snoc tick_ok_def dec_add_nonneg dec_mul_nonneg)
qed

text \<open>What the bar class is documented to demand of a bar.\<close>

definition bar_wf :: "info_bar \<Rightarrow> bool" where
  "bar_wf b \<longleftrightarrow> i_genesis_ts b < i_ts_close b \<and> 0 < dval (i_low b) \<and>
     dval (i_low b) \<le> dval (i_open b) \<and> dval (i_open b) \<le> dval (i_high b) \<and>
     dval (i_low b) \<le> dval (i_close b) \<and> dval (i_close b) \<le> dval (i_high b) \<and>
     0 \<le> dval (i_volume b) \<and> 0 \<le> dval (i_value b)"

lemma ohlc_wf:
  assumes "seg \<noteq> []" "list_all tick_ok seg"
  shows "0 < dval (b_low (state_of seg))"
    "dval (b_low (state_of seg)) \<le> dval (b_open (state_of seg))" "dval (b_open (state_of seg)) \<le> dval (b_high (state_of seg))"
    "dval (b_low (state_of seg)) \<le> dval (b_close (state_of seg))" "dval (b_close (state_of seg)) \<le> dval (b_high (state_of seg))"
proof -
  note o = state_of_ohlc [OF assms(1)]
  have "prices seg \<noteq> {}" "finite (prices seg)" using assms(1) by auto
  then have "Min (prices seg) \<in> prices seg" by (rule Min_in [rotated])
  then show "0 < dval (b_low (state_of seg))" using o assms(2) by (auto simp: list_all_iff tick_ok_def)
  show "dval (b_low (state_of seg)) \<le> dval (b_open (state_of seg))" "dval (b_open (state_of seg)) \<le> dval (b_high (state_of seg))"
    "dval (b_low (state_of seg)) \<le> dval (b_close (state_of seg))" "dval (b_close (state_of seg)) \<le> dval (b_high (state_of seg))"
    using o assms(1) by simp_all
qed

lemma bar_of_wf: "seg \<noteq> [] \<Longrightarrow> list_all tick_ok seg \<Longrightarrow> bar_wf (bar_of k seg)"
  using ohlc_wf [of seg] state_of_nonneg [of seg] by (auto simp: bar_wf_def bar_of_def emit_def Let_def)

lemma i_symbol_bar_of [simp]: "i_symbol (bar_of k seg) = t_symbol (last seg)"
  by (simp add: bar_of_def emit_def Let_def)

section \<open>Threshold bars refine the segmentation\<close>

text \<open>The aggregator's dictionary represents an open segment per symbol.\<close>

definition represents :: "states \<Rightarrow> (string \<Rightarrow> tick list) \<Rightarrow> bool" where
  "represents states cur \<longleftrightarrow>
     (\<forall>y. map_of states y = (if cur y = [] then None else Some (state_of (cur y))))"

lemma default_process_step:
  assumes "represents states cur" "\<forall>b. bar_wf b \<longrightarrow> ok b" "list_all tick_ok (cur (t_symbol t) @ [t])"
  defines "seg \<equiv> cur (t_symbol t) @ [t]"
  shows "\<exists>st'. default_process ok k t states =
             (Inr (if k_should_close k (state_of seg) then Some (bar_of k seg) else None), st') \<and>
           represents st' (cur(t_symbol t := if k_should_close k (state_of seg) then [] else seg))"
proof -
  have s: "default_process ok k t states = close_if_due ok k (state_of seg) t (AList.update (t_symbol t) (state_of seg) states)"
    using assms(1) by (auto simp: default_process_def represents_def seg_def Let_def state_of_snoc split: option.splits)
  have "ok (emit k (state_of seg) t)"
    using bar_of_wf [of seg k] assms(2,3) by (simp add: bar_of_def seg_def)
  with s assms(1) show ?thesis
    by (auto simp: close_if_due_def bar_of_def seg_def represents_def map_of_update_Some delete_conv' Let_def)
qed

lemma run_bars_segments:
  assumes "represents states cur" "\<forall>b. bar_wf b \<longrightarrow> ok b" "\<forall>y. list_all tick_ok (cur y)" "list_all tick_ok ts"
    and "\<forall>y. \<forall>t\<in>set (cur y). t_symbol t = y"
  shows "\<exists>bs st'. run_bars (default_process ok k) ts states = Inr (bs, st') \<and>
           represents st' (\<lambda>y. snd (segment (k_should_close k) (cur y) (of_symbol y ts))) \<and>
           (\<forall>y. bars_of y bs = map (bar_of k) (fst (segment (k_should_close k) (cur y) (of_symbol y ts))))"
  using assms
proof (induction ts arbitrary: states cur)
  case Nil
  then show ?case by simp
next
  case (Cons t ts)
  let ?y = "t_symbol t" and ?c = "k_should_close k"
  let ?seg = "cur ?y @ [t]"
  let ?cur = "cur(?y := if ?c (state_of ?seg) then [] else ?seg)"
  obtain st1 where st1: "default_process ok k t states = (Inr (if ?c (state_of ?seg) then Some (bar_of k ?seg) else None), st1)"
    "represents st1 ?cur"
    using default_process_step [OF Cons.prems(1,2), of t k] Cons.prems(3,4) by auto
  have ok: "\<forall>y. list_all tick_ok (?cur y)" "list_all tick_ok ts" "\<forall>y. \<forall>t\<in>set (?cur y). t_symbol t = y"
    using Cons.prems(3,4,5) by simp_all
  obtain bs st' where run: "run_bars (default_process ok k) ts st1 = Inr (bs, st')"
    "represents st' (\<lambda>y. snd (segment ?c (?cur y) (of_symbol y ts)))"
    "\<forall>y. bars_of y bs = map (bar_of k) (fst (segment ?c (?cur y) (of_symbol y ts)))"
    using Cons.IH [OF st1(2) Cons.prems(2) ok] by blast
  have seg: "segment ?c (cur y) (of_symbol y (t # ts)) =
      (if y = ?y \<and> ?c (state_of ?seg)
       then (?seg # fst (segment ?c (?cur y) (of_symbol y ts)), snd (segment ?c (?cur y) (of_symbol y ts)))
       else segment ?c (?cur y) (of_symbol y ts))" for y
    by (simp add: Let_def)
  have "(\<lambda>y. snd (segment ?c (cur y) (of_symbol y (t # ts)))) = (\<lambda>y. snd (segment ?c (?cur y) (of_symbol y ts)))"
    unfolding seg by auto
  with run(2) have rep: "represents st' (\<lambda>y. snd (segment ?c (cur y) (of_symbol y (t # ts))))" by (simp only:)
  let ?bs = "if ?c (state_of ?seg) then bar_of k ?seg # bs else bs"
  have bars: "bars_of y ?bs = map (bar_of k) (fst (segment ?c (cur y) (of_symbol y (t # ts))))" for y
    unfolding seg using run(3) by simp
  have "run_bars (default_process ok k) (t # ts) states = Inr (?bs, st')" using st1(1) run(1) by simp
  with rep bars show ?case by blast
qed

section \<open>Closing on the current tick\<close>

text \<open>
  The common rule of the three subclasses: a bar closes on the first tick with which its total
  reaches the threshold, that tick included.
\<close>

definition first_reach :: "(bar_state \<Rightarrow> rat) \<Rightarrow> rat \<Rightarrow> tick list list \<times> tick list \<Rightarrow> bool" where
  "first_reach metric thr r \<longleftrightarrow>
     (\<forall>seg\<in>set (fst r). thr \<le> metric (state_of seg) \<and>
        (\<forall>n. 0 < n \<longrightarrow> n < length seg \<longrightarrow> metric (state_of (take n seg)) < thr)) \<and>
     (\<forall>n. 0 < n \<longrightarrow> n \<le> length (snd r) \<longrightarrow> metric (state_of (take n (snd r))) < thr)"

locale threshold_bar =
  fixes closes :: "bar_state \<Rightarrow> bool" and metric :: "bar_state \<Rightarrow> rat" and thr :: rat
  assumes closes_iff: "closes s \<longleftrightarrow> thr \<le> metric s"
begin

lemma first_reach_segment:
  assumes "\<forall>n. 0 < n \<longrightarrow> n \<le> length cur \<longrightarrow> metric (state_of (take n cur)) < thr"
  shows "first_reach metric thr (segment closes cur ts)"
  using assms
proof (induction ts arbitrary: cur)
  case Nil
  then show ?case by (simp add: first_reach_def)
next
  case (Cons t ts)
  show ?case
  proof (cases "closes (state_of (cur @ [t]))")
    case True
    have "first_reach metric thr (segment closes [] ts)" by (rule Cons.IH) simp
    moreover have "metric (state_of (take n (cur @ [t]))) < thr" if "0 < n" "n < length (cur @ [t])" for n
      using Cons.prems that by simp
    moreover have "thr \<le> metric (state_of (cur @ [t]))" using True by (simp add: closes_iff)
    ultimately show ?thesis using True by (auto simp: first_reach_def Let_def)
  next
    case False
    have "metric (state_of (take n (cur @ [t]))) < thr" if "0 < n" "n \<le> length (cur @ [t])" for n
    proof (cases "n \<le> length cur")
      case True
      then show ?thesis using Cons.prems that(1) by simp
    next
      case f: False
      then have "take n (cur @ [t]) = cur @ [t]" using that by simp
      then show ?thesis using False by (simp add: closes_iff)
    qed
    then have "first_reach metric thr (segment closes (cur @ [t]) ts)" by (intro Cons.IH) blast
    with False show ?thesis by (simp add: Let_def)
  qed
qed

lemma first_reach_run: "first_reach metric thr (segment closes [] ts)"
  by (rule first_reach_segment) simp

end

interpretation volume: threshold_bar "\<lambda>s. dec_le d (b_volume s)" "\<lambda>s. dval (b_volume s)" "dval d" for d
  by unfold_locales (simp add: dec_le_iff)

interpretation dollar: threshold_bar "\<lambda>s. dec_le d (b_value s)" "\<lambda>s. dval (b_value s)" "dval d" for d
  by unfold_locales (simp add: dec_le_iff)

interpretation tick_count: threshold_bar "\<lambda>s. n \<le> b_tick_count s" "\<lambda>s. of_int (b_tick_count s)" "of_int n" for n
  by unfold_locales simp

section \<open>Time bars refine windows\<close>

definition tstate :: "int \<Rightarrow> tick list \<Rightarrow> bar_state" where
  "tstate tf seg = (state_of seg)\<lparr>b_genesis_ts := window_start tf (t_ts_utc (hd seg))\<rparr>"

text \<open>A window's ticks together with the tick whose arrival closes it.\<close>

fun windows :: "int \<Rightarrow> tick list \<Rightarrow> tick list \<Rightarrow> (tick list \<times> tick) list \<times> tick list" where
  "windows tf cur [] = ([], cur)"
| "windows tf cur (t # ts) =
     (if cur = [] then windows tf [t] ts
      else if t_ts_utc t < window_start tf (t_ts_utc (hd cur)) + tf then windows tf (cur @ [t]) ts
      else ((cur, t) # fst (windows tf [t] ts), snd (windows tf [t] ts)))"

definition time_bar_of :: "int \<Rightarrow> tick list \<times> tick \<Rightarrow> info_bar" where
  "time_bar_of tf w = time_bar tf (tstate tf (fst w)) (snd w)"

definition trepresents :: "int \<Rightarrow> states \<Rightarrow> (string \<Rightarrow> tick list) \<Rightarrow> bool" where
  "trepresents tf states cur \<longleftrightarrow>
     (\<forall>y. map_of states y = (if cur y = [] then None else Some (tstate tf (cur y))))"

lemma tstate_snoc: "seg \<noteq> [] \<Longrightarrow> merge (tstate tf seg) t = tstate tf (seg @ [t])"
  by (simp add: tstate_def state_of_snoc merge_def update_ohlc_def Let_def)

lemma time_bar_wf:
  assumes "seg \<noteq> []" "list_all tick_ok seg" "0 < tf"
  shows "bar_wf (time_bar tf (tstate tf seg) t)"
  using ohlc_wf [OF assms(1,2)] state_of_nonneg [OF assms(1,2)] assms(3)
  by (simp add: bar_wf_def time_bar_def tstate_def)

definition next_cur :: "int \<Rightarrow> tick list \<Rightarrow> tick \<Rightarrow> tick list" where
  "next_cur tf cur t =
     (if cur \<noteq> [] \<and> t_ts_utc t < window_start tf (t_ts_utc (hd cur)) + tf then cur @ [t] else [t])"

definition flushed :: "int \<Rightarrow> tick list \<Rightarrow> tick \<Rightarrow> bool" where
  "flushed tf cur t \<longleftrightarrow> cur \<noteq> [] \<and> \<not> t_ts_utc t < window_start tf (t_ts_utc (hd cur)) + tf"

lemma windows_step:
  "windows tf cur (t # ts) =
     (let r = windows tf (next_cur tf cur t) ts in
      (if flushed tf cur t then (cur, t) # fst r else fst r, snd r))"
  by (simp add: next_cur_def flushed_def Let_def)

lemma time_process_step:
  assumes "trepresents tf states cur" "\<forall>b. bar_wf b \<longrightarrow> ok b" "list_all tick_ok (cur (t_symbol t))" "0 < tf"
  defines "c \<equiv> cur (t_symbol t)"
  shows "\<exists>st'. time_process ok tf t states =
             (Inr (if flushed tf c t then Some (time_bar_of tf (c, t)) else None), st') \<and>
           trepresents tf st' (cur(t_symbol t := next_cur tf c t))"
proof (cases "c = []")
  case True
  then show ?thesis using assms(1)
    by (auto simp: time_process_def trepresents_def c_def flushed_def next_cur_def map_of_update_Some tstate_def Let_def)
next
  case False
  then have m: "map_of states (t_symbol t) = Some (tstate tf c)"
    and g: "b_genesis_ts (tstate tf c) = window_start tf (t_ts_utc (hd c))"
    using assms(1) by (simp_all add: trepresents_def c_def tstate_def)
  have ok: "ok (time_bar tf (tstate tf c) t)" using time_bar_wf [OF False] assms(2-4) by (simp add: c_def)
  have one: "tstate tf [t] = (new_state t)\<lparr>b_genesis_ts := window_start tf (t_ts_utc t)\<rparr>" by (simp add: tstate_def)
  show ?thesis
  proof (cases "flushed tf c t")
    case True
    then show ?thesis using m g ok False assms(1) one
      by (auto simp: time_process_def flushed_def next_cur_def time_bar_of_def trepresents_def map_of_update_Some Let_def)
  next
    case f: False
    then show ?thesis using m g False assms(1) tstate_snoc [OF False, of tf t]
      by (auto simp: time_process_def flushed_def next_cur_def trepresents_def map_of_update_Some Let_def)
  qed
qed

lemma run_time_windows:
  assumes "trepresents tf states cur" "\<forall>b. bar_wf b \<longrightarrow> ok b" "\<forall>y. list_all tick_ok (cur y)" "list_all tick_ok ts" "0 < tf"
  shows "\<exists>bs st'. run_bars (time_process ok tf) ts states = Inr (bs, st') \<and>
           trepresents tf st' (\<lambda>y. snd (windows tf (cur y) (of_symbol y ts))) \<and>
           (\<forall>y. bars_of y bs = map (time_bar_of tf) (fst (windows tf (cur y) (of_symbol y ts))))"
  using assms(1,3,4)
proof (induction ts arbitrary: states cur)
  case Nil
  then show ?case by simp
next
  case (Cons t ts)
  let ?y = "t_symbol t"
  let ?c = "cur ?y"
  let ?cur = "cur(?y := next_cur tf ?c t)"
  obtain st1 where st1: "time_process ok tf t states = (Inr (if flushed tf ?c t then Some (time_bar_of tf (?c, t)) else None), st1)"
    "trepresents tf st1 ?cur"
    using time_process_step [OF Cons.prems(1) assms(2) _ assms(5)] Cons.prems(2) by blast
  have ok: "\<forall>y. list_all tick_ok (?cur y)" "list_all tick_ok ts"
    using Cons.prems(2,3) by (simp_all add: next_cur_def)
  obtain bs st' where run: "run_bars (time_process ok tf) ts st1 = Inr (bs, st')"
    "trepresents tf st' (\<lambda>y. snd (windows tf (?cur y) (of_symbol y ts)))"
    "\<forall>y. bars_of y bs = map (time_bar_of tf) (fst (windows tf (?cur y) (of_symbol y ts)))"
    using Cons.IH [OF st1(2) ok] by blast
  have w: "windows tf (cur y) (of_symbol y (t # ts)) =
      (if y = ?y \<and> flushed tf ?c t then (?c, t) # fst (windows tf (?cur y) (of_symbol y ts))
       else fst (windows tf (?cur y) (of_symbol y ts)), snd (windows tf (?cur y) (of_symbol y ts)))" for y
    by (simp add: windows_step Let_def del: windows.simps)
  let ?bs = "if flushed tf ?c t then time_bar_of tf (?c, t) # bs else bs"
  have rep: "trepresents tf st' (\<lambda>y. snd (windows tf (cur y) (of_symbol y (t # ts))))"
    unfolding w using run(2) by simp
  have bars: "bars_of y ?bs = map (time_bar_of tf) (fst (windows tf (cur y) (of_symbol y (t # ts))))" for y
    unfolding w using run(3) by (simp add: time_bar_of_def time_bar_def)
  have "run_bars (time_process ok tf) (t # ts) states = Inr (?bs, st')" using st1(1) run(1) by simp
  with rep bars show ?case by blast
qed

section \<open>Windows of ticks in time order\<close>

lemma window_bounds: "0 < tf \<Longrightarrow> window_start tf t \<le> t \<and> t < window_start tf t + tf"
proof -
  assume "0 < tf"
  moreover have "t = (t div tf) * tf + t mod tf" by simp
  ultimately show ?thesis using pos_mod_bound [of tf t] pos_mod_sign [of tf t]
    unfolding window_start_def by linarith
qed

lemma window_eq:
  assumes "0 < tf" "x \<le> t" "t < window_start tf x + tf"
  shows "window_start tf t = window_start tf x"
proof -
  have "x div tf \<le> t div tf" using assms(1,2) by (rule zdiv_mono1 [rotated])
  moreover have "(t div tf) * tf < (x div tf + 1) * tf"
    using window_bounds [OF assms(1), of t] assms(3) by (simp add: window_start_def distrib_right)
  then have "t div tf < x div tf + 1" using assms(1) by (simp only: mult_less_cancel_right_pos)
  ultimately show ?thesis by (simp add: window_start_def)
qed

lemma window_less:
  assumes "0 < tf" "\<not> t < window_start tf x + tf"
  shows "window_start tf x < window_start tf t"
  using window_bounds [OF assms(1), of t] assms(2) by linarith

definition same_window :: "int \<Rightarrow> tick list \<Rightarrow> bool" where
  "same_window tf seg \<longleftrightarrow> (\<forall>x\<in>set seg. window_start tf (t_ts_utc x) = window_start tf (t_ts_utc (hd seg)))"

lemma same_window_single: "same_window tf [t]"
  by (simp add: same_window_def)

lemma same_window_snoc:
  assumes "same_window tf cur" "cur \<noteq> []" "window_start tf (t_ts_utc t) = window_start tf (t_ts_utc (hd cur))"
  shows "same_window tf (cur @ [t])"
  unfolding same_window_def hd_append2 [OF assms(2)]
proof (intro ballI)
  fix x
  assume "x \<in> set (cur @ [t])"
  then consider "x \<in> set cur" | "x = t" by auto
  then show "window_start tf (t_ts_utc x) = window_start tf (t_ts_utc (hd cur))"
    using assms(1,3) unfolding same_window_def by cases blast+
qed

lemma windows_concat: "concat (map fst (fst (windows tf cur ts))) @ snd (windows tf cur ts) = cur @ ts"
  by (induction tf cur ts rule: windows.induct) auto

lemma windows_sorted:
  assumes "0 < tf" "sorted (map t_ts_utc (cur @ ts))" "same_window tf cur"
  shows "\<forall>(seg, t)\<in>set (fst (windows tf cur ts)). seg \<noteq> [] \<and> same_window tf seg \<and>
           window_start tf (t_ts_utc (hd seg)) < window_start tf (t_ts_utc t)"
  using assms(2,3)
proof (induction ts arbitrary: cur)
  case Nil
  then show ?case by simp
next
  case (Cons t ts)
  show ?case
  proof (cases "flushed tf cur t")
    case True
    have rest: "\<forall>(seg, t)\<in>set (fst (windows tf [t] ts)). seg \<noteq> [] \<and> same_window tf seg \<and>
        window_start tf (t_ts_utc (hd seg)) < window_start tf (t_ts_utc t)"
      using Cons.prems(1) by (intro Cons.IH) (simp_all add: sorted_append same_window_single)
    have this_one: "cur \<noteq> []" "window_start tf (t_ts_utc (hd cur)) < window_start tf (t_ts_utc t)"
      using True window_less [OF assms(1)] by (simp_all add: flushed_def)
    have "fst (windows tf cur (t # ts)) = (cur, t) # fst (windows tf [t] ts)" using True by (simp add: flushed_def)
    then show ?thesis using rest this_one Cons.prems(2) by simp
  next
    case False
    have "window_start tf (t_ts_utc t) = window_start tf (t_ts_utc (hd cur))" if "cur \<noteq> []"
    proof (rule window_eq [OF assms(1)])
      show "t_ts_utc (hd cur) \<le> t_ts_utc t" using Cons.prems(1) that by (cases cur) (auto simp: sorted_append)
      show "t_ts_utc t < window_start tf (t_ts_utc (hd cur)) + tf" using False that by (simp add: flushed_def)
    qed
    then have "same_window tf (next_cur tf cur t)"
      using Cons.prems(2) by (simp add: next_cur_def same_window_single same_window_snoc)
    moreover have "sorted (map t_ts_utc (next_cur tf cur t @ ts))"
      using Cons.prems(1) by (auto simp: next_cur_def sorted_append)
    ultimately show ?thesis using Cons.IH [of "next_cur tf cur t"] False
      by (simp add: windows_step Let_def del: windows.simps)
  qed
qed

section \<open>Exact totals and scaled integers\<close>

lemma dec_fix_zeros:
  assumes "\<bar>c\<bar> < 10 ^ prec"
  shows "dval (dec_fix (Dec (c * 10 ^ j) e)) = dval (Dec (c * 10 ^ j) e)"
proof (cases "prec < ndigits (nat \<bar>c * 10 ^ j\<bar>)")
  case False
  then show ?thesis by (simp add: dec_fix_def Let_def)
next
  case True
  let ?n = "nat \<bar>c * 10 ^ j\<bar>"
  let ?k = "ndigits ?n - prec"
  have n: "?n = nat \<bar>c\<bar> * 10 ^ j" by (simp add: abs_mult nat_mult_distrib)
  have "nat \<bar>c\<bar> < 10 ^ prec" using assms by (simp add: nat_less_iff)
  then have "?n < 10 ^ (prec + j)" unfolding n power_add by (rule mult_strict_right_mono) simp
  then have "ndigits ?n \<le> prec + j" by (rule ndigits_le [rotated]) (simp add: prec_def)
  then have kj: "?k \<le> j" by simp
  then have "?n = nat \<bar>c\<bar> * 10 ^ (j - ?k) * 10 ^ ?k" unfolding n by (simp add: power_add [symmetric])
  then have dvd: "10 ^ ?k dvd ?n" by (rule dvdI [OF trans]) (simp add: mult.commute)
  then have q: "half_even (?n div 10 ^ ?k) (?n mod 10 ^ ?k) (10 ^ ?k) = ?n div 10 ^ ?k"
    by (simp add: half_even_def dvd_imp_mod_0)
  have "dval (dec_fix (Dec (c * 10 ^ j) e)) = of_int (sgn (c * 10 ^ j)) * of_nat (?n div 10 ^ ?k) * 10 powi (e + int ?k)"
    using dval_fix [of "Dec (c * 10 ^ j) e"] True q by simp
  also have "\<dots> = of_int (sgn (c * 10 ^ j)) * of_nat (?n div 10 ^ ?k * 10 ^ ?k) * 10 powi e"
    by (simp add: power_int_add)
  also have "\<dots> = of_int (sgn (c * 10 ^ j)) * of_nat ?n * 10 powi e" using dvd by simp
  also have "\<dots> = of_int (sgn (c * 10 ^ j) * \<bar>c * 10 ^ j\<bar>) * 10 powi e" by simp
  also have "sgn (c * 10 ^ j) * \<bar>c * 10 ^ j\<bar> = c * 10 ^ j" by (simp only: sgn_mult_abs)
  finally show ?thesis by (simp add: dval_def)
qed

lemma integral_value: "dval x = of_int n \<Longrightarrow> dec_is_integral x \<and> dec_to_int x = n"
proof -
  assume v: "dval x = of_int n"
  have "dec_is_integral x"
  proof (cases "0 \<le> dexp x")
    case False
    then have "(10 :: rat) powi dexp x * 10 ^ nat (- dexp x) = 1"
      by (simp add: power_int_def field_simps)
    then have "(of_int (dcoef x) :: rat) = of_int (n * 10 ^ nat (- dexp x))"
      using v by (simp add: dval_def) (metis mult.assoc mult.right_neutral)
    then have "dcoef x = n * 10 ^ nat (- dexp x)" by (simp only: of_int_eq_iff)
    then show ?thesis by (simp add: dec_is_integral_def)
  qed (simp add: dec_is_integral_def)
  with v dec_to_int_integral [of x] show ?thesis by simp
qed

text \<open>Quantities on one scale (a fixed-point column) add up exactly while the total fits 28 digits.\<close>

lemma dec_add_same_scale:
  assumes "dexp x = e" "dexp y = e" "\<bar>dcoef x + dcoef y\<bar> < 10 ^ prec"
  shows "dec_add x y = Dec (dcoef x + dcoef y) e"
  using assms by (simp add: dec_add_def dec_scale_def Let_def dec_fix_exact)

lemma state_of_volume:
  "seg \<noteq> [] \<Longrightarrow> \<forall>t\<in>set seg. dexp (t_quantity t) = e \<and> 0 \<le> dcoef (t_quantity t) \<Longrightarrow>
   (\<Sum>t\<leftarrow>seg. dcoef (t_quantity t)) < 10 ^ prec \<Longrightarrow>
   b_volume (state_of seg) = Dec (\<Sum>t\<leftarrow>seg. dcoef (t_quantity t)) e"
proof (induction seg rule: seg_induct)
  case (single t)
  then show ?case by (cases "t_quantity t") (simp add: new_state_def)
next
  case (snoc seg t)
  have nn: "0 \<le> (\<Sum>t\<leftarrow>seg. dcoef (t_quantity t))" using snoc.prems(1) by (intro sum_list_nonneg) auto
  have "b_volume (state_of seg) = Dec (\<Sum>t\<leftarrow>seg. dcoef (t_quantity t)) e"
    using snoc.IH snoc.prems by auto
  with nn snoc.prems snoc.hyps show ?case by (simp add: state_of_snoc dec_add_same_scale)
qed

lemma dcoef_strip: "\<bar>dcoef (dec_strip i c e)\<bar> \<le> \<bar>c\<bar>"
proof (induction i c e rule: dec_strip.induct)
  case (1 i c e)
  have "\<bar>c div 10\<bar> \<le> \<bar>c\<bar>" if "10 dvd c" using that by (auto elim!: dvdE simp: abs_mult)
  with 1 show ?case by (subst dec_strip.simps) auto
qed

lemma dval_mul_pow10:
  assumes "\<bar>dcoef d\<bar> < 10 ^ prec"
  shows "dval (dec_mul d (dec_pow10 q)) = dval d * 10 ^ q"
proof -
  have "\<exists>j e. dec_pow10 q = Dec (10 ^ j) e" unfolding dec_pow10_def by (cases "q < prec") auto
  then obtain j e where pow: "dec_pow10 q = Dec (10 ^ j) e" by blast
  have "dval (dec_mul d (dec_pow10 q)) = dval (Dec (dcoef d * 10 ^ j) (dexp d + e))"
    using dec_fix_zeros [OF assms] by (simp add: dec_mul_def pow)
  also have "\<dots> = dval d * dval (dec_pow10 q)" by (simp add: dval_def pow power_int_add)
  finally show ?thesis by (simp add: dval_pow10)
qed

lemma from_scaled_value:
  assumes "0 \<le> p" "\<bar>n\<bar> < 10 ^ prec"
  shows "\<exists>d. from_scaled n p = Inr d \<and> dval d = of_int n / 10 ^ nat p \<and> \<bar>dcoef d\<bar> < 10 ^ prec"
proof (cases "p = 0")
  case True
  with assms show ?thesis by (simp add: from_scaled_def dec_of_int_def dval_def)
next
  case False
  let ?d = "dec_div_pow10 (dec_of_int n) (nat p)"
  have fx: "dec_fix (Dec n (- int (nat p))) = Dec n (- int (nat p))" using assms(2) by (simp add: dec_fix_exact)
  have "\<bar>dcoef ?d\<bar> \<le> \<bar>n\<bar>" using fx by (simp add: dec_div_pow10_def dec_of_int_def Let_def dcoef_strip)
  moreover have "dval ?d = of_int n / 10 ^ nat p"
    using dval_div_pow10 [of "dec_of_int n" "nat p"] assms(2) by (simp add: dec_of_int_def dval_def [of "Dec n 0"])
  ultimately show ?thesis using False assms by (simp add: from_scaled_def)
qed

section \<open>Properties\<close>

lemma represents_empty: "represents [] (\<lambda>y. [])" "trepresents tf [] (\<lambda>y. [])"
  by (simp_all add: represents_def trepresents_def)

text \<open>A tick for the examples.\<close>

definition bar_tick :: "timestamp \<Rightarrow> int \<Rightarrow> tick" where
  "bar_tick ts p =
     \<lparr>t_exchange = ''upbit'', t_symbol = ''KRW-BTC'', t_ts_utc = ts, t_price = Dec p 0, t_quantity = Dec 1 0,
      t_side = ''buy'', t_raw_json = None, t_node_id = None, t_payload_hash = None, t_ingest_seq = None\<rparr>"

lemma bar_tick_ok [simp]: "0 < p \<Longrightarrow> tick_ok (bar_tick ts p)"
  by (simp add: tick_ok_def bar_tick_def dval_def)



text \<open>
  Tie-breaking on the current tick: a volume, tick or dollar bar ends with the first tick
  that brings its total (as the code computes it) up to the threshold or beyond, that tick
  included; before it, and throughout the open segment, the total is below the threshold.
\<close>

lemma bars_close_on_current_tick:
  "(VolumeBar d = Inr k \<longrightarrow> first_reach (\<lambda>s. dval (b_volume s)) (dval d) (segment (k_should_close k) [] ts)) \<and>
   (DollarBar d = Inr k \<longrightarrow> first_reach (\<lambda>s. dval (b_value s)) (dval d) (segment (k_should_close k) [] ts)) \<and>
   (TickBar n = Inr k \<longrightarrow> first_reach (\<lambda>s. of_int (b_tick_count s)) (of_int n) (segment (k_should_close k) [] ts))"
  using volume.first_reach_run [of d ts] dollar.first_reach_run [of d ts] tick_count.first_reach_run [of n ts]
  by (auto simp: VolumeBar_def DollarBar_def TickBar_def split: if_splits)

text \<open>
  What a bar holds: its open, high, low and close are the first, highest, lowest and last
  price of its ticks, its start is the first tick's time and its end strictly later; and when the
  quantities share a scale and their sum has at most 28 digits, its volume is their exact sum.
\<close>

lemma bar_of_contents:
  assumes "seg \<noteq> []"
  shows "i_open (bar_of k seg) = t_price (hd seg) \<and> i_close (bar_of k seg) = t_price (last seg) \<and>
         dval (i_high (bar_of k seg)) = Max (prices seg) \<and> dval (i_low (bar_of k seg)) = Min (prices seg) \<and>
         i_genesis_ts (bar_of k seg) = t_ts_utc (hd seg) \<and>
         i_genesis_ts (bar_of k seg) < i_ts_close (bar_of k seg) \<and>
         t_ts_utc (last seg) \<le> i_ts_close (bar_of k seg) \<and>
         ((\<forall>t\<in>set seg. dexp (t_quantity t) = e \<and> 0 \<le> dcoef (t_quantity t)) \<longrightarrow>
          (\<Sum>t\<leftarrow>seg. dcoef (t_quantity t)) < 10 ^ prec \<longrightarrow>
          i_volume (bar_of k seg) = Dec (\<Sum>t\<leftarrow>seg. dcoef (t_quantity t)) e)"
  using state_of_ohlc [OF assms] state_of_volume [OF assms, of e]
  by (simp add: bar_of_def emit_def Let_def)



text \<open>
  Scaled integers round-trip: an integer of at most 28 digits, unscaled to a decimal with any
  precision, has the value of the integer divided by that power of ten, and scales back to
  the same integer.
\<close>

lemma scaled_roundtrip:
  assumes "0 \<le> p" "\<bar>n\<bar> < 10 ^ prec"
  shows "\<exists>d. from_scaled n p = Inr d \<and> dval d = of_int n / 10 ^ nat p \<and> to_scaled d p = Inr n"
proof -
  obtain d where d: "from_scaled n p = Inr d" "dval d = of_int n / 10 ^ nat p" "\<bar>dcoef d\<bar> < 10 ^ prec"
    using from_scaled_value [OF assms] by blast
  have "dval (dec_mul d (dec_pow10 (nat p))) = of_int n" using dval_mul_pow10 [OF d(3)] d(2) by simp
  from integral_value [OF this] assms(1) have "to_scaled d p = Inr n" by (simp add: to_scaled_def Let_def)
  with d show ?thesis by blast
qed

text \<open>
  Scaling rejects a fraction only after rounding to 28 digits: a decimal with 29 significant
  digits and a non-zero fraction is scaled with precision 0 to an integer without an error, so
  its fraction is dropped silently.
\<close>

lemma to_scaled_truncates:
  "\<not> dec_is_integral (Dec 12345678901234567890123456785 (-1)) \<and>
   to_scaled (Dec 12345678901234567890123456785 (-1)) 0 = Inr 1234567890123456789012345678"
  by (simp add: to_scaled_def dec_mul_def dec_fix_def dec_pow10_def prec_def ndigits.simps half_even_def
      dec_is_integral_def dec_to_int_def Let_def)

end
