(* ===== verification/ObjectStore.thy ===== *)
theory ObjectStore
  imports Prelude
begin

text \<open>
  The object store as the code sees it through \<^verbatim>\<open>boto3\<close>. The client and the server are not part of
  the repository: the model takes the client's operations as the parameter \<open>c\<close> of type
  \<open>'s s3\<close>, functions on an opaque server state \<open>'s\<close>, and \<open>s3_laws c view\<close> states what their
  documentation promises about the objects \<open>view\<close> shows: reads change nothing and report what is
  there, a successful write stores the object with its metadata, and a write that
  raised may or may not have taken effect. No other client writes at the same time.

  \<open>mem_s3\<close> is a small store in memory, used to show that the laws can hold.
\<close>

record s3_object =
  ob_body :: bytes
  ob_sha256 :: "string option"
  ob_etag :: string
  ob_version :: "string option"

record head_response =
  h_etag :: string
  h_version :: "string option"
  h_sha256 :: "string option"
  h_length :: int

record 's s3 =
  s3_head :: "string \<Rightarrow> 's \<Rightarrow> (py_error + head_response) \<times> 's"
  s3_put :: "string \<Rightarrow> bytes \<Rightarrow> string \<Rightarrow> 's \<Rightarrow> (py_error + string) \<times> 's"
  s3_upload :: "string \<Rightarrow> bytes \<Rightarrow> string \<Rightarrow> 's \<Rightarrow> (py_error + unit) \<times> 's"
  s3_copy :: "string \<Rightarrow> string \<Rightarrow> 's \<Rightarrow> (py_error + string \<times> string option) \<times> 's"
  s3_delete :: "string \<Rightarrow> 's \<Rightarrow> (py_error + unit) \<times> 's"
  s3_get :: "string \<Rightarrow> 's \<Rightarrow> (py_error + bytes \<times> string) \<times> 's"
  s3_list :: "string \<Rightarrow> 's \<Rightarrow> (py_error + string list) \<times> 's"

definition head_of :: "s3_object \<Rightarrow> head_response" where
  "head_of ob = \<lparr>h_etag = ob_etag ob, h_version = ob_version ob, h_sha256 = ob_sha256 ob,
                 h_length = int (length (ob_body ob))\<rparr>"

type_synonym bucket = "string \<Rightarrow> s3_object option"

text \<open>\<open>b'\<close> is \<open>b\<close> with an object of the given body and digest at key \<open>k\<close>.\<close>

definition writes :: "bucket \<Rightarrow> string \<Rightarrow> bytes \<Rightarrow> string option \<Rightarrow> bucket \<Rightarrow> bool" where
  "writes b k d h b' \<longleftrightarrow> (\<exists>ob. ob_body ob = d \<and> ob_sha256 ob = h \<and> b' = b(k \<mapsto> ob))"

definition head_law :: "'s s3 \<Rightarrow> ('s \<Rightarrow> bucket) \<Rightarrow> bool" where
  "head_law c view \<longleftrightarrow>
     (\<forall>k s r s'. s3_head c k s = (r, s') \<longrightarrow> view s' = view s \<and>
        (\<forall>h. r = Inr h \<longrightarrow> (\<exists>ob. view s k = Some ob \<and> h = head_of ob)) \<and>
        (r = Inl (ClientError ''404'') \<longrightarrow> view s k = None))"

definition write_law :: "(string \<Rightarrow> bytes \<Rightarrow> string \<Rightarrow> 's \<Rightarrow> (py_error + 'a) \<times> 's) \<Rightarrow> ('s \<Rightarrow> bucket) \<Rightarrow> bool" where
  "write_law w view \<longleftrightarrow>
     (\<forall>k d h s r s'. w k d h s = (r, s') \<longrightarrow>
        (\<forall>x. r = Inr x \<longrightarrow> writes (view s) k d (Some h) (view s')) \<and>
        (view s' = view s \<or> writes (view s) k d (Some h) (view s')))"

definition copy_law :: "'s s3 \<Rightarrow> ('s \<Rightarrow> bucket) \<Rightarrow> bool" where
  "copy_law c view \<longleftrightarrow>
     (\<forall>src dst s r s'. s3_copy c src dst s = (r, s') \<longrightarrow>
        (\<forall>x. r = Inr x \<longrightarrow> (\<exists>ob. view s src = Some ob \<and> writes (view s) dst (ob_body ob) (ob_sha256 ob) (view s'))) \<and>
        (view s' = view s \<or>
         (\<exists>ob. view s src = Some ob \<and> writes (view s) dst (ob_body ob) (ob_sha256 ob) (view s'))))"

definition delete_law :: "'s s3 \<Rightarrow> ('s \<Rightarrow> bucket) \<Rightarrow> bool" where
  "delete_law c view \<longleftrightarrow>
     (\<forall>k s r s'. s3_delete c k s = (r, s') \<longrightarrow>
        (r = Inr () \<longrightarrow> view s' = (view s)(k := None)) \<and>
        (view s' = view s \<or> view s' = (view s)(k := None)))"

definition read_law :: "'s s3 \<Rightarrow> ('s \<Rightarrow> bucket) \<Rightarrow> bool" where
  "read_law c view \<longleftrightarrow>
     (\<forall>k s r s'. s3_get c k s = (r, s') \<longrightarrow> view s' = view s \<and>
        (\<forall>b. r = Inr b \<longrightarrow> (\<exists>ob. view s k = Some ob \<and> b = (ob_body ob, ob_etag ob)))) \<and>
     (\<forall>p s r s'. s3_list c p s = (r, s') \<longrightarrow> view s' = view s \<and>
        (\<forall>ks. r = Inr ks \<longrightarrow> set ks = {k. view s k \<noteq> None \<and> starts_with k p}))"

definition s3_laws :: "'s s3 \<Rightarrow> ('s \<Rightarrow> bucket) \<Rightarrow> bool" where
  "s3_laws c view \<longleftrightarrow> head_law c view \<and> write_law (s3_put c) view \<and> write_law (s3_upload c) view \<and>
     copy_law c view \<and> delete_law c view \<and> read_law c view"

section \<open>Consequences\<close>

lemma head_view: "s3_laws c v \<Longrightarrow> s3_head c k s = (r, s') \<Longrightarrow> v s' = v s"
  by (auto simp: s3_laws_def head_law_def)

lemma head_found: "s3_laws c v \<Longrightarrow> s3_head c k s = (Inr h, s') \<Longrightarrow> \<exists>ob. v s k = Some ob \<and> h = head_of ob"
  unfolding s3_laws_def head_law_def by blast

lemma head_missing: "s3_laws c v \<Longrightarrow> s3_head c k s = (Inl (ClientError ''404''), s') \<Longrightarrow> v s k = None"
  unfolding s3_laws_def head_law_def by blast

lemma put_writes:
  assumes "s3_laws c v" "s3_put c k d h s = (r, s')"
  shows "r = Inr x \<Longrightarrow> writes (v s) k d (Some h) (v s')" "v s' = v s \<or> writes (v s) k d (Some h) (v s')"
  using assms unfolding s3_laws_def write_law_def by blast+

lemma upload_writes:
  assumes "s3_laws c v" "s3_upload c k d h s = (r, s')"
  shows "r = Inr x \<Longrightarrow> writes (v s) k d (Some h) (v s')" "v s' = v s \<or> writes (v s) k d (Some h) (v s')"
  using assms unfolding s3_laws_def write_law_def by blast+

lemma copy_writes:
  assumes "s3_laws c v" "s3_copy c src dst s = (r, s')"
  shows "r = Inr x \<Longrightarrow> \<exists>ob. v s src = Some ob \<and> writes (v s) dst (ob_body ob) (ob_sha256 ob) (v s')"
    "v s' = v s \<or> (\<exists>ob. v s src = Some ob \<and> writes (v s) dst (ob_body ob) (ob_sha256 ob) (v s'))"
  using assms unfolding s3_laws_def copy_law_def by blast+

lemma delete_view:
  assumes "s3_laws c v" "s3_delete c k s = (r, s')"
  shows "r = Inr () \<Longrightarrow> v s' = (v s)(k := None)" "v s' = v s \<or> v s' = (v s)(k := None)"
  using assms unfolding s3_laws_def delete_law_def by blast+

lemma get_view: "s3_laws c v \<Longrightarrow> s3_get c k s = (r, s') \<Longrightarrow> v s' = v s"
  by (auto simp: s3_laws_def read_law_def)

lemma list_view: "s3_laws c v \<Longrightarrow> s3_list c p s = (r, s') \<Longrightarrow> v s' = v s"
  by (auto simp: s3_laws_def read_law_def)

lemma list_keys: "s3_laws c v \<Longrightarrow> s3_list c p s = (Inr ks, s') \<Longrightarrow> set ks = {k. v s k \<noteq> None \<and> starts_with k p}"
  by (auto simp: s3_laws_def read_law_def)

lemma get_body:
  assumes "s3_laws c v" "s3_get c k s = (Inr b, s')"
  shows "\<exists>ob. v s k = Some ob \<and> b = (ob_body ob, ob_etag ob)"
  using assms(1) [unfolded s3_laws_def read_law_def] assms(2) by blast

section \<open>A store in memory\<close>

record mem =
  m_up :: bool
  m_objects :: "(string \<times> s3_object) list"

definition mem_view :: "mem \<Rightarrow> bucket" where
  "mem_view m = map_of (m_objects m)"

definition mem_store :: "string \<Rightarrow> bytes \<Rightarrow> string option \<Rightarrow> mem \<Rightarrow> mem" where
  "mem_store k d h m =
     m\<lparr>m_objects := AList.update k \<lparr>ob_body = d, ob_sha256 = h, ob_etag = ''e'', ob_version = Some ''v''\<rparr> (m_objects m)\<rparr>"

definition when_up :: "mem \<Rightarrow> (py_error + 'a) \<times> mem \<Rightarrow> (py_error + 'a) \<times> mem" where
  "when_up m r = (if m_up m then r else (Inl EndpointConnectionError, m))"

definition mem_s3 :: "mem s3" where
  "mem_s3 =
     \<lparr>s3_head = (\<lambda>k m. when_up m (case mem_view m k of None \<Rightarrow> (Inl (ClientError ''404''), m)
                                   | Some ob \<Rightarrow> (Inr (head_of ob), m))),
      s3_put = (\<lambda>k d h m. when_up m (Inr ''e'', mem_store k d (Some h) m)),
      s3_upload = (\<lambda>k d h m. when_up m (Inr (), mem_store k d (Some h) m)),
      s3_copy = (\<lambda>src dst m. when_up m (case mem_view m src of None \<Rightarrow> (Inl (ClientError ''404''), m)
                   | Some ob \<Rightarrow> (Inr (''e'', Some ''v''), mem_store dst (ob_body ob) (ob_sha256 ob) m))),
      s3_delete = (\<lambda>k m. when_up m (Inr (), m\<lparr>m_objects := AList.delete k (m_objects m)\<rparr>)),
      s3_get = (\<lambda>k m. when_up m (case mem_view m k of None \<Rightarrow> (Inl (ClientError ''404''), m)
                                  | Some ob \<Rightarrow> (Inr (ob_body ob, ob_etag ob), m))),
      s3_list = (\<lambda>p m. when_up m (Inr (filter (\<lambda>k. starts_with k p) (map fst (m_objects m))), m))\<rparr>"

lemma mem_store_writes: "writes (mem_view m) k d h (mem_view (mem_store k d h m))"
  unfolding writes_def mem_view_def mem_store_def
  by (intro exI [of _ "\<lparr>ob_body = d, ob_sha256 = h, ob_etag = ''e'', ob_version = Some ''v''\<rparr>"])
    (simp add: update_conv')

lemma mem_view_delete: "mem_view (m\<lparr>m_objects := AList.delete k (m_objects m)\<rparr>) = (mem_view m)(k := None)"
  by (simp add: mem_view_def delete_conv')

lemma mem_laws: "s3_laws mem_s3 mem_view"
proof -
  have "head_law mem_s3 mem_view"
    by (auto simp: head_law_def mem_s3_def when_up_def split: if_splits option.splits)
  moreover have "write_law (s3_put mem_s3) mem_view" "write_law (s3_upload mem_s3) mem_view"
    by (auto simp: write_law_def mem_s3_def when_up_def mem_store_writes split: if_splits)
  moreover have "copy_law mem_s3 mem_view"
    by (auto simp: copy_law_def mem_s3_def when_up_def mem_store_writes split: if_splits option.splits)
  moreover have "delete_law mem_s3 mem_view"
    by (auto simp: delete_law_def mem_s3_def when_up_def mem_view_delete split: if_splits)
  moreover have "read_law mem_s3 mem_view"
    by (auto simp: read_law_def mem_s3_def when_up_def mem_view_def map_of_eq_None_iff split: if_splits option.splits)
  ultimately show ?thesis by (simp add: s3_laws_def)
qed

end
