(* ===== verification/RetryQueue.thy ===== *)
theory RetryQueue
  imports Prelude
begin

text \<open>
  \<^verbatim>\<open>nas_storage/retry_queue.py\<close>: the persistent backlog of uploads that could not be made.

  The state is the SQLite table (rows in insertion order) and the directory of payload files.
  \<^verbatim>\<open>ORDER BY enqueue_ts\<close> is a stable sort, \<^verbatim>\<open>LIMIT 1\<close> its head. Values that come from outside during
  a call (clock readings, the \<^verbatim>\<open>uuid4\<close> identifier, whether the payload file could be written) are a
  record. Each method runs under the lock, so it is one step; metrics and permissions
  have no effect on the state.

  Two interfaces are locales: what the uploader may rely on when it hands a payload to the
  backlog (\<open>backlog\<close>), and what draining relies on in the uploader's \<^verbatim>\<open>put\<close> (\<open>put_interface\<close>).
\<close>

section \<open>Model\<close>

datatype qstate = Pending | Quarantined

record qrow =
  r_id :: string
  r_key :: string
  r_sha256 :: string
  r_payload_file :: string
  r_payload_bytes :: int
  r_state :: qstate
  r_enqueue_ts :: seconds
  r_updated_ts :: "seconds option"

record rq =
  rq_rows :: "qrow list"
  rq_payloads :: "(string \<times> bytes) list"
  rq_max_segments :: int
  rq_max_bytes :: int
  rq_hard_floor :: int

record qenv =
  qe_id :: string
  qe_now :: seconds
  qe_quarantine_now :: seconds
  qe_write_ok :: bool

datatype enqueue_status = EnqOk | HardFloorBlocked

definition active_count :: "rq \<Rightarrow> int" where
  "active_count q = int (length (filter (\<lambda>r. r_state r \<in> {Pending, Quarantined}) (rq_rows q)))"

definition pending_rows :: "rq \<Rightarrow> qrow list" where
  "pending_rows q = filter (\<lambda>r. r_state r = Pending) (rq_rows q)"

definition depth :: "bool \<Rightarrow> rq \<Rightarrow> int" where
  "depth include_quarantined q =
     (if include_quarantined then active_count q else int (length (pending_rows q)))"

definition total_bytes :: "bool \<Rightarrow> rq \<Rightarrow> int" where
  "total_bytes include_quarantined q =
     (if include_quarantined
      then (\<Sum>r\<leftarrow>filter (\<lambda>r. r_state r \<in> {Pending, Quarantined}) (rq_rows q). r_payload_bytes r)
      else (\<Sum>r\<leftarrow>pending_rows q. r_payload_bytes r))"

definition resume_on_startup :: "rq \<Rightarrow> int" where
  "resume_on_startup q = depth True q"

definition set_quarantined :: "string \<Rightarrow> seconds \<Rightarrow> qrow \<Rightarrow> qrow" where
  "set_quarantined i now r =
     (if r_id r = i then r\<lparr>r_state := Quarantined, r_updated_ts := Some now\<rparr> else r)"

definition quarantine_oldest :: "seconds \<Rightarrow> rq \<Rightarrow> rq" where
  "quarantine_oldest now q =
     (case sort_key r_enqueue_ts (pending_rows q) of
        [] \<Rightarrow> q
      | r # _ \<Rightarrow> q\<lparr>rq_rows := map (set_quarantined (r_id r) now) (rq_rows q)\<rparr>)"

definition threshold_breached :: "rq \<Rightarrow> int \<Rightarrow> bool" where
  "threshold_breached q payload_bytes \<longleftrightarrow>
     rq_max_segments q \<le> int (length (pending_rows q)) \<or>
     rq_max_bytes q < total_bytes False q + payload_bytes"

definition enqueue ::
  "qenv \<Rightarrow> string \<Rightarrow> bytes \<Rightarrow> string \<Rightarrow> rq \<Rightarrow> (py_error + enqueue_status) \<times> rq" where
  "enqueue e key data sha256 q =
     (let payload_bytes = int (length data) in
      if rq_hard_floor q \<le> active_count q then (Inr HardFloorBlocked, q)
      else let q1 = (if threshold_breached q payload_bytes then quarantine_oldest (qe_quarantine_now e) q else q);
               file = qe_id e @ ''.bin'' in
           if \<not> qe_write_ok e then (Inl OSError, q1)
           else let q2 = q1\<lparr>rq_payloads := AList.update file data (rq_payloads q1)\<rparr> in
                if qe_id e \<in> r_id ` set (rq_rows q2)
                then (Inl IntegrityError, q2\<lparr>rq_payloads := AList.delete file (rq_payloads q2)\<rparr>)
                else (Inr EnqOk,
                      q2\<lparr>rq_rows := rq_rows q2 @
                          [\<lparr>r_id = qe_id e, r_key = key, r_sha256 = sha256, r_payload_file = file,
                            r_payload_bytes = payload_bytes, r_state = Pending, r_enqueue_ts = qe_now e,
                            r_updated_ts = None\<rparr>]\<rparr>))"

text \<open>The uploader's result, as far as draining looks at it.\<close>

datatype put_status = Uploaded | SkippedIdempotent | Queued | PutHardFloorBlocked | SkippedEtagOverwrite

record drain_stats =
  ds_drained :: nat
  ds_failed :: nat
  ds_skipped :: nat

type_synonym 's putter = "string \<Rightarrow> bytes \<Rightarrow> string \<Rightarrow> 's \<Rightarrow> (py_error + put_status) \<times> 's"

text \<open>
  One iteration of either cycle. Every exception of \<^verbatim>\<open>put\<close> is caught and the row retained; the
  back-off after throttling only sleeps.
\<close>

definition drain_row :: "'s putter \<Rightarrow> qrow \<Rightarrow> drain_stats \<times> rq \<times> 's \<Rightarrow> drain_stats \<times> rq \<times> 's" where
  "drain_row put r st =
     (case st of (stats, q, s) \<Rightarrow>
        case map_of (rq_payloads q) (r_payload_file r) of
          None \<Rightarrow> (stats\<lparr>ds_skipped := Suc (ds_skipped stats)\<rparr>, q, s)
        | Some data \<Rightarrow>
            (case put (r_key r) data (r_sha256 r) s of
               (Inl e, s') \<Rightarrow> (stats\<lparr>ds_failed := Suc (ds_failed stats)\<rparr>, q, s')
             | (Inr status, s') \<Rightarrow>
                 if status = Queued then (stats\<lparr>ds_failed := Suc (ds_failed stats)\<rparr>, q, s')
                 else (stats\<lparr>ds_drained := Suc (ds_drained stats)\<rparr>,
                       q\<lparr>rq_rows := filter (\<lambda>x. r_id x \<noteq> r_id r) (rq_rows q),
                         rq_payloads := AList.delete (r_payload_file r) (rq_payloads q)\<rparr>, s')))"

definition snapshot :: "qstate \<Rightarrow> rq \<Rightarrow> qrow list" where
  "snapshot k q = sort_key r_enqueue_ts (filter (\<lambda>r. r_state r = k) (rq_rows q))"

definition drain_cycle :: "'s putter \<Rightarrow> qstate \<Rightarrow> drain_stats \<times> rq \<times> 's \<Rightarrow> drain_stats \<times> rq \<times> 's" where
  "drain_cycle put k st =
     fold (drain_row put) (snapshot k (fst (snd st))) st"

definition drain :: "'s putter \<Rightarrow> rq \<Rightarrow> 's \<Rightarrow> drain_stats \<times> rq \<times> 's" where
  "drain put q s =
     drain_cycle put Quarantined
       (drain_cycle put Pending (\<lparr>ds_drained = 0, ds_failed = 0, ds_skipped = 0\<rparr>, q, s))"

section \<open>Well-formed queues\<close>

text \<open>What the backlog holds: the key, the digest and the payload of each row.\<close>

definition row_item :: "(string \<times> bytes) list \<Rightarrow> qrow \<Rightarrow> (string \<times> string \<times> bytes) list" where
  "row_item payloads r =
     (case map_of payloads (r_payload_file r) of None \<Rightarrow> [] | Some d \<Rightarrow> [(r_key r, r_sha256 r, d)])"

definition items :: "rq \<Rightarrow> (string \<times> string \<times> bytes) set" where
  "items q = set (concat (map (row_item (rq_payloads q)) (rq_rows q)))"

definition row_ok :: "(string \<times> bytes) list \<Rightarrow> qrow \<Rightarrow> bool" where
  "row_ok payloads r \<longleftrightarrow> r_payload_file r = r_id r @ ''.bin'' \<and>
     (case map_of payloads (r_payload_file r) of None \<Rightarrow> False | Some d \<Rightarrow> r_payload_bytes r = int (length d))"

definition rq_ok :: "rq \<Rightarrow> bool" where
  "rq_ok q \<longleftrightarrow> distinct (map r_id (rq_rows q)) \<and> list_all (row_ok (rq_payloads q)) (rq_rows q) \<and>
     active_count q \<le> max 0 (rq_hard_floor q)"

lemma all_active: "r_state r \<in> {Pending, Quarantined}"
  by (cases "r_state r") auto

lemma active_count_length: "active_count q = int (length (rq_rows q))"
proof -
  have "filter (\<lambda>r. r_state r \<in> {Pending, Quarantined}) (rq_rows q) = rq_rows q"
    by (rule filter_True, intro ballI, rule all_active)
  then show ?thesis unfolding active_count_def by (simp only:)
qed

lemma set_quarantined_simps [simp]:
  "r_id (set_quarantined i n r) = r_id r" "r_key (set_quarantined i n r) = r_key r"
  "r_sha256 (set_quarantined i n r) = r_sha256 r" "r_payload_file (set_quarantined i n r) = r_payload_file r"
  "r_payload_bytes (set_quarantined i n r) = r_payload_bytes r" "r_enqueue_ts (set_quarantined i n r) = r_enqueue_ts r"
  by (simp_all add: set_quarantined_def)

lemma quarantine_oldest_simps [simp]:
  "rq_payloads (quarantine_oldest n q) = rq_payloads q" "rq_hard_floor (quarantine_oldest n q) = rq_hard_floor q"
  "rq_max_segments (quarantine_oldest n q) = rq_max_segments q" "rq_max_bytes (quarantine_oldest n q) = rq_max_bytes q"
  by (simp_all add: quarantine_oldest_def split: list.splits)

lemma quarantine_oldest_map:
  "\<exists>f. rq_rows (quarantine_oldest n q) = map f (rq_rows q) \<and> (\<exists>i. f = set_quarantined i n \<or> f = id)"
  by (auto simp: quarantine_oldest_def split: list.splits intro: exI [of _ id])

lemma row_ok_set_quarantined [simp]: "row_ok p (set_quarantined i n r) = row_ok p r"
  by (simp add: row_ok_def split: option.splits)

lemma quarantine_oldest_keeps:
  "items (quarantine_oldest n q) = items q" "r_id ` set (rq_rows (quarantine_oldest n q)) = r_id ` set (rq_rows q)"
  "rq_ok (quarantine_oldest n q) = rq_ok q"
proof -
  obtain f i where f: "rq_rows (quarantine_oldest n q) = map f (rq_rows q)" "f = set_quarantined i n \<or> f = id"
    using quarantine_oldest_map by blast
  have s: "r_key (f r) = r_key r" "r_sha256 (f r) = r_sha256 r" "r_payload_file (f r) = r_payload_file r"
    "r_id (f r) = r_id r" "row_ok p (f r) = row_ok p r" for r p
    using f(2) by auto
  have "row_item p \<circ> f = row_item p" for p by (rule ext) (simp add: row_item_def s split: option.splits)
  then show "items (quarantine_oldest n q) = items q" by (simp add: items_def f(1))
  show "r_id ` set (rq_rows (quarantine_oldest n q)) = r_id ` set (rq_rows q)" by (simp add: f(1) s image_image)
  have "r_id \<circ> f = r_id" by (auto simp: s)
  then show "rq_ok (quarantine_oldest n q) = rq_ok q"
    by (simp add: rq_ok_def f(1) active_count_length list_all_iff s)
qed

definition fresh :: "qenv \<Rightarrow> rq \<Rightarrow> bool" where
  "fresh e q \<longleftrightarrow> qe_id e \<notin> r_id ` set (rq_rows q)"

lemma row_ok_new_payload: "r_id r \<noteq> i \<Longrightarrow> row_ok (AList.update (i @ ''.bin'') d p) r = row_ok p r"
  by (auto simp: row_ok_def map_of_update_Some)

lemma list_all_row_ok_new:
  "i \<notin> r_id ` set rs \<Longrightarrow> list_all (row_ok (AList.update (i @ ''.bin'') d p)) rs = list_all (row_ok p) rs"
  by (induction rs) (auto simp: row_ok_new_payload)

text \<open>The three outcomes of \<open>enqueue\<close> on a well-formed queue with a fresh identifier.\<close>

lemma enqueue_cases:
  assumes "rq_ok q" "fresh e q" "enqueue e k d h q = (res, q')"
  shows "(res = Inr HardFloorBlocked \<and> q' = q \<and> rq_hard_floor q \<le> active_count q) \<or>
         (res = Inl OSError \<and> \<not> qe_write_ok e \<and> rq_ok q' \<and> items q' = items q) \<or>
         (res = Inr EnqOk \<and> rq_ok q' \<and> items q' = insert (k, h, d) (items q) \<and>
          active_count q' = active_count q + 1)"
proof -
  define q1 where "q1 = (if threshold_breached q (int (length d)) then quarantine_oldest (qe_quarantine_now e) q else q)"
  let ?f = "qe_id e @ ''.bin''"
  let ?row = "\<lparr>r_id = qe_id e, r_key = k, r_sha256 = h, r_payload_file = ?f, r_payload_bytes = int (length d),
    r_state = Pending, r_enqueue_ts = qe_now e, r_updated_ts = None\<rparr>"
  let ?q2 = "q1\<lparr>rq_payloads := AList.update ?f d (rq_payloads q), rq_rows := rq_rows q1 @ [?row]\<rparr>"
  have q1: "rq_ok q1" "items q1 = items q" "r_id ` set (rq_rows q1) = r_id ` set (rq_rows q)"
    "rq_payloads q1 = rq_payloads q" "rq_hard_floor q1 = rq_hard_floor q" "length (rq_rows q1) = length (rq_rows q)"
    using assms(1) quarantine_oldest_map [of "qe_quarantine_now e" q] by (auto simp: quarantine_oldest_keeps q1_def)
  have fr: "qe_id e \<notin> r_id ` set (rq_rows q1)" using assms(2) q1(3) by (simp add: fresh_def)
  have files: "r_payload_file r \<noteq> ?f" if "r \<in> set (rq_rows q1)" for r
  proof -
    have "r_payload_file r = r_id r @ ''.bin''" using q1(1) that by (auto simp: rq_ok_def list_all_iff row_ok_def)
    with fr that show ?thesis by (metis append_same_eq imageI)
  qed
  have "row_item (AList.update ?f d (rq_payloads q)) r = row_item (rq_payloads q1) r" if "r \<in> set (rq_rows q1)" for r
    using files [OF that] q1(4) by (simp add: row_item_def map_of_update_Some)
  then have "map (row_item (AList.update ?f d (rq_payloads q))) (rq_rows q1) = map (row_item (rq_payloads q1)) (rq_rows q1)"
    by (intro map_cong refl) blast
  then have it: "items ?q2 = insert (k, h, d) (items q1)"
    by (simp add: items_def row_item_def [of _ ?row] map_of_update_Some)
  have ok2: "rq_ok ?q2" if "active_count q < rq_hard_floor q"
    using q1(1,4,5,6) fr that list_all_row_ok_new [OF fr, of d "rq_payloads q"]
    by (simp add: rq_ok_def active_count_length row_ok_def map_of_update_Some)
  have cnt: "active_count ?q2 = active_count q + 1" by (simp add: active_count_length q1(6))
  show ?thesis
  proof (cases "rq_hard_floor q \<le> active_count q")
    case True
    with assms(3) show ?thesis by (simp add: enqueue_def Let_def)
  next
    case False
    show ?thesis
    proof (cases "qe_write_ok e")
      case True
      have "enqueue e k d h q = (Inr EnqOk, ?q2)"
        using False True fr q1(4) by (simp add: enqueue_def Let_def q1_def [symmetric])
      with assms(3) it ok2 cnt q1(2) False show ?thesis by auto
    next
      case f: False
      have "enqueue e k d h q = (Inl OSError, q1)" using False f by (simp add: enqueue_def Let_def q1_def [symmetric])
      with assms(3) q1(1,2) f show ?thesis by auto
    qed
  qed
qed

section \<open>What the uploader relies on\<close>

locale backlog =
  fixes enq :: "'e \<Rightarrow> string \<Rightarrow> bytes \<Rightarrow> string \<Rightarrow> 'q \<Rightarrow> (py_error + enqueue_status) \<times> 'q"
    and held :: "'q \<Rightarrow> (string \<times> string \<times> bytes) set"
    and ready :: "'e \<Rightarrow> 'q \<Rightarrow> bool"
  assumes enq_keeps: "ready e q \<Longrightarrow> enq e k d h q = (res, q') \<Longrightarrow> held q \<subseteq> held q'"
    and enq_holds: "ready e q \<Longrightarrow> enq e k d h q = (Inr EnqOk, q') \<Longrightarrow> (k, h, d) \<in> held q'"
    and enq_blocked: "ready e q \<Longrightarrow> enq e k d h q = (Inr HardFloorBlocked, q') \<Longrightarrow> q' = q"
begin

text \<open>A payload is in the backlog, or the caller is told and keeps it.\<close>

lemma enq_outcome:
  assumes "ready e q" "enq e k d h q = (res, q')"
  shows "held q \<subseteq> held q' \<and>
         (case res of Inr EnqOk \<Rightarrow> (k, h, d) \<in> held q' | Inr HardFloorBlocked \<Rightarrow> held q' = held q | Inl _ \<Rightarrow> True)"
  using enq_keeps [OF assms] enq_holds [OF assms(1), of k d h q'] enq_blocked [OF assms(1), of k d h q'] assms(2)
  by (auto split: sum.splits enqueue_status.splits)

end

interpretation queue: backlog enqueue items "\<lambda>e q. rq_ok q \<and> fresh e q"
proof unfold_locales
  fix e q k d h res q'
  assume "rq_ok q \<and> fresh e q" "enqueue e k d h q = (res, q')"
  then show "items q \<subseteq> items q'" using enqueue_cases [of q e k d h res q'] by auto
next
  fix e q k d h q'
  assume "rq_ok q \<and> fresh e q" "enqueue e k d h q = (Inr EnqOk, q')"
  then show "(k, h, d) \<in> items q'" using enqueue_cases [of q e k d h "Inr EnqOk" q'] by auto
next
  fix e q k d h q'
  assume "rq_ok q \<and> fresh e q" "enqueue e k d h q = (Inr HardFloorBlocked, q')"
  then show "q' = q" using enqueue_cases [of q e k d h "Inr HardFloorBlocked" q'] by auto
qed

section \<open>Draining\<close>

text \<open>Counters and rows of one iteration and of a cycle, whatever \<^verbatim>\<open>put\<close> does.\<close>

definition attempts :: "drain_stats \<Rightarrow> nat" where
  "attempts st = ds_drained st + ds_failed st + ds_skipped st"

lemma drain_row_rows:
  assumes "drain_row put r (st, q, s) = (st', q', s')"
  shows "attempts st' = Suc (attempts st)"
    and "(q' = q \<and> ds_drained st' = ds_drained st) \<or>
         (rq_rows q' = filter (\<lambda>x. r_id x \<noteq> r_id r) (rq_rows q) \<and>
          rq_payloads q' = AList.delete (r_payload_file r) (rq_payloads q) \<and>
          rq_hard_floor q' = rq_hard_floor q \<and> ds_drained st' = Suc (ds_drained st))"
  using assms by (auto simp: drain_row_def attempts_def split: option.splits sum.splits prod.splits if_splits)

lemma filter_id_length:
  assumes "distinct (map r_id rs)" "r \<in> set rs"
  shows "Suc (length (filter (\<lambda>x. r_id x \<noteq> r_id r) rs)) = length rs"
  using assms
proof (induction rs)
  case (Cons a rs)
  show ?case
  proof (cases "r_id a = r_id r")
    case True
    then have "\<forall>x\<in>set rs. r_id x \<noteq> r_id r" using Cons.prems(1) by (metis distinct.simps(2) image_eqI list.simps(9) set_map)
    then show ?thesis using True by simp
  next
    case False
    with Cons show ?thesis by auto
  qed
qed simp

lemma rq_ok_remove:
  assumes "rq_ok q" "r \<in> set (rq_rows q)"
    and "rq_rows q' = filter (\<lambda>x. r_id x \<noteq> r_id r) (rq_rows q)"
    and "rq_payloads q' = AList.delete (r_payload_file r) (rq_payloads q)" "rq_hard_floor q' = rq_hard_floor q"
  shows "rq_ok q'"
proof -
  have ok: "row_ok (rq_payloads q) x" if "x \<in> set (rq_rows q)" for x
    using assms(1) that by (simp add: rq_ok_def list_all_iff)
  have "row_ok (rq_payloads q') x" if "x \<in> set (rq_rows q')" for x
  proof -
    have x: "x \<in> set (rq_rows q)" "r_id x \<noteq> r_id r" using that assms(3) by auto
    then have "r_payload_file x \<noteq> r_payload_file r" using ok [OF x(1)] ok [OF assms(2)] by (auto simp: row_ok_def)
    then show ?thesis using ok [OF x(1)] by (auto simp: row_ok_def assms(4) delete_conv')
  qed
  moreover have "length (rq_rows q') \<le> length (rq_rows q)" by (simp add: assms(3))
  then have "active_count q' \<le> max 0 (rq_hard_floor q')"
    using assms(1) unfolding rq_ok_def active_count_length assms(5) by linarith
  moreover have "distinct (map r_id (rq_rows q'))"
    using assms(1) distinct_map_filter [of r_id "rq_rows q"] by (simp add: rq_ok_def assms(3))
  ultimately show ?thesis by (simp add: rq_ok_def list_all_iff)
qed

lemma drain_rows_count:
  assumes "fold (drain_row put) rs (st, q, s) = (st', q', s')" "rq_ok q" "distinct (map r_id rs)" "set rs \<subseteq> set (rq_rows q)"
  shows "attempts st' = attempts st + length rs \<and> rq_ok q' \<and> set (rq_rows q') \<subseteq> set (rq_rows q) \<and>
         length (rq_rows q') + ds_drained st' = length (rq_rows q) + ds_drained st \<and>
         (\<forall>x\<in>set (rq_rows q). x \<notin> set rs \<longrightarrow> x \<in> set (rq_rows q')) \<and>
         (\<forall>x\<in>set (rq_rows q'). map_of (rq_payloads q') (r_payload_file x) = map_of (rq_payloads q) (r_payload_file x))"
  using assms
proof (induction rs arbitrary: st q s)
  case Nil
  then show ?case by simp
next
  case (Cons r rs)
  obtain st1 q1 s1 where step: "drain_row put r (st, q, s) = (st1, q1, s1)" by (metis prod_cases3)
  have rest: "fold (drain_row put) rs (st1, q1, s1) = (st', q', s')" using Cons.prems(1) step by simp
  have r: "r \<in> set (rq_rows q)" using Cons.prems(4) by simp
  have ids: "x = r" if "x \<in> set (rq_rows q)" "r_id x = r_id r" for x
    using Cons.prems(2) that r by (auto simp: rq_ok_def distinct_map dest: inj_onD)
  from drain_row_rows [OF step] consider "q1 = q" "ds_drained st1 = ds_drained st"
    | "rq_rows q1 = filter (\<lambda>x. r_id x \<noteq> r_id r) (rq_rows q)"
      "rq_payloads q1 = AList.delete (r_payload_file r) (rq_payloads q)" "rq_hard_floor q1 = rq_hard_floor q"
      "ds_drained st1 = Suc (ds_drained st)" by blast
  then show ?case
  proof cases
    case 1
    from Cons.IH [OF rest] Cons.prems 1 drain_row_rows(1) [OF step] show ?thesis by auto
  next
    case 2
    have ok1: "rq_ok q1" by (rule rq_ok_remove [OF Cons.prems(2) r 2(1-3)])
    have len: "Suc (length (rq_rows q1)) = length (rq_rows q)"
      using filter_id_length [OF _ r] Cons.prems(2) by (simp add: 2(1) rq_ok_def)
    have "r_id x \<noteq> r_id r" if "x \<in> set rs" for x
      using Cons.prems(3) that by (metis distinct.simps(2) image_eqI list.simps(9) set_map)
    then have sub: "set rs \<subseteq> set (rq_rows q1)" using Cons.prems(4) by (auto simp: 2(1))
    have pfile: "r_payload_file x \<noteq> r_payload_file r" if "x \<in> set (rq_rows q1)" for x
    proof -
      have "x \<in> set (rq_rows q)" "r_id x \<noteq> r_id r" using that 2(1) by auto
      then show ?thesis using Cons.prems(2) r by (auto simp: rq_ok_def list_all_iff row_ok_def)
    qed
    note IH = Cons.IH [OF rest ok1 _ sub]
    have "set (rq_rows q') \<subseteq> set (rq_rows q1)" using IH Cons.prems(3) by simp
    with IH Cons.prems(3) len drain_row_rows(1) [OF step] ids pfile show ?thesis
      by (auto simp: 2(1,2,4) delete_conv')
  qed
qed

lemma snap_ok:
  assumes "rq_ok q"
  shows "distinct (map r_id (snapshot k q))" "set (snapshot k q) \<subseteq> set (rq_rows q)"
proof -
  have "distinct (map r_id (filter (\<lambda>r. r_state r = k) (rq_rows q)))"
    using assms distinct_map_filter by (auto simp: rq_ok_def)
  then show "distinct (map r_id (snapshot k q))" unfolding snapshot_def by (metis distinct_map distinct_sort set_sort)
qed (auto simp: snapshot_def)

locale put_interface =
  fixes put :: "'s putter" and stored :: "'s \<Rightarrow> string \<Rightarrow> string \<Rightarrow> bool" and sound :: bool
  assumes put_stores: "sound \<Longrightarrow> put k d h s = (Inr st, s') \<Longrightarrow> st \<noteq> Queued \<Longrightarrow> stored s' k h"
    and put_keeps: "sound \<Longrightarrow> put k d h s = (res, s') \<Longrightarrow> stored s k' h' \<Longrightarrow> stored s' k' h'"
begin

lemma drain_row_stored:
  assumes "sound" "drain_row put r (st, q, s) = (st', q', s')"
  shows "stored s k h \<Longrightarrow> stored s' k h" and "x \<in> set (rq_rows q) \<Longrightarrow> x \<notin> set (rq_rows q') \<Longrightarrow> r_id x = r_id r \<and> stored s' (r_key r) (r_sha256 r)"
proof -
  show "stored s k h \<Longrightarrow> stored s' k h"
    using assms put_keeps by (auto simp: drain_row_def split: option.splits sum.splits prod.splits if_splits)
  show "x \<in> set (rq_rows q) \<Longrightarrow> x \<notin> set (rq_rows q') \<Longrightarrow> r_id x = r_id r \<and> stored s' (r_key r) (r_sha256 r)"
    using assms put_stores by (auto simp: drain_row_def split: option.splits sum.splits prod.splits if_splits)
qed

lemma drain_rows_stored:
  assumes "sound" "fold (drain_row put) rs (st, q, s) = (st', q', s')" "rq_ok q" "set rs \<subseteq> set (rq_rows q)" "distinct (map r_id rs)"
  shows "(\<forall>k h. stored s k h \<longrightarrow> stored s' k h) \<and>
         (\<forall>x\<in>set (rq_rows q). x \<notin> set (rq_rows q') \<longrightarrow> stored s' (r_key x) (r_sha256 x))"
  using assms(2-)
proof (induction rs arbitrary: st q s)
  case Nil
  then show ?case by simp
next
  case (Cons r rs)
  obtain st1 q1 s1 where step: "drain_row put r (st, q, s) = (st1, q1, s1)" by (metis prod_cases3)
  have rest: "fold (drain_row put) rs (st1, q1, s1) = (st', q', s')" using Cons.prems(1) step by simp
  have one: "fold (drain_row put) [r] (st, q, s) = (st1, q1, s1)" using step by simp
  have "set [r] \<subseteq> set (rq_rows q)" using Cons.prems(3) by simp
  note c = drain_rows_count [OF one Cons.prems(2) _ this]
  have sub: "set rs \<subseteq> set (rq_rows q1)" using c Cons.prems(3,4) by auto
  have ok1: "rq_ok q1" using c by simp
  have IH: "(\<forall>k h. stored s1 k h \<longrightarrow> stored s' k h) \<and>
      (\<forall>x\<in>set (rq_rows q1). x \<notin> set (rq_rows q') \<longrightarrow> stored s' (r_key x) (r_sha256 x))"
    using Cons.IH [OF rest ok1 sub] Cons.prems(4) by simp
  have r: "x = r" if "x \<in> set (rq_rows q)" "r_id x = r_id r" for x
    using Cons.prems(2,3) that by (auto simp: rq_ok_def distinct_map dest: inj_onD)
  show ?case
    using IH drain_row_stored [OF assms(1) step] r by blast
qed

lemma drain_no_loss:
  assumes "sound" "rq_ok q" "drain put q s = (st, q', s')"
  shows "rq_ok q' \<and> set (rq_rows q') \<subseteq> set (rq_rows q) \<and>
         (\<forall>x\<in>set (rq_rows q). x \<in> set (rq_rows q') \<or> stored s' (r_key x) (r_sha256 x)) \<and>
         (\<forall>x\<in>set (rq_rows q'). map_of (rq_payloads q') (r_payload_file x) = map_of (rq_payloads q) (r_payload_file x)) \<and>
         length (rq_rows q') + ds_drained st = length (rq_rows q)"
proof -
  let ?st0 = "\<lparr>ds_drained = 0, ds_failed = 0, ds_skipped = 0\<rparr>"
  obtain st1 q1 s1 where c1: "fold (drain_row put) (snapshot Pending q) (?st0, q, s) = (st1, q1, s1)" by (metis prod_cases3)
  have c2: "fold (drain_row put) (snapshot Quarantined q1) (st1, q1, s1) = (st, q', s')"
    using assms(3) c1 by (simp add: drain_def drain_cycle_def)
  note n1 = drain_rows_count [OF c1 assms(2) snap_ok [OF assms(2)]]
  then have ok1: "rq_ok q1" by simp
  note n2 = drain_rows_count [OF c2 ok1 snap_ok [OF ok1]]
  note s1 = drain_rows_stored [OF assms(1) c1 assms(2) snap_ok(2,1) [OF assms(2)]]
  note s2 = drain_rows_stored [OF assms(1) c2 ok1 snap_ok(2,1) [OF ok1]]
  have "x \<in> set (rq_rows q') \<or> stored s' (r_key x) (r_sha256 x)" if "x \<in> set (rq_rows q)" for x
    using s1 s2 that by blast
  moreover have "map_of (rq_payloads q') (r_payload_file x) = map_of (rq_payloads q) (r_payload_file x)"
    if "x \<in> set (rq_rows q')" for x using n1 n2 that by auto
  ultimately show ?thesis using n1 n2 by auto
qed

end

section \<open>Order of demotion\<close>

definition oldest_pending :: "rq \<Rightarrow> qrow" where
  "oldest_pending q = hd (sort_key r_enqueue_ts (pending_rows q))"

lemma oldest_pending_min:
  assumes "pending_rows q \<noteq> []"
  shows "oldest_pending q \<in> set (pending_rows q)" "x \<in> set (pending_rows q) \<Longrightarrow> r_enqueue_ts (oldest_pending q) \<le> r_enqueue_ts x"
proof -
  let ?xs = "sort_key r_enqueue_ts (pending_rows q)"
  have ne: "?xs \<noteq> []" using assms by (metis set_empty set_sort)
  then show "oldest_pending q \<in> set (pending_rows q)" unfolding oldest_pending_def by (metis hd_in_set set_sort)
  assume "x \<in> set (pending_rows q)"
  then have "x \<in> set ?xs" by simp
  moreover have "sorted (map r_enqueue_ts ?xs)" by simp
  ultimately show "r_enqueue_ts (oldest_pending q) \<le> r_enqueue_ts x"
    unfolding oldest_pending_def using ne by (cases ?xs) auto
qed

lemma quarantine_oldest_pending:
  assumes "rq_ok q" "pending_rows q \<noteq> []"
  shows "pending_rows (quarantine_oldest n q) = filter (\<lambda>r. r_id r \<noteq> r_id (oldest_pending q)) (pending_rows q)"
proof -
  let ?o = "oldest_pending q"
  have "sort_key r_enqueue_ts (pending_rows q) \<noteq> []" using assms(2) by (metis set_empty set_sort)
  then have "rq_rows (quarantine_oldest n q) = map (set_quarantined (r_id ?o) n) (rq_rows q)"
    by (auto simp: quarantine_oldest_def oldest_pending_def split: list.splits)
  then have "pending_rows (quarantine_oldest n q) =
      map (set_quarantined (r_id ?o) n) (filter (\<lambda>r. r_state r = Pending \<and> r_id r \<noteq> r_id ?o) (rq_rows q))"
    by (simp add: pending_rows_def filter_map comp_def set_quarantined_def cong: filter_cong)
      (rule arg_cong [of _ _ "map _"], rule filter_cong, auto)
  also have "\<dots> = filter (\<lambda>r. r_state r = Pending \<and> r_id r \<noteq> r_id ?o) (rq_rows q)"
    by (rule map_idI) (auto simp: set_quarantined_def)
  finally show ?thesis by (simp add: pending_rows_def conj_commute)
qed

lemma quarantine_oldest_empty: "pending_rows q = [] \<Longrightarrow> quarantine_oldest n q = q"
  by (simp add: quarantine_oldest_def)

lemma length_pending_quarantine:
  assumes "rq_ok q" "pending_rows q \<noteq> []"
  shows "Suc (length (pending_rows (quarantine_oldest n q))) = length (pending_rows q)"
proof -
  have "distinct (map r_id (pending_rows q))"
    using assms(1) distinct_map_filter by (auto simp: rq_ok_def pending_rows_def)
  from filter_id_length [OF this oldest_pending_min(1) [OF assms(2)]] show ?thesis
    by (simp add: quarantine_oldest_pending [OF assms])
qed

section \<open>Draining when the store accepts everything\<close>

lemma drain_rows_all:
  assumes "\<forall>k d h s. \<exists>s'. put k d h s = (Inr Uploaded, s')"
    and "fold (drain_row put) rs (st, q, s) = (st', q', s')" "rq_ok q" "distinct (map r_id rs)" "set rs \<subseteq> set (rq_rows q)"
  shows "ds_drained st' = ds_drained st + length rs"
  using assms(2-)
proof (induction rs arbitrary: st q s)
  case Nil
  then show ?case by simp
next
  case (Cons r rs)
  obtain st1 q1 s1 where step: "drain_row put r (st, q, s) = (st1, q1, s1)" by (metis prod_cases3)
  have rest: "fold (drain_row put) rs (st1, q1, s1) = (st', q', s')" using Cons.prems(1) step by simp
  have one: "fold (drain_row put) [r] (st, q, s) = (st1, q1, s1)" using step by simp
  have "set [r] \<subseteq> set (rq_rows q)" using Cons.prems(4) by simp
  note c = drain_rows_count [OF one Cons.prems(2) _ this]
  have sub: "set rs \<subseteq> set (rq_rows q1)" using c Cons.prems(3,4) by auto
  have "map_of (rq_payloads q) (r_payload_file r) \<noteq> None"
    using Cons.prems(2,4) by (auto simp: rq_ok_def list_all_iff row_ok_def split: option.splits)
  moreover obtain s2 where "put (r_key r) (the (map_of (rq_payloads q) (r_payload_file r))) (r_sha256 r) s = (Inr Uploaded, s2)"
    using assms(1) by blast
  ultimately have "ds_drained st1 = Suc (ds_drained st)" using step by (auto simp: drain_row_def)
  moreover have "ds_drained st' = ds_drained st1 + length rs"
    using Cons.IH [OF rest _ _ sub] c Cons.prems(3) by simp
  ultimately show ?case by simp
qed

section \<open>Properties\<close>

definition example_queue :: rq where
  "example_queue = \<lparr>rq_rows = [], rq_payloads = [], rq_max_segments = 1, rq_max_bytes = 10, rq_hard_floor = 2\<rparr>"

definition example_qenv :: "string \<Rightarrow> qenv" where
  "example_qenv i = \<lparr>qe_id = i, qe_now = 1, qe_quarantine_now = 1, qe_write_ok = True\<rparr>"

lemma example_queue_ok: "rq_ok example_queue" "fresh (example_qenv ''a'') example_queue"
  by (simp_all add: rq_ok_def example_queue_def active_count_def fresh_def)

lemma example_enqueue:
  "\<exists>q'. enqueue (example_qenv ''a'') ''k'' ''data'' ''h'' example_queue = (Inr EnqOk, q') \<and> rq_max_segments q' = 1"
  by (simp add: enqueue_def example_queue_def example_qenv_def active_count_def threshold_breached_def
      pending_rows_def total_bytes_def Let_def)

text \<open>
  C11. Nothing is dropped on the way into the backlog: on a well-formed queue with a fresh
  identifier, \<^verbatim>\<open>enqueue\<close> keeps everything held before and keeps the queue well formed (in particular
  at most \<open>hard_floor\<close> entries); it reports success exactly with the new payload held as
  well, refuses with the queue untouched exactly when the hard floor is reached, and otherwise
  raises because the payload file could not be written.
\<close>

theorem enqueue_never_drops:
  assumes "rq_ok q" "fresh e q" "enqueue e k d h q = (res, q')"
  shows "rq_ok q' \<and> items q \<subseteq> items q' \<and>
         (res = Inr EnqOk \<longrightarrow> (k, h, d) \<in> items q' \<and> active_count q' = active_count q + 1) \<and>
         (res = Inr HardFloorBlocked \<longleftrightarrow> rq_hard_floor q \<le> active_count q) \<and>
         (res = Inr HardFloorBlocked \<longrightarrow> q' = q) \<and>
         (\<forall>x. res = Inl x \<longrightarrow> x = OSError \<and> \<not> qe_write_ok e \<and> items q' = items q)"
proof -
  have "items q \<subseteq> items q'" using queue.enq_outcome [of q e k d h res q'] assms by auto
  moreover have "res = Inr HardFloorBlocked" if "rq_hard_floor q \<le> active_count q"
    using assms(3) that by (simp add: enqueue_def Let_def)
  ultimately show ?thesis using enqueue_cases [OF assms] assms(1) by auto
qed

theorem enqueue_never_drops_witness:
  "\<exists>res q'. enqueue (example_qenv ''a'') ''k'' ''data'' ''h'' example_queue = (res, q') \<and> rq_ok q' \<and>
     (res = Inr EnqOk \<longrightarrow> (''k'', ''h'', ''data'') \<in> items q')"
proof -
  obtain res q' where r: "enqueue (example_qenv ''a'') ''k'' ''data'' ''h'' example_queue = (res, q')" by fastforce
  from enqueue_never_drops [OF example_queue_ok r] r show ?thesis by blast
qed

text \<open>
  Bounded backlog and order of demotion: if the pending entries fit \<open>max_segments\<close> (at least
  one), they still do after a successful \<^verbatim>\<open>enqueue\<close>; when a threshold was breached, the pending
  entries afterwards are the former ones without one that had the smallest enqueue time,
  followed by the new one, and otherwise the former ones followed by the new one.
\<close>

lemma enqueue_demotes_oldest:
  assumes "rq_ok q" "fresh e q" "enqueue e k d h q = (Inr EnqOk, q')"
    and "1 \<le> rq_max_segments q" "int (length (pending_rows q)) \<le> rq_max_segments q"
  shows "int (length (pending_rows q')) \<le> rq_max_segments q' \<and>
         (\<exists>new. r_id new = qe_id e \<and> r_state new = Pending \<and>
            pending_rows q' =
              (if threshold_breached q (int (length d)) \<and> pending_rows q \<noteq> []
               then filter (\<lambda>r. r_id r \<noteq> r_id (oldest_pending q)) (pending_rows q) else pending_rows q) @ [new]) \<and>
         (\<forall>x\<in>set (pending_rows q). r_enqueue_ts (oldest_pending q) \<le> r_enqueue_ts x)"
proof -
  let ?b = "threshold_breached q (int (length d))"
  let ?q1 = "if ?b then quarantine_oldest (qe_quarantine_now e) q else q"
  have rows: "\<exists>new. r_id new = qe_id e \<and> r_state new = Pending \<and> rq_rows q' = rq_rows ?q1 @ [new]"
    "rq_max_segments q' = rq_max_segments q"
    using assms(3) by (auto simp: enqueue_def Let_def split: if_splits)
  then obtain new where new: "r_id new = qe_id e" "r_state new = Pending" "pending_rows q' = pending_rows ?q1 @ [new]"
    by (auto simp: pending_rows_def)
  have p1: "pending_rows ?q1 = (if ?b \<and> pending_rows q \<noteq> []
      then filter (\<lambda>r. r_id r \<noteq> r_id (oldest_pending q)) (pending_rows q) else pending_rows q)"
    using quarantine_oldest_pending [OF assms(1)] by (auto simp: quarantine_oldest_empty)
  have "int (length (pending_rows ?q1)) + 1 \<le> rq_max_segments q"
  proof (cases "?b \<and> pending_rows q \<noteq> []")
    case True
    then show ?thesis using length_pending_quarantine [OF assms(1), of "qe_quarantine_now e"] assms(5) by simp
  next
    case False
    then show ?thesis using assms(4,5) by (auto simp: threshold_breached_def quarantine_oldest_empty)
  qed
  then have "int (length (pending_rows q')) \<le> rq_max_segments q'" using new(3) rows(2) by simp
  moreover have "\<forall>x\<in>set (pending_rows q). r_enqueue_ts (oldest_pending q) \<le> r_enqueue_ts x"
    by (metis empty_iff empty_set oldest_pending_min(2))
  ultimately show ?thesis using new(1,2) new(3) [unfolded p1] by blast
qed

text \<open>
  Draining makes progress: if the store accepts every upload, one \<^verbatim>\<open>drain\<close> of a well-formed
  queue empties it, quarantined entries included.
\<close>

lemma drain_empties:
  assumes "\<forall>k d h s. \<exists>s'. put k d h s = (Inr Uploaded, s')" "rq_ok q" "drain put q s = (st, q', s')"
  shows "rq_rows q' = [] \<and> ds_drained st = length (rq_rows q)"
proof -
  let ?st0 = "\<lparr>ds_drained = 0, ds_failed = 0, ds_skipped = 0\<rparr>"
  obtain st1 q1 s1 where c1: "fold (drain_row put) (snapshot Pending q) (?st0, q, s) = (st1, q1, s1)" by (metis prod_cases3)
  have c2: "fold (drain_row put) (snapshot Quarantined q1) (st1, q1, s1) = (st, q', s')"
    using assms(3) c1 by (simp add: drain_def drain_cycle_def)
  note n1 = drain_rows_count [OF c1 assms(2) snap_ok [OF assms(2)]]
  then have ok1: "rq_ok q1" by simp
  note n2 = drain_rows_count [OF c2 ok1 snap_ok [OF ok1]]
  have d1: "ds_drained st1 = length (snapshot Pending q)"
    using drain_rows_all [OF assms(1) c1 assms(2) snap_ok [OF assms(2)]] by simp
  have d2: "ds_drained st = ds_drained st1 + length (snapshot Quarantined q1)"
    using drain_rows_all [OF assms(1) c2 ok1 snap_ok [OF ok1]] by simp
  let ?quar = "\<lambda>q. filter (\<lambda>r. r_state r = Quarantined) (rq_rows q)"
  have split: "length (filter (\<lambda>r. r_state r = Pending) rs) + length (filter (\<lambda>r. r_state r = Quarantined) rs) = length rs" for rs
  proof (induction rs)
    case (Cons r rs)
    then show ?case by (cases "r_state r") auto
  qed simp
  have dist: "distinct (?quar q)" if "rq_ok q" for q using that by (simp add: rq_ok_def distinct_map)
  have "set (?quar q) \<subseteq> set (?quar q1)" using n1 by (auto simp: snapshot_def)
  then have "length (?quar q) \<le> length (?quar q1)"
    using distinct_card [OF dist [OF assms(2)]] distinct_card [OF dist [OF ok1]] card_mono [of "set (?quar q1)" "set (?quar q)"]
    by (simp del: set_filter)
  moreover have "length (rq_rows q1) + ds_drained st1 = length (rq_rows q)"
    "length (rq_rows q') + ds_drained st = length (rq_rows q1) + ds_drained st1"
    using n1 n2 by simp_all
  moreover have "length (snapshot Pending q) = length (filter (\<lambda>r. r_state r = Pending) (rq_rows q))"
    "length (snapshot Quarantined q1) = length (?quar q1)"
    by (simp_all add: snapshot_def)
  ultimately have "length (rq_rows q') = 0 \<and> ds_drained st = length (rq_rows q)"
    using d1 d2 split [of "rq_rows q"] by linarith
  then show ?thesis by simp
qed

end
