(* ===== verification/NasUploader.thy ===== *)
theory NasUploader
  imports ObjectStore RetryQueue
begin

text \<open>
  \<^verbatim>\<open>nas_storage/nas_uploader.py\<close>: uploads to the object store with HEAD-then-PUT idempotency, the
  hand-over to the retry queue when the store cannot be reached, and server-side copies.

  The uploader's state is the store behind the client and the optional retry queue. A payload is
  its bytes; a digest not given by the caller is \<open>hash data\<close> for the parameter \<open>hash\<close> that
  stands for \<^verbatim>\<open>hashlib.sha256\<close>. Of a \<^verbatim>\<open>PutResult\<close> the model keeps the status; latencies, logging and
  metrics are left out. Lazy creation of the client is not modelled.

  The theory provides the \<open>put_interface\<close> that draining the retry queue relies on.
\<close>

section \<open>Model\<close>

definition fail_fast_code_to_reason :: "(string \<times> string) list" where
  "fail_fast_code_to_reason =
     [(''401'', ''auth_failed''), (''InvalidAccessKeyId'', ''auth_failed''),
      (''SignatureDoesNotMatch'', ''auth_failed''),
      (''403'', ''policy_denied''), (''AccessDenied'', ''policy_denied''),
      (''NoSuchBucket'', ''bucket_missing''),
      (''QuotaExceeded'', ''quota_exceeded''), (''StorageClassNotSupported'', ''quota_exceeded'')]"

definition classify_4xx :: "string \<Rightarrow> string option" where
  "classify_4xx code = map_of fail_fast_code_to_reason code"

record 's nas =
  n_store :: 's
  n_queue :: "rq option"

definition put_with_idempotency ::
  "'s s3 \<Rightarrow> string \<Rightarrow> bytes \<Rightarrow> string \<Rightarrow> 's \<Rightarrow> (py_error + put_status) \<times> 's" where
  "put_with_idempotency c key data sha256 s =
     (let do_put = (\<lambda>s1. case s3_put c key data sha256 s1 of
                           (Inl e, s2) \<Rightarrow> (Inl e, s2)
                         | (Inr etag, s2) \<Rightarrow> (Inr Uploaded, s2)) in
      case s3_head c key s of
        (Inr h, s1) \<Rightarrow>
          (case h_sha256 h of
             None \<Rightarrow> do_put s1
           | Some existing \<Rightarrow>
               if existing = sha256 then (Inr SkippedIdempotent, s1) else (Inl ConditionalWriteConflict, s1))
      | (Inl e, s1) \<Rightarrow> (if e = ClientError ''404'' then do_put s1 else (Inl e, s1)))"

text \<open>
  The part the two handlers share: hand the payload to the retry queue, if there is one, and
  report what it answered.
\<close>

definition queue_payload ::
  "qenv \<Rightarrow> string \<Rightarrow> bytes \<Rightarrow> string \<Rightarrow> 's nas \<Rightarrow> (py_error + put_status) \<times> 's nas" where
  "queue_payload e key data sha256 n =
     (case n_queue n of
        None \<Rightarrow> (Inr Queued, n)
      | Some q \<Rightarrow>
          (case enqueue e key data sha256 q of
             (Inl x, q') \<Rightarrow> (Inl x, n\<lparr>n_queue := Some q'\<rparr>)
           | (Inr HardFloorBlocked, q') \<Rightarrow> (Inr PutHardFloorBlocked, n\<lparr>n_queue := Some q'\<rparr>)
           | (Inr EnqOk, q') \<Rightarrow> (Inr Queued, n\<lparr>n_queue := Some q'\<rparr>)))"

definition put ::
  "'s s3 \<Rightarrow> (bytes \<Rightarrow> string) \<Rightarrow> qenv \<Rightarrow> string \<Rightarrow> bytes \<Rightarrow> string option \<Rightarrow> bool \<Rightarrow> 's nas
     \<Rightarrow> (py_error + put_status) \<times> 's nas" where
  "put c hash e key data sha256 suppress_enqueue n =
     (let sha = (case sha256 of None \<Rightarrow> hash data | Some h \<Rightarrow> h) in
      case put_with_idempotency c key data sha (n_store n) of
        (Inr st, s) \<Rightarrow> (Inr st, n\<lparr>n_store := s\<rparr>)
      | (Inl EndpointConnectionError, s) \<Rightarrow>
          if suppress_enqueue then (Inl EndpointConnectionError, n\<lparr>n_store := s\<rparr>)
          else queue_payload e key data sha (n\<lparr>n_store := s\<rparr>)
      | (Inl (ClientError code), s) \<Rightarrow>
          (case classify_4xx code of
             Some reason \<Rightarrow> (Inl (NASOperationalAlert code reason), n\<lparr>n_store := s\<rparr>)
           | None \<Rightarrow>
               if suppress_enqueue then (Inr Queued, n\<lparr>n_store := s\<rparr>)
               else queue_payload e key data sha (n\<lparr>n_store := s\<rparr>))
      | (Inl x, s) \<Rightarrow> (Inl x, n\<lparr>n_store := s\<rparr>))"

definition enqueue_retry :: "qenv \<Rightarrow> string \<Rightarrow> bytes \<Rightarrow> string \<Rightarrow> 's nas \<Rightarrow> (py_error + unit) \<times> 's nas" where
  "enqueue_retry e key data sha256 n =
     (case n_queue n of
        None \<Rightarrow> (Inr (), n)
      | Some q \<Rightarrow>
          (case enqueue e key data sha256 q of
             (Inl x, q') \<Rightarrow> (Inl x, n\<lparr>n_queue := Some q'\<rparr>)
           | (Inr st, q') \<Rightarrow> (Inr (), n\<lparr>n_queue := Some q'\<rparr>)))"

definition head_object :: "'s s3 \<Rightarrow> string \<Rightarrow> 's \<Rightarrow> (py_error + head_response) \<times> 's" where
  "head_object c key s = s3_head c key s"

text \<open>
  The source of a streaming upload: a path, which is read again when the upload failed, or an open
  file object, of which a failed upload has already consumed some bytes.
\<close>

datatype upload_source = SrcPath bytes | SrcFileobj bytes nat

definition source_bytes :: "upload_source \<Rightarrow> bytes" where
  "source_bytes src = (case src of SrcPath d \<Rightarrow> d | SrcFileobj d consumed \<Rightarrow> d)"

definition source_after_failure :: "upload_source \<Rightarrow> bytes" where
  "source_after_failure src = (case src of SrcPath d \<Rightarrow> d | SrcFileobj d consumed \<Rightarrow> drop consumed d)"

definition streaming_upload ::
  "'s s3 \<Rightarrow> qenv \<Rightarrow> upload_source \<Rightarrow> string \<Rightarrow> string \<Rightarrow> 's nas \<Rightarrow> (py_error + put_status) \<times> 's nas" where
  "streaming_upload c e src nas_key sha256 n =
     (case s3_upload c nas_key (source_bytes src) sha256 (n_store n) of
        (Inr u, s) \<Rightarrow> (Inr Uploaded, n\<lparr>n_store := s\<rparr>)
      | (Inl EndpointConnectionError, s) \<Rightarrow>
          queue_payload e nas_key (source_after_failure src) sha256 (n\<lparr>n_store := s\<rparr>)
      | (Inl (ClientError code), s) \<Rightarrow>
          (case classify_4xx code of
             Some reason \<Rightarrow> (Inl (NASOperationalAlert code reason), n\<lparr>n_store := s\<rparr>)
           | None \<Rightarrow> queue_payload e nas_key (source_after_failure src) sha256 (n\<lparr>n_store := s\<rparr>))
      | (Inl x, s) \<Rightarrow> (Inl x, n\<lparr>n_store := s\<rparr>))"

definition put_streaming ::
  "'s s3 \<Rightarrow> qenv \<Rightarrow> upload_source \<Rightarrow> string \<Rightarrow> string \<Rightarrow> 's nas \<Rightarrow> (py_error + put_status) \<times> 's nas" where
  "put_streaming c e src nas_key sha256 n =
     (case s3_head c nas_key (n_store n) of
        (Inr h, s) \<Rightarrow>
          (case h_sha256 h of
             None \<Rightarrow> streaming_upload c e src nas_key sha256 (n\<lparr>n_store := s\<rparr>)
           | Some existing \<Rightarrow>
               if existing = sha256 then (Inr SkippedIdempotent, n\<lparr>n_store := s\<rparr>)
               else (Inl ConditionalWriteConflict, n\<lparr>n_store := s\<rparr>))
      | (Inl (ClientError code), s) \<Rightarrow>
          (if code = ''404'' then streaming_upload c e src nas_key sha256 (n\<lparr>n_store := s\<rparr>)
           else (case classify_4xx code of
                   Some reason \<Rightarrow> (Inl (NASOperationalAlert code reason), n\<lparr>n_store := s\<rparr>)
                 | None \<Rightarrow> (Inl (ClientError code), n\<lparr>n_store := s\<rparr>)))
      | (Inl x, s) \<Rightarrow> (Inl x, n\<lparr>n_store := s\<rparr>))"

definition list_prefix_count :: "'s s3 \<Rightarrow> string \<Rightarrow> nat \<Rightarrow> 's \<Rightarrow> (py_error + nat) \<times> 's" where
  "list_prefix_count c pre max_keys s =
     (case s3_list c pre s of
        (Inl e, s') \<Rightarrow> (Inl e, s')
      | (Inr ks, s') \<Rightarrow> (Inr (min max_keys (length ks)), s'))"

definition list_objects :: "'s s3 \<Rightarrow> string \<Rightarrow> 's \<Rightarrow> (py_error + string list) \<times> 's" where
  "list_objects c pre s =
     (case s3_list c pre s of (Inl e, s') \<Rightarrow> (Inl e, s') | (Inr ks, s') \<Rightarrow> (Inr (sort ks), s'))"

definition download :: "'s s3 \<Rightarrow> string \<Rightarrow> 's \<Rightarrow> (py_error + bytes) \<times> 's" where
  "download c key s =
     (case s3_get c key s of (Inl e, s') \<Rightarrow> (Inl e, s') | (Inr (body, etag), s') \<Rightarrow> (Inr body, s'))"

datatype copy_status = Copied | AlreadyExistsIdempotent | SourceNotFound | DstConflict

record copy_result =
  cr_status :: copy_status
  cr_src_etag :: string
  cr_dst_etag :: string
  cr_src_version :: "string option"
  cr_dst_version :: "string option"

definition copy_object :: "'s s3 \<Rightarrow> string \<Rightarrow> string \<Rightarrow> 's \<Rightarrow> (py_error + copy_result) \<times> 's" where
  "copy_object c src_key dst_key s =
     (case s3_head c src_key s of
        (Inl e, s1) \<Rightarrow>
          (if e = ClientError ''404''
           then (Inr \<lparr>cr_status = SourceNotFound, cr_src_etag = [], cr_dst_etag = [],
                      cr_src_version = None, cr_dst_version = None\<rparr>, s1)
           else (Inl e, s1))
      | (Inr src, s1) \<Rightarrow>
          (let do_copy = (\<lambda>s2. case s3_copy c src_key dst_key s2 of
                 (Inl e, s3) \<Rightarrow> (Inl e, s3)
               | (Inr (etag, version), s3) \<Rightarrow>
                   (Inr \<lparr>cr_status = Copied, cr_src_etag = h_etag src, cr_dst_etag = etag,
                         cr_src_version = h_version src, cr_dst_version = version\<rparr>, s3)) in
           case s3_head c dst_key s1 of
             (Inl e, s2) \<Rightarrow> (if e = ClientError ''404'' then do_copy s2 else (Inl e, s2))
           | (Inr dst, s2) \<Rightarrow>
               (let present = h_sha256 src \<noteq> None \<and> h_sha256 dst \<noteq> None;
                    report = (\<lambda>st. (Inr \<lparr>cr_status = st, cr_src_etag = h_etag src, cr_dst_etag = h_etag dst,
                               cr_src_version = h_version src, cr_dst_version = h_version dst\<rparr>, s2)) in
                if present \<and> h_sha256 src = h_sha256 dst then report AlreadyExistsIdempotent
                else if present \<and> h_sha256 src \<noteq> h_sha256 dst then report DstConflict
                else do_copy s2)))"

definition delete_object :: "'s s3 \<Rightarrow> string \<Rightarrow> 's \<Rightarrow> (py_error + unit) \<times> 's" where
  "delete_object c key s =
     (case s3_delete c key s of
        (Inr u, s') \<Rightarrow> (Inr (), s')
      | (Inl e, s') \<Rightarrow> (if e = ClientError ''404'' then (Inr (), s') else (Inl e, s')))"

text \<open>The call that draining makes: the digest is given and nothing is queued again.\<close>

definition put_for_drain :: "'s s3 \<Rightarrow> (bytes \<Rightarrow> string) \<Rightarrow> qenv \<Rightarrow> 's putter" where
  "put_for_drain c hash e key data sha256 s =
     (case put c hash e key data (Some sha256) True \<lparr>n_store = s, n_queue = None\<rparr> of (r, n) \<Rightarrow> (r, n_store n))"

section \<open>What an upload does to the bucket\<close>

definition holds :: "bucket \<Rightarrow> string \<Rightarrow> string \<Rightarrow> bool" where
  "holds b k h \<longleftrightarrow> (\<exists>ob. b k = Some ob \<and> ob_sha256 ob = Some h)"

text \<open>No object that carries a digest is changed or removed.\<close>

definition forward_only :: "bucket \<Rightarrow> bucket \<Rightarrow> bool" where
  "forward_only b b' \<longleftrightarrow> (\<forall>k ob. b k = Some ob \<longrightarrow> ob_sha256 ob \<noteq> None \<longrightarrow> b' k = Some ob)"

text \<open>Every recorded digest is the digest of the content.\<close>

definition digests_true :: "(bytes \<Rightarrow> string) \<Rightarrow> bucket \<Rightarrow> bool" where
  "digests_true hash b \<longleftrightarrow> (\<forall>k ob h. b k = Some ob \<longrightarrow> ob_sha256 ob = Some h \<longrightarrow> h = hash (ob_body ob))"

definition no_digest_at :: "bucket \<Rightarrow> string \<Rightarrow> bool" where
  "no_digest_at b k \<longleftrightarrow> (\<forall>ob. b k = Some ob \<longrightarrow> ob_sha256 ob = None)"

lemma forward_only_refl [simp]: "forward_only b b"
  by (simp add: forward_only_def)

lemma forward_only_holds: "forward_only b b' \<Longrightarrow> holds b k h \<Longrightarrow> holds b' k h"
  by (auto simp: forward_only_def holds_def)

lemma writes_holds: "writes b k d (Some h) b' \<Longrightarrow> holds b' k h"
  by (auto simp: writes_def holds_def)

lemma writes_forward: "writes b k d h b' \<Longrightarrow> no_digest_at b k \<Longrightarrow> forward_only b b'"
  by (auto simp: writes_def forward_only_def no_digest_at_def)

lemma writes_digests: "writes b k d (Some (hash d)) b' \<Longrightarrow> digests_true hash b \<Longrightarrow> digests_true hash b'"
  by (auto simp: writes_def digests_true_def split: if_splits)

lemma head_no_digest:
  assumes "s3_laws c v" "s3_head c k s = (r, s1)" "r = Inl (ClientError ''404'') \<or> (\<exists>h. r = Inr h \<and> h_sha256 h = None)"
  shows "no_digest_at (v s1) k"
  using assms head_found [of c v k s _ s1] head_missing [of c v k s s1] head_view [OF assms(1,2)]
  by (auto simp: no_digest_at_def head_of_def)

lemma head_holds:
  "s3_laws c v \<Longrightarrow> s3_head c k s = (Inr h, s1) \<Longrightarrow> h_sha256 h = Some x \<Longrightarrow> holds (v s1) k x"
  using head_found [of c v k s h s1] head_view [of c v k s "Inr h" s1] by (auto simp: holds_def head_of_def)

text \<open>The effect of an upload attempt, for either call of the client.\<close>

definition upload_effect :: "bucket \<Rightarrow> string \<Rightarrow> bytes \<Rightarrow> string \<Rightarrow> bucket \<Rightarrow> bool" where
  "upload_effect b k d h b' \<longleftrightarrow> b' = b \<or> (no_digest_at b k \<and> writes b k d (Some h) b')"

lemma upload_effect_forward: "upload_effect b k d h b' \<Longrightarrow> forward_only b b'"
  by (auto simp: upload_effect_def intro: writes_forward)

lemma upload_effect_digests: "upload_effect b k d (hash d) b' \<Longrightarrow> digests_true hash b \<Longrightarrow> digests_true hash b'"
  by (auto simp: upload_effect_def intro: writes_digests)

lemma put_with_idempotency_effect:
  assumes "s3_laws c v" "put_with_idempotency c k d h s = (r, s')"
  shows "upload_effect (v s) k d h (v s')"
    and "r = Inr st \<Longrightarrow> st \<in> {Uploaded, SkippedIdempotent} \<and> holds (v s') k h"
proof -
  obtain r1 s1 where hd: "s3_head c k s = (r1, s1)" by fastforce
  have v1: "v s1 = v s" by (rule head_view [OF assms(1) hd])
  obtain r2 s2 where pt: "s3_put c k d h s1 = (r2, s2)" by fastforce
  note w = put_writes [OF assms(1) pt]
  have eff: "upload_effect (v s) k d h (v s2)"
    if "r1 = Inl (ClientError ''404'') \<or> (\<exists>h. r1 = Inr h \<and> h_sha256 h = None)"
    using w(2) head_no_digest [OF assms(1) hd that] v1 by (auto simp: upload_effect_def)
  have ok: "r2 = Inr e \<Longrightarrow> holds (v s2) k h" for e using w(1) writes_holds by blast
  show "upload_effect (v s) k d h (v s')"
    using assms(2) hd pt eff v1
    by (auto simp: put_with_idempotency_def Let_def upload_effect_def [of _ _ _ _ "v s"]
        split: sum.splits option.splits if_splits)
  show "r = Inr st \<Longrightarrow> st \<in> {Uploaded, SkippedIdempotent} \<and> holds (v s') k h"
    using assms(2) hd pt ok head_holds [OF assms(1), of k s _ s1 h]
    by (auto simp: put_with_idempotency_def Let_def split: sum.splits option.splits if_splits)
qed

section \<open>The queue behind the uploader\<close>

definition queue_ready :: "qenv \<Rightarrow> 's nas \<Rightarrow> bool" where
  "queue_ready e n \<longleftrightarrow> (case n_queue n of None \<Rightarrow> True | Some q \<Rightarrow> rq_ok q \<and> fresh e q)"

definition queued_items :: "'s nas \<Rightarrow> (string \<times> string \<times> bytes) set" where
  "queued_items n = (case n_queue n of None \<Rightarrow> {} | Some q \<Rightarrow> items q)"

definition has_queue :: "'s nas \<Rightarrow> bool" where
  "has_queue n \<longleftrightarrow> n_queue n \<noteq> None"

lemma queue_simps [simp]:
  "queue_ready e (n\<lparr>n_store := s\<rparr>) = queue_ready e n" "queued_items (n\<lparr>n_store := s\<rparr>) = queued_items n"
  "has_queue (n\<lparr>n_store := s\<rparr>) = has_queue n"
  by (simp_all add: queue_ready_def queued_items_def has_queue_def)

lemma queue_payload_effect:
  assumes "queue_ready e n" "queue_payload e k d h n = (r, n')"
  shows "n_store n' = n_store n"
    and "queued_items n \<subseteq> queued_items n'" "queued_items n' \<subseteq> insert (k, h, d) (queued_items n)"
    and "r = Inr st \<Longrightarrow> st = Queued \<and> (has_queue n \<longrightarrow> (k, h, d) \<in> queued_items n') \<or> st = PutHardFloorBlocked \<and> n_queue n' = n_queue n"
    and "r = Inl x \<Longrightarrow> x = OSError \<and> \<not> qe_write_ok e"
proof -
  have "n_store n' = n_store n \<and> queued_items n \<subseteq> queued_items n' \<and> queued_items n' \<subseteq> insert (k, h, d) (queued_items n) \<and>
    (\<forall>st. r = Inr st \<longrightarrow> st = Queued \<and> (has_queue n \<longrightarrow> (k, h, d) \<in> queued_items n') \<or> st = PutHardFloorBlocked \<and> n_queue n' = n_queue n) \<and>
    (\<forall>x. r = Inl x \<longrightarrow> x = OSError \<and> \<not> qe_write_ok e)"
  proof (cases "n_queue n")
    case None
    with assms(2) show ?thesis by (auto simp: queue_payload_def queued_items_def has_queue_def)
  next
    case (Some q)
    then have q: "rq_ok q" "fresh e q" using assms(1) by (simp_all add: queue_ready_def)
    obtain r1 q1 where en: "enqueue e k d h q = (r1, q1)" by fastforce
    from enqueue_cases [OF q en] consider "r1 = Inr HardFloorBlocked" "q1 = q"
      | "r1 = Inl OSError" "\<not> qe_write_ok e" "items q1 = items q"
      | "r1 = Inr EnqOk" "items q1 = insert (k, h, d) (items q)" by blast
    then show ?thesis
    proof cases
      case 1
      with assms(2) en Some have "r = Inr PutHardFloorBlocked" "n' = n\<lparr>n_queue := Some q\<rparr>" by (simp_all add: queue_payload_def)
      with Some show ?thesis by (simp add: queued_items_def subset_insertI)
    next
      case 2
      with assms(2) en Some have "r = Inl OSError" "n' = n\<lparr>n_queue := Some q1\<rparr>" by (simp_all add: queue_payload_def)
      with Some 2 show ?thesis by (simp add: queued_items_def subset_insertI)
    next
      case 3
      with assms(2) en Some have "r = Inr Queued" "n' = n\<lparr>n_queue := Some q1\<rparr>" by (simp_all add: queue_payload_def)
      with Some 3 show ?thesis by (simp add: queued_items_def subset_insertI)
    qed
  qed
  then show "n_store n' = n_store n" "queued_items n \<subseteq> queued_items n'" "queued_items n' \<subseteq> insert (k, h, d) (queued_items n)"
    "r = Inr st \<Longrightarrow> st = Queued \<and> (has_queue n \<longrightarrow> (k, h, d) \<in> queued_items n') \<or> st = PutHardFloorBlocked \<and> n_queue n' = n_queue n"
    "r = Inl x \<Longrightarrow> x = OSError \<and> \<not> qe_write_ok e" by blast+
qed

text \<open>
  \<open>put\<close> and \<open>put_streaming\<close> after the HEAD differ only in the client call; both end by one
  \<open>upload_effect\<close> on the store and at most one hand-over to the queue.
\<close>

definition upload_outcome ::
  "('s \<Rightarrow> bucket) \<Rightarrow> qenv \<Rightarrow> string \<Rightarrow> bytes \<Rightarrow> string \<Rightarrow> bytes \<Rightarrow> 's nas \<Rightarrow> py_error + put_status \<Rightarrow> 's nas \<Rightarrow> bool" where
  "upload_outcome v e k d h d' n r n' \<longleftrightarrow>
     upload_effect (v (n_store n)) k d h (v (n_store n')) \<and>
     queued_items n \<subseteq> queued_items n' \<and> queued_items n' \<subseteq> insert (k, h, d') (queued_items n) \<and>
     (case r of
        Inr st \<Rightarrow>
          (st \<in> {Uploaded, SkippedIdempotent} \<and> holds (v (n_store n')) k h \<and> n_queue n' = n_queue n) \<or>
          (st = Queued \<and> (has_queue n \<longrightarrow> (k, h, d') \<in> queued_items n')) \<or>
          (st = PutHardFloorBlocked \<and> n_queue n' = n_queue n)
      | Inl x \<Rightarrow> n_queue n' = n_queue n \<or> (x = OSError \<and> \<not> qe_write_ok e))"

lemma queue_payload_outcome:
  assumes "queue_ready e n" "upload_effect (v (n_store n)) k d h (v s)"
    "queue_payload e k d' h (n\<lparr>n_store := s\<rparr>) = (r, n')"
  shows "upload_outcome v e k d h d' n r n' \<and> (\<forall>x. r = Inl x \<longrightarrow> x = OSError \<and> \<not> qe_write_ok e)"
proof -
  have ready: "queue_ready e (n\<lparr>n_store := s\<rparr>)" using assms(1) by simp
  note q = queue_payload_effect [OF ready assms(3)]
  show ?thesis using q assms(2) by (auto simp: upload_outcome_def split: sum.splits)
qed

lemma put_outcome:
  assumes "s3_laws c v" "queue_ready e n" "put c hash e k d (Some h) False n = (r, n')"
  shows "upload_outcome v e k d h d n r n'" "r \<noteq> Inl EndpointConnectionError"
proof -
  obtain r1 s1 where p: "put_with_idempotency c k d h (n_store n) = (r1, s1)" by fastforce
  note eff = put_with_idempotency_effect [OF assms(1) p]
  note q = queue_payload_outcome [where v = v, OF assms(2) eff(1), of d]
  have "upload_outcome v e k d h d n r n' \<and> r \<noteq> Inl EndpointConnectionError"
  proof (cases r1)
    case (Inr st)
    then show ?thesis using assms(3) p eff by (auto simp: put_def upload_outcome_def)
  next
    case (Inl x)
    have stay: "upload_outcome v e k d h d n (Inl y) (n\<lparr>n_store := s1\<rparr>)" for y
      using eff(1) by (simp add: upload_outcome_def subset_insertI)
    show ?thesis using assms(3) p Inl q stay by (cases x) (auto simp: put_def split: option.splits)
  qed
  then show "upload_outcome v e k d h d n r n'" "r \<noteq> Inl EndpointConnectionError" by simp_all
qed

lemma put_default_digest: "put c hash e k d None b n = put c hash e k d (Some (hash d)) b n"
  by (simp add: put_def)

lemma put_streaming_outcome:
  assumes "s3_laws c v" "queue_ready e n" "put_streaming c e src k h n = (r, n')"
  shows "upload_outcome v e k (source_bytes src) h (source_after_failure src) n r n'"
proof -
  let ?d = "source_bytes src" and ?d' = "source_after_failure src"
  obtain r1 s1 where hd: "s3_head c k (n_store n) = (r1, s1)" by fastforce
  have v1: "v s1 = v (n_store n)" by (rule head_view [OF assms(1) hd])
  have stay: "upload_outcome v e k ?d h ?d' n (Inl y) (n\<lparr>n_store := s1\<rparr>)" for y
    by (simp add: upload_outcome_def upload_effect_def v1 subset_insertI)
  have up: "upload_outcome v e k ?d h ?d' n r n'"
    if first: "r1 = Inl (ClientError ''404'') \<or> (\<exists>h. r1 = Inr h \<and> h_sha256 h = None)"
      and run: "streaming_upload c e src k h (n\<lparr>n_store := s1\<rparr>) = (r, n')"
  proof -
    obtain r2 s2 where u: "s3_upload c k ?d h s1 = (r2, s2)" by fastforce
    note w = upload_writes [OF assms(1) u]
    have eff: "upload_effect (v (n_store n)) k ?d h (v s2)"
      using w(2) head_no_digest [OF assms(1) hd first] v1 by (auto simp: upload_effect_def)
    note q = queue_payload_outcome [where v = v, OF assms(2) eff, of ?d']
    have stay2: "upload_outcome v e k ?d h ?d' n (Inl y) (n\<lparr>n_store := s2\<rparr>)" for y
      using eff by (simp add: upload_outcome_def subset_insertI)
    show ?thesis
    proof (cases r2)
      case (Inl x)
      with run u q stay2 show ?thesis by (cases x) (auto simp: streaming_upload_def split: option.splits)
    next
      case (Inr x)
      with run u eff writes_holds [OF w(1) [OF Inr]] show ?thesis
        by (auto simp: streaming_upload_def upload_outcome_def)
    qed
  qed
  show ?thesis
  proof (cases r1)
    case (Inl x)
    with assms(3) hd up stay show ?thesis by (cases x) (auto simp: put_streaming_def split: option.splits if_splits)
  next
    case (Inr hr)
    have "upload_outcome v e k ?d h ?d' n (Inr SkippedIdempotent) (n\<lparr>n_store := s1\<rparr>)" if "h_sha256 hr = Some h"
      using head_holds [OF assms(1) hd [unfolded Inr] that] by (auto simp: upload_outcome_def upload_effect_def v1)
    with assms(3) hd up stay Inr show ?thesis by (auto simp: put_streaming_def split: option.splits if_splits)
  qed
qed

section \<open>The interface draining relies on\<close>

lemma put_for_drain_effect:
  assumes "s3_laws c v" "put_for_drain c hash e k d h s = (r, s')"
  shows "upload_effect (v s) k d h (v s')" and "r = Inr st \<Longrightarrow> st \<noteq> Queued \<Longrightarrow> holds (v s') k h"
proof -
  obtain r1 s1 where p: "put_with_idempotency c k d h s = (r1, s1)" by fastforce
  note eff = put_with_idempotency_effect [OF assms(1) p]
  have "upload_effect (v s) k d h (v s') \<and> (\<forall>st. r = Inr st \<longrightarrow> st \<noteq> Queued \<longrightarrow> holds (v s') k h)"
  proof (cases r1)
    case (Inr st)
    with assms(2) p eff show ?thesis by (auto simp: put_for_drain_def put_def)
  next
    case (Inl x)
    with assms(2) p eff(1) show ?thesis by (cases x) (auto simp: put_for_drain_def put_def split: option.splits)
  qed
  then show "upload_effect (v s) k d h (v s')" "r = Inr st \<Longrightarrow> st \<noteq> Queued \<Longrightarrow> holds (v s') k h" by blast+
qed

lemma put_for_drain_forward:
  "s3_laws c v \<Longrightarrow> put_for_drain c hash e k d h s = (r, s') \<Longrightarrow> forward_only (v s) (v s')"
  by (rule upload_effect_forward, rule put_for_drain_effect(1))

interpretation nas_put: put_interface "put_for_drain c hash e" "\<lambda>s. holds (v s)" "s3_laws c v" for c hash e v
proof unfold_locales
  fix k d h s st s'
  assume "s3_laws c v" "put_for_drain c hash e k d h s = (Inr st, s')" "st \<noteq> Queued"
  then show "holds (v s') k h" by (rule put_for_drain_effect(2) [OF _ _ refl])
next
  fix k d h s res s' k' h'
  assume "s3_laws c v" "put_for_drain c hash e k d h s = (res, s')" "holds (v s) k' h'"
  then show "holds (v s') k' h'"
    by (auto intro: forward_only_holds dest: put_for_drain_forward)
qed

lemma drain_rows_forward:
  assumes "s3_laws c v" "fold (drain_row (put_for_drain c hash e)) rs (st, q, s) = (st', q', s')"
  shows "forward_only (v s) (v s')"
  using assms(2)
proof (induction rs arbitrary: st q s)
  case (Cons r rs)
  obtain st1 q1 s1 where step: "drain_row (put_for_drain c hash e) r (st, q, s) = (st1, q1, s1)" by (metis prod_cases3)
  have "forward_only (v s) (v s1)"
    using step by (auto dest: put_for_drain_forward [OF assms(1)] simp: drain_row_def split: option.splits sum.splits prod.splits if_splits)
  moreover have "forward_only (v s1) (v s')" using Cons step by simp
  ultimately show ?case by (simp add: forward_only_def)
qed simp

section \<open>Digests stay true\<close>

definition items_true :: "(bytes \<Rightarrow> string) \<Rightarrow> (string \<times> string \<times> bytes) set \<Rightarrow> bool" where
  "items_true hash its \<longleftrightarrow> (\<forall>it\<in>its. fst (snd it) = hash (snd (snd it)))"

definition nas_true :: "(bytes \<Rightarrow> string) \<Rightarrow> ('s \<Rightarrow> bucket) \<Rightarrow> 's nas \<Rightarrow> bool" where
  "nas_true hash v n \<longleftrightarrow> digests_true hash (v (n_store n)) \<and> items_true hash (queued_items n)"

lemma upload_outcome_true:
  "upload_outcome v e k d (hash d) d n r n' \<Longrightarrow> nas_true hash v n \<Longrightarrow> nas_true hash v n'"
  by (auto simp: upload_outcome_def nas_true_def items_true_def dest: upload_effect_digests)

lemma row_payload_true:
  assumes "items_true hash (items q)" "r \<in> set (rq_rows q)" "map_of (rq_payloads q) (r_payload_file r) = Some d"
  shows "r_sha256 r = hash d"
proof -
  have "(r_key r, r_sha256 r, d) \<in> items q" using assms(2,3) by (auto simp: items_def row_item_def intro!: bexI [of _ r])
  with assms(1) show ?thesis by (auto simp: items_true_def)
qed

lemma drain_rows_true:
  assumes "s3_laws c v" "fold (drain_row (put_for_drain c hash e)) rs (st, q, s) = (st', q', s')"
    and "rq_ok q" "distinct (map r_id rs)" "set rs \<subseteq> set (rq_rows q)"
    and "items_true hash (items q)" "digests_true hash (v s)"
  shows "digests_true hash (v s') \<and> items_true hash (items q')"
  using assms(2-)
proof (induction rs arbitrary: st q s)
  case (Cons r rs)
  obtain st1 q1 s1 where step: "drain_row (put_for_drain c hash e) r (st, q, s) = (st1, q1, s1)" by (metis prod_cases3)
  then have one: "fold (drain_row (put_for_drain c hash e)) [r] (st, q, s) = (st1, q1, s1)" by simp
  have "set [r] \<subseteq> set (rq_rows q)" using Cons.prems(4) by simp
  note cnt = drain_rows_count [OF one Cons.prems(2) _ this]
  have r: "r \<in> set (rq_rows q)" using Cons.prems(4) by simp
  have "digests_true hash (v s1)"
  proof (cases "map_of (rq_payloads q) (r_payload_file r)")
    case None
    with step Cons.prems(6) show ?thesis by (simp add: drain_row_def)
  next
    case (Some d)
    obtain x where "put_for_drain c hash e (r_key r) d (hash d) s = (x, s1)"
      using step Some row_payload_true [OF Cons.prems(5) r Some]
      by (auto simp: drain_row_def split: sum.splits prod.splits if_splits)
    from put_for_drain_effect(1) [OF assms(1) this] Cons.prems(6) show ?thesis by (rule upload_effect_digests)
  qed
  moreover have "row_item (rq_payloads q1) x = row_item (rq_payloads q) x" if "x \<in> set (rq_rows q1)" for x
    using cnt that by (simp add: row_item_def)
  then have "items q1 \<subseteq> items q" using cnt by (auto simp: items_def)
  then have "items_true hash (items q1)" using Cons.prems(5) by (auto simp: items_true_def)
  moreover have "set rs \<subseteq> set (rq_rows q1)" using cnt Cons.prems(3,4) by auto
  ultimately show ?case using Cons.IH [of st1 q1 s1] Cons.prems(1,3) cnt step by simp
qed simp

lemma drain_true:
  assumes "s3_laws c v" "drain (put_for_drain c hash e) q s = (st, q', s')"
    and "rq_ok q" "items_true hash (items q)" "digests_true hash (v s)"
  shows "digests_true hash (v s') \<and> items_true hash (items q')"
proof -
  let ?p = "put_for_drain c hash e" and ?st0 = "\<lparr>ds_drained = 0, ds_failed = 0, ds_skipped = 0\<rparr>"
  obtain st1 q1 s1 where c1: "fold (drain_row ?p) (snapshot Pending q) (?st0, q, s) = (st1, q1, s1)" by (metis prod_cases3)
  have c2: "fold (drain_row ?p) (snapshot Quarantined q1) (st1, q1, s1) = (st, q', s')"
    using assms(2) c1 by (simp add: drain_def drain_cycle_def)
  have ok1: "rq_ok q1" using drain_rows_count [OF c1 assms(3) snap_ok [OF assms(3)]] by simp
  note t1 = drain_rows_true [OF assms(1) c1 assms(3) snap_ok [OF assms(3)] assms(4,5)]
  show ?thesis using drain_rows_true [OF assms(1) c2 ok1 snap_ok [OF ok1]] t1 by blast
qed

section \<open>Properties\<close>

definition example_object :: s3_object where
  "example_object = \<lparr>ob_body = ''data'', ob_sha256 = Some ''h'', ob_etag = ''e'', ob_version = None\<rparr>"

definition example_nas :: "bool \<Rightarrow> mem nas" where
  "example_nas up = \<lparr>n_store = \<lparr>m_up = up, m_objects = [(''old'', example_object)]\<rparr>, n_queue = Some example_queue\<rparr>"

lemma example_nas_ready: "queue_ready (example_qenv ''a'') (example_nas up)"
  using example_queue_ok by (simp add: queue_ready_def example_nas_def)

text \<open>
  C12. What \<^verbatim>\<open>put\<close> guarantees (with the default \<^verbatim>\<open>suppress_enqueue\<close>), for a client that obeys the
  documented laws and a well-formed retry queue: no object that carries a digest is ever
  altered, here or at any other key; \<^verbatim>\<open>uploaded\<close> and \<^verbatim>\<open>skipped_idempotent\<close> mean that the object with
  this digest is in the bucket; \<^verbatim>\<open>queued\<close> means that the payload is in the retry queue, if there is
  one; \<^verbatim>\<open>hard_floor_blocked\<close> leaves the queue as it was; nothing queued before is lost; an
  unreachable endpoint is never raised to the caller.
\<close>

theorem put_safe:
  assumes "s3_laws c v" "queue_ready e n" "put c hash e k d sha False n = (r, n')"
  shows "forward_only (v (n_store n)) (v (n_store n')) \<and>
         (\<forall>k'. k' \<noteq> k \<longrightarrow> v (n_store n') k' = v (n_store n) k') \<and>
         queued_items n \<subseteq> queued_items n' \<and> r \<noteq> Inl EndpointConnectionError \<and>
         (let h = (case sha of None \<Rightarrow> hash d | Some h \<Rightarrow> h) in
          case r of
            Inr Uploaded \<Rightarrow> holds (v (n_store n')) k h
          | Inr SkippedIdempotent \<Rightarrow> holds (v (n_store n')) k h
          | Inr Queued \<Rightarrow> has_queue n \<longrightarrow> (k, h, d) \<in> queued_items n'
          | Inr PutHardFloorBlocked \<Rightarrow> n_queue n' = n_queue n
          | Inr SkippedEtagOverwrite \<Rightarrow> False
          | Inl x \<Rightarrow> n_queue n' = n_queue n \<or> \<not> qe_write_ok e)"
proof -
  define h where "h = (case sha of None \<Rightarrow> hash d | Some h \<Rightarrow> h)"
  have p: "put c hash e k d (Some h) False n = (r, n')"
    using assms(3) by (cases sha) (simp_all add: h_def put_default_digest)
  note o = put_outcome [OF assms(1,2) p]
  have eff: "upload_effect (v (n_store n)) k d h (v (n_store n'))" using o(1) by (simp add: upload_outcome_def)
  have frame: "\<forall>k'. k' \<noteq> k \<longrightarrow> v (n_store n') k' = v (n_store n) k'"
    using eff by (auto simp: upload_effect_def writes_def)
  have "case r of Inr Uploaded \<Rightarrow> holds (v (n_store n')) k h
      | Inr SkippedIdempotent \<Rightarrow> holds (v (n_store n')) k h
      | Inr Queued \<Rightarrow> has_queue n \<longrightarrow> (k, h, d) \<in> queued_items n'
      | Inr PutHardFloorBlocked \<Rightarrow> n_queue n' = n_queue n
      | Inr SkippedEtagOverwrite \<Rightarrow> False
      | Inl x \<Rightarrow> n_queue n' = n_queue n \<or> \<not> qe_write_ok e"
    using o(1) by (auto simp: upload_outcome_def split: sum.splits put_status.splits)
  with o frame upload_effect_forward [OF eff] show ?thesis
    by (simp add: upload_outcome_def h_def [symmetric] Let_def)
qed

theorem put_safe_witness:
  "\<exists>r n'. put mem_s3 (\<lambda>d. ''h'') (example_qenv ''a'') ''k'' ''data'' None False (example_nas False) = (r, n') \<and>
     r = Inr Queued \<and> (''k'', ''h'', ''data'') \<in> queued_items n'"
proof -
  obtain r n' where run:
    "put mem_s3 (\<lambda>d. ''h'') (example_qenv ''a'') ''k'' ''data'' None False (example_nas False) = (r, n')" by fastforce
  then have "r = Inr Queued"
    using example_enqueue
    by (auto simp: put_def put_with_idempotency_def mem_s3_def when_up_def example_nas_def queue_payload_def)
  moreover have "has_queue (example_nas False)" by (simp add: has_queue_def example_nas_def)
  ultimately show ?thesis using put_safe [OF mem_laws example_nas_ready run] run by simp
qed

text \<open>
  C13. No data is lost by draining the retry queue through the uploader: afterwards every row that
  was queued is still queued, with its payload, or the object with its digest is in the bucket;
  the queue stays well formed, objects that carry a digest are untouched, and the count
  of drained rows is exactly the number of rows that left.
\<close>

theorem drain_through_uploader:
  assumes "s3_laws c v" "rq_ok q" "drain (put_for_drain c hash e) q s = (st, q', s')"
  shows "rq_ok q' \<and>
         (\<forall>x\<in>set (rq_rows q).
            (x \<in> set (rq_rows q') \<and> map_of (rq_payloads q') (r_payload_file x) = map_of (rq_payloads q) (r_payload_file x))
            \<or> holds (v s') (r_key x) (r_sha256 x)) \<and>
         length (rq_rows q') + ds_drained st = length (rq_rows q) \<and> forward_only (v s) (v s')"
proof -
  obtain st1 q1 s1 where c1: "drain_cycle (put_for_drain c hash e) Pending
      (\<lparr>ds_drained = 0, ds_failed = 0, ds_skipped = 0\<rparr>, q, s) = (st1, q1, s1)" by (metis prod_cases3)
  then have "drain_cycle (put_for_drain c hash e) Quarantined (st1, q1, s1) = (st, q', s')"
    using assms(3) by (simp add: drain_def)
  then have "forward_only (v s) (v s1)" "forward_only (v s1) (v s')"
    using c1 drain_rows_forward [OF assms(1)] by (fastforce simp: drain_cycle_def)+
  then have "forward_only (v s) (v s')" by (simp add: forward_only_def)
  with nas_put.drain_no_loss [OF assms] show ?thesis by blast
qed

theorem drain_through_uploader_witness:
  "\<exists>q1 st q2 s. enqueue (example_qenv ''a'') ''k'' ''data'' ''h'' example_queue = (Inr EnqOk, q1) \<and>
     drain (put_for_drain mem_s3 (\<lambda>d. ''h'') (example_qenv ''a'')) q1 (n_store (example_nas True)) = (st, q2, s) \<and>
     forward_only (mem_view (n_store (example_nas True))) (mem_view s)"
proof -
  obtain q1 where en: "enqueue (example_qenv ''a'') ''k'' ''data'' ''h'' example_queue = (Inr EnqOk, q1)"
    using example_enqueue by blast
  then have ok: "rq_ok q1" using enqueue_cases [OF example_queue_ok en] by auto
  obtain st q2 s where run:
    "drain (put_for_drain mem_s3 (\<lambda>d. ''h'') (example_qenv ''a'')) q1 (n_store (example_nas True)) = (st, q2, s)"
    by (metis prod_cases3)
  from drain_through_uploader [OF mem_laws ok run] en run show ?thesis by blast
qed

text \<open>
  C14. The recorded digests stay true: if every digest in the bucket and in the retry queue is that
  of its content, this remains so after \<^verbatim>\<open>put\<close> with the digest it computes itself, after
  \<^verbatim>\<open>put_streaming\<close> of a path with the digest of its content, and after draining the queue. (With
  this, \<^verbatim>\<open>skipped_idempotent\<close> means that content of the same digest is already there.)
\<close>

theorem digests_stay_true:
  assumes "s3_laws c v" "queue_ready e n" "nas_true hash v n"
  shows "(\<forall>r n'. put c hash e k d None False n = (r, n') \<longrightarrow> nas_true hash v n') \<and>
         (\<forall>r n'. put_streaming c e (SrcPath d) k (hash d) n = (r, n') \<longrightarrow> nas_true hash v n') \<and>
         (\<forall>q st q' s'. n_queue n = Some q \<longrightarrow> drain (put_for_drain c hash e') q (n_store n) = (st, q', s') \<longrightarrow>
            nas_true hash v (n\<lparr>n_store := s', n_queue := Some q'\<rparr>))"
proof (intro conjI allI impI)
  fix r n' assume "put c hash e k d None False n = (r, n')"
  then have "put c hash e k d (Some (hash d)) False n = (r, n')" by (simp add: put_default_digest)
  from upload_outcome_true [OF put_outcome(1) [OF assms(1,2) this] assms(3)] show "nas_true hash v n'" .
next
  fix r n' assume "put_streaming c e (SrcPath d) k (hash d) n = (r, n')"
  from put_streaming_outcome [OF assms(1,2) this] assms(3) show "nas_true hash v n'"
    by (intro upload_outcome_true [of v e k d hash n r n']) (simp_all add: source_bytes_def source_after_failure_def)
next
  fix q st q' s' assume q: "n_queue n = Some q" and run: "drain (put_for_drain c hash e') q (n_store n) = (st, q', s')"
  have "rq_ok q" using assms(2) q by (simp add: queue_ready_def)
  from drain_true [OF assms(1) run this] assms(3) q show "nas_true hash v (n\<lparr>n_store := s', n_queue := Some q'\<rparr>)"
    by (simp add: nas_true_def queued_items_def)
qed

theorem digests_stay_true_witness:
  "\<exists>r n'. put mem_s3 (\<lambda>d. ''h'') (example_qenv ''a'') ''k'' ''data'' None False (example_nas False) = (r, n') \<and>
     nas_true (\<lambda>d. ''h'') mem_view n'"
proof -
  obtain r n' where run:
    "put mem_s3 (\<lambda>d. ''h'') (example_qenv ''a'') ''k'' ''data'' None False (example_nas False) = (r, n')" by fastforce
  have "nas_true (\<lambda>d. ''h'') mem_view (example_nas False)"
    by (simp add: nas_true_def digests_true_def items_true_def queued_items_def items_def example_nas_def
        mem_view_def example_queue_def example_object_def)
  from digests_stay_true [OF mem_laws example_nas_ready this] run show ?thesis by blast
qed

text \<open>
  Where \<^verbatim>\<open>put_streaming\<close> falls short of \<^verbatim>\<open>put\<close>: if the endpoint is unreachable already at the
  HEAD request, the exception reaches the caller and nothing is queued; and when an upload from an
  open file object fails after \<open>m\<close> bytes were consumed, what is queued under the digest of
  the whole content is the content without its first \<open>m\<close> bytes.
\<close>

lemma put_streaming_gaps:
  assumes "queue_ready e n"
  shows "(s3_head c k (n_store n) = (Inl EndpointConnectionError, s) \<longrightarrow>
            put_streaming c e src k h n = (Inl EndpointConnectionError, n\<lparr>n_store := s\<rparr>)) \<and>
         (s3_head c k (n_store n) = (Inl (ClientError ''404''), s) \<longrightarrow>
          s3_upload c k d h s = (Inl EndpointConnectionError, s2) \<longrightarrow> has_queue n \<longrightarrow>
          put_streaming c e (SrcFileobj d m) k h n = (Inr Queued, n') \<longrightarrow> (k, h, drop m d) \<in> queued_items n')"
proof (intro conjI impI)
  assume "s3_head c k (n_store n) = (Inl EndpointConnectionError, s)"
  then show "put_streaming c e src k h n = (Inl EndpointConnectionError, n\<lparr>n_store := s\<rparr>)"
    by (simp add: put_streaming_def)
next
  assume a: "s3_head c k (n_store n) = (Inl (ClientError ''404''), s)" "s3_upload c k d h s = (Inl EndpointConnectionError, s2)"
    and q: "has_queue n" and run: "put_streaming c e (SrcFileobj d m) k h n = (Inr Queued, n')"
  then have run2: "queue_payload e k (drop m d) h (n\<lparr>n_store := s2\<rparr>) = (Inr Queued, n')"
    by (simp add: put_streaming_def streaming_upload_def source_bytes_def source_after_failure_def)
  have ready: "queue_ready e (n\<lparr>n_store := s2\<rparr>)" using assms by simp
  show "(k, h, drop m d) \<in> queued_items n'" using queue_payload_effect(4) [OF ready run2 refl] q by simp
qed

lemma copy_object_writes:
  assumes "s3_laws c v" "copy_object c src dst s = (r, s')"
  shows "v s' = v s \<or> (\<exists>ob. v s src = Some ob \<and> writes (v s) dst (ob_body ob) (ob_sha256 ob) (v s'))"
proof -
  obtain r1 s1 where h1: "s3_head c src s = (r1, s1)" by fastforce
  obtain r2 s2 where h2: "s3_head c dst s1 = (r2, s2)" by fastforce
  obtain r3 s3 where cp: "s3_copy c src dst s2 = (r3, s3)" by fastforce
  have views: "v s1 = v s" "v s2 = v s" using head_view [OF assms(1)] h1 h2 by metis+
  have "s' = s1 \<or> s' = s2 \<or> s' = s3" using assms(2) h1 h2 cp
    by (auto simp: copy_object_def Let_def split: sum.splits if_splits)
  then show ?thesis using copy_writes(2) [OF assms(1) cp, unfolded views] views by auto
qed

text \<open>
  What a server-side copy may do: it touches no key but the destination; \<^verbatim>\<open>copied\<close> means that the
  destination has the content and the digest of the source; every other status leaves the bucket
  alone, with \<^verbatim>\<open>already_exists_idempotent\<close> only for equal digests, \<^verbatim>\<open>dst_conflict\<close> only for
  different ones and \<^verbatim>\<open>source_not_found\<close> only for a missing source; when both objects carry a digest,
  the destination is not overwritten.
\<close>

lemma copy_object_effect:
  assumes "s3_laws c v" "copy_object c src dst s = (r, s')"
  shows "(\<forall>k. k \<noteq> dst \<longrightarrow> v s' k = v s k) \<and>
         (\<forall>h h'. holds (v s) src h \<longrightarrow> holds (v s) dst h' \<longrightarrow> v s' = v s) \<and>
         (\<forall>res. r = Inr res \<longrightarrow>
            (case cr_status res of
               Copied \<Rightarrow> (\<exists>ob ob'. v s src = Some ob \<and> v s' dst = Some ob' \<and> ob_body ob' = ob_body ob \<and> ob_sha256 ob' = ob_sha256 ob)
             | AlreadyExistsIdempotent \<Rightarrow> v s' = v s \<and> (\<exists>h. holds (v s) src h \<and> holds (v s) dst h)
             | SourceNotFound \<Rightarrow> v s' = v s \<and> v s src = None
             | DstConflict \<Rightarrow> v s' = v s \<and> (\<exists>h h'. holds (v s) src h \<and> holds (v s) dst h' \<and> h \<noteq> h')))"
proof -
  obtain r1 s1 where h1: "s3_head c src s = (r1, s1)" by fastforce
  obtain r2 s2 where h2: "s3_head c dst s1 = (r2, s2)" by fastforce
  obtain r3 s3 where cp: "s3_copy c src dst s2 = (r3, s3)" by fastforce
  have v1: "v s1 = v s" by (rule head_view [OF assms(1) h1])
  have v2: "v s2 = v s" using head_view [OF assms(1) h2] v1 by simp
  note w = copy_writes [OF assms(1) cp, unfolded v2]
  show ?thesis
  proof (cases r1)
    case (Inl e)
    then show ?thesis using assms(2) h1 v1 head_missing [OF assms(1), of src s s1] by (auto simp: copy_object_def split: if_splits)
  next
    case r1: (Inr hs)
    obtain so where so: "v s src = Some so" "hs = head_of so" using head_found [OF assms(1)] h1 r1 by blast
    have copied: ?thesis if "(case r3 of Inl e \<Rightarrow> r = Inl e | Inr x \<Rightarrow> \<exists>y. r = Inr y \<and> cr_status y = Copied)" "s' = s3"
      "\<forall>h h'. holds (v s) src h \<longrightarrow> \<not> holds (v s) dst h'"
      using that w so by (cases r3) (auto simp: writes_def)
    show ?thesis
    proof (cases r2)
      case (Inl e)
      have "holds (v s) dst h' \<Longrightarrow> e \<noteq> ClientError ''404''" for h'
        using head_missing [OF assms(1), of dst s1 s2] h2 Inl v1 by (auto simp: holds_def)
      then have none: "\<forall>h h'. holds (v s) src h \<longrightarrow> \<not> holds (v s) dst h'" if "e = ClientError ''404''" using that by blast
      show ?thesis
      proof (cases "e = ClientError ''404''")
        case True
        then have "case r3 of Inl e \<Rightarrow> r = Inl e | Inr x \<Rightarrow> \<exists>y. r = Inr y \<and> cr_status y = Copied" "s' = s3"
          using assms(2) h1 h2 cp r1 Inl by (auto simp: copy_object_def split: sum.splits)
        from copied [OF this none [OF True]] show ?thesis .
      next
        case False
        with assms(2) h1 h2 r1 Inl v2 show ?thesis by (auto simp: copy_object_def)
      qed
    next
      case (Inr hd)
      obtain d_ob where d_ob: "v s dst = Some d_ob" "hd = head_of d_ob" using head_found [OF assms(1)] h2 Inr v1 by metis
      show ?thesis
      proof (cases "ob_sha256 so = None \<or> ob_sha256 d_ob = None")
        case True
        then have "\<forall>h h'. holds (v s) src h \<longrightarrow> \<not> holds (v s) dst h'" using so d_ob by (auto simp: holds_def)
        moreover from True have "case r3 of Inl e \<Rightarrow> r = Inl e | Inr x \<Rightarrow> \<exists>y. r = Inr y \<and> cr_status y = Copied" "s' = s3"
          using assms(2) h1 h2 cp r1 Inr so d_ob by (auto simp: copy_object_def head_of_def Let_def split: sum.splits)
        ultimately show ?thesis using copied by blast
      next
        case False
        then obtain a b where "ob_sha256 so = Some a" "ob_sha256 d_ob = Some b" by auto
        then show ?thesis using assms(2) h1 h2 r1 Inr so d_ob v2
          by (auto simp: copy_object_def head_of_def Let_def holds_def split: if_splits)
      qed
    qed
  qed
qed

end
