(* ===== verification/Promotion.thy ===== *)
theory Promotion
  imports NasUploader
begin

text \<open>
  \<^verbatim>\<open>compactor/promotion.py\<close>: deleting a local file once the object store provably has it.

  The state is the local file system and the store. The record \<open>promote_env\<close> carries what the
  surroundings do during the call: whether another process removes the file between the first
  HEAD and the read, and whether the final \<^verbatim>\<open>unlink\<close> succeeds. The retry loop is recursion on the number
  of attempts left; the back-off only sleeps.
\<close>

section \<open>Model\<close>

record promote_env =
  pe_vanish :: bool
  pe_unlink_ok :: bool

datatype promotion_status = Promoted | AlreadyPromoted

record promotion_result =
  pr_status :: promotion_status
  pr_version :: "string option"
  pr_etag :: string

definition HEAD_RETRY_COUNT :: nat where
  "HEAD_RETRY_COUNT = 1"

primrec head_attempts :: "'s s3 \<Rightarrow> string \<Rightarrow> nat \<Rightarrow> 's \<Rightarrow> (py_error + head_response) \<times> 's" where
  "head_attempts c key 0 s = (Inl PromotionVerifyError, s)"
| "head_attempts c key (Suc n) s =
     (case head_object c key s of
        (Inr h, s1) \<Rightarrow> (Inr h, s1)
      | (Inl (ClientError code), s1) \<Rightarrow> (Inl PromotionVerifyError, s1)
      | (Inl EndpointConnectionError, s1) \<Rightarrow>
          if n = 0 then (Inl PromotionVerifyError, s1) else head_attempts c key n s1
      | (Inl e, s1) \<Rightarrow> (Inl e, s1))"

definition head_with_retry :: "'s s3 \<Rightarrow> string \<Rightarrow> 's \<Rightarrow> (py_error + head_response) \<times> 's" where
  "head_with_retry c key s = head_attempts c key (1 + HEAD_RETRY_COUNT) s"

definition compute_local_sha256_and_size :: "(bytes \<Rightarrow> string) \<Rightarrow> path \<Rightarrow> bytes fsys \<Rightarrow> py_error + string \<times> int" where
  "compute_local_sha256_and_size hash p fs =
     (case fs_get fs p of None \<Rightarrow> Inl FileNotFoundError | Some d \<Rightarrow> Inr (hash d, int (length d)))"

definition promote_l1 ::
  "'s s3 \<Rightarrow> (bytes \<Rightarrow> string) \<Rightarrow> promote_env \<Rightarrow> path \<Rightarrow> string \<Rightarrow> bytes fsys \<times> 's
     \<Rightarrow> (py_error + promotion_result) \<times> bytes fsys \<times> 's" where
  "promote_l1 c hash e local_path nas_key st =
     (case st of (fs, s) \<Rightarrow>
      if \<not> fs_exists fs local_path then
        (case head_with_retry c nas_key s of
           (Inl x, s1) \<Rightarrow> (Inl x, fs, s1)
         | (Inr h, s1) \<Rightarrow> (Inr \<lparr>pr_status = AlreadyPromoted, pr_version = h_version h, pr_etag = h_etag h\<rparr>, fs, s1))
      else
        (case head_with_retry c nas_key s of
           (Inl x, s1) \<Rightarrow> (Inl x, fs, s1)
         | (Inr h, s1) \<Rightarrow>
             (let fs1 = (if pe_vanish e then fs_del local_path fs else fs) in
              case compute_local_sha256_and_size hash local_path fs1 of
                Inl x \<Rightarrow> (Inl x, fs1, s1)
              | Inr (local_sha256, local_size) \<Rightarrow>
                  if h_sha256 h \<noteq> None \<and> h_sha256 h \<noteq> Some local_sha256 then (Inl PromotionVerifyError, fs1, s1)
                  else if h_length h \<noteq> local_size then (Inl PromotionVerifyError, fs1, s1)
                  else (case head_with_retry c nas_key s1 of
                          (Inl x, s2) \<Rightarrow> (Inl x, fs1, s2)
                        | (Inr g, s2) \<Rightarrow>
                            if h_etag g \<noteq> h_etag h \<or> h_length g \<noteq> h_length h then (Inl PromotionVerifyError, fs1, s2)
                            else if \<not> pe_unlink_ok e then (Inl OSError, fs1, s2)
                            else (Inr \<lparr>pr_status = Promoted, pr_version = h_version h, pr_etag = h_etag h\<rparr>,
                                  fs_del local_path fs1, s2)))))"

section \<open>Lemmas\<close>

lemma head_attempts_view:
  assumes "s3_laws c v" "head_attempts c k n s = (r, s')"
  shows "v s' = v s \<and> (\<forall>h. r = Inr h \<longrightarrow> (\<exists>ob. v s k = Some ob \<and> h = head_of ob))"
  using assms(2)
proof (induction n arbitrary: s)
  case (Suc n)
  obtain r1 s1 where hd: "s3_head c k s = (r1, s1)" by fastforce
  have v1: "v s1 = v s" by (rule head_view [OF assms(1) hd])
  show ?case
  proof (cases r1)
    case (Inr h)
    with Suc.prems hd v1 head_found [OF assms(1)] show ?thesis by (auto simp: head_object_def)
  next
    case (Inl x)
    with Suc.prems Suc.IH [of s1] hd v1 show ?thesis by (cases x) (auto simp: head_object_def split: if_splits)
  qed
qed auto

lemma head_with_retry_view:
  assumes "s3_laws c v" "head_with_retry c k s = (r, s')"
  shows "v s' = v s" "r = Inr h \<Longrightarrow> \<exists>ob. v s k = Some ob \<and> h = head_of ob"
  using head_attempts_view [OF assms(1) assms(2) [unfolded head_with_retry_def]] by blast+

text \<open>The object at the key that a promotion accepted for the content \<open>d\<close>.\<close>

definition verified :: "(bytes \<Rightarrow> string) \<Rightarrow> bucket \<Rightarrow> string \<Rightarrow> bytes \<Rightarrow> bool" where
  "verified hash b key d \<longleftrightarrow>
     (\<exists>ob. b key = Some ob \<and> length (ob_body ob) = length d \<and> (ob_sha256 ob = None \<or> ob_sha256 ob = Some (hash d)))"

lemma promote_l1_cases:
  assumes "s3_laws c v" "promote_l1 c hash e p key (fs, s) = (r, fs', s')"
  shows "v s' = v s \<and>
    ((fs' = fs \<and> ((\<exists>x. r = Inl x) \<or> (\<exists>pr. r = Inr pr \<and> pr_status pr = AlreadyPromoted \<and> \<not> fs_exists fs p \<and> v s key \<noteq> None))) \<or>
     (pe_vanish e \<and> fs' = fs_del p fs \<and> r = Inl FileNotFoundError \<and> v s key \<noteq> None) \<or>
     (fs' = fs_del p fs \<and> (\<exists>pr d. r = Inr pr \<and> pr_status pr = Promoted \<and> fs_get fs p = Some d \<and> verified hash (v s) key d)))"
proof -
  obtain r1 s1 where h1: "head_with_retry c key s = (r1, s1)" by fastforce
  note v1 = head_with_retry_view [OF assms(1) h1]
  obtain r2 s2 where h2: "head_with_retry c key s1 = (r2, s2)" by fastforce
  note v2 = head_with_retry_view [OF assms(1) h2]
  show ?thesis
  proof (cases "fs_get fs p")
    case None
    with assms(2) h1 v1 show ?thesis by (cases r1) (auto simp: promote_l1_def fs_exists_def)
  next
    case (Some d)
    show ?thesis
    proof (cases r1)
      case (Inl x)
      with assms(2) h1 v1 Some show ?thesis by (auto simp: promote_l1_def fs_exists_def)
    next
      case (Inr h)
      then obtain ob where ob: "v s key = Some ob" "h = head_of ob" using v1(2) by blast
      have "pe_vanish e \<or> h_sha256 h \<noteq> None \<and> h_sha256 h \<noteq> Some (hash d) \<or> h_length h \<noteq> int (length d) \<or> verified hash (v s) key d"
        using ob by (auto simp: verified_def head_of_def)
      with assms(2) h1 h2 v1 v2 Some Inr ob show ?thesis
        by (cases r2) (auto simp: promote_l1_def fs_exists_def compute_local_sha256_and_size_def Let_def fs_simps
            split: if_splits)
    qed
  qed
qed

section \<open>Properties\<close>

definition example_promote_env :: promote_env where
  "example_promote_env = \<lparr>pe_vanish = False, pe_unlink_ok = True\<rparr>"

text \<open>
  C15. Promotion deletes a local file only after verification, and nothing else: the bucket is not
  changed, no other file is touched, and if the file is gone afterwards without another process
  having removed it, then the result is \<^verbatim>\<open>promoted\<close> and the bucket has an object at the key of the
  same length whose recorded digest, if there is one, is that of the file. Every
  exception leaves the file in place.
\<close>

theorem promote_l1_verified:
  assumes "s3_laws c v" "\<not> pe_vanish e" "promote_l1 c hash e p key (fs, s) = (r, fs', s')"
  shows "v s' = v s \<and> (\<forall>q. q \<noteq> p \<longrightarrow> fs_get fs' q = fs_get fs q) \<and>
         (\<forall>d. fs_get fs p = Some d \<longrightarrow> fs_get fs' p = Some d \<or>
            (fs_get fs' p = None \<and> (\<exists>pr. r = Inr pr \<and> pr_status pr = Promoted) \<and> verified hash (v s) key d)) \<and>
         (\<forall>x. r = Inl x \<longrightarrow> fs' = fs) \<and>
         (\<forall>pr. r = Inr pr \<longrightarrow> \<not> fs_exists fs' p \<and> v s' key \<noteq> None)"
proof -
  have "v s key \<noteq> None" if "verified hash (v s) key d" for d using that by (auto simp: verified_def)
  with promote_l1_cases [OF assms(1,3)] assms(2) show ?thesis by (auto simp: fs_simps fs_exists_def)
qed

theorem promote_l1_verified_witness:
  "\<exists>r fs' s'. promote_l1 mem_s3 (\<lambda>d. ''h'') example_promote_env [''f''] ''old'' ([([''f''], ''data'')], n_store (example_nas True)) = (r, fs', s') \<and>
     (\<exists>pr. r = Inr pr \<and> pr_status pr = Promoted) \<and> \<not> fs_exists fs' [''f'']"
proof -
  obtain r fs' s' where run: "promote_l1 mem_s3 (\<lambda>d. ''h'') example_promote_env [''f''] ''old''
      ([([''f''], ''data'')], n_store (example_nas True)) = (r, fs', s')" by (metis prod_cases3)
  then have "\<exists>pr. r = Inr pr \<and> pr_status pr = Promoted"
    by (auto simp: promote_l1_def head_with_retry_def HEAD_RETRY_COUNT_def head_object_def mem_s3_def when_up_def
        example_nas_def mem_view_def example_object_def head_of_def example_promote_env_def fs_exists_def fs_get_def
        compute_local_sha256_and_size_def)
  moreover have "\<not> pe_vanish example_promote_env" by (simp add: example_promote_env_def)
  from promote_l1_verified [OF mem_laws this run] have "\<forall>pr. r = Inr pr \<longrightarrow> \<not> fs_exists fs' [''f'']" by blast
  ultimately show ?thesis using run by blast
qed

end
