(* ===== verification/NasKey.thy ===== *)
theory NasKey
  imports Prelude
begin

text \<open>
  \<^verbatim>\<open>nas_storage/nas_key.py\<close>: the object keys under which Parquet files are stored, derived from
  their path below the data root, and the prefixes under which a partition's objects are listed.
  Path components hold no slash, as in \<^verbatim>\<open>pathlib\<close>.

  The lemmas relate keys and prefixes: the file of a partition has a key below exactly that
  partition's prefix, and the transitional \<^verbatim>\<open>l1/\<close> scheme maps back to the flat one.
\<close>

section \<open>Model\<close>

definition relative_to :: "path \<Rightarrow> path \<Rightarrow> py_error + path" where
  "relative_to p base =
     (if take (length base) p = base then Inr (drop (length base) p) else Inl ValueError)"

fun slash_join :: "string list \<Rightarrow> string" where
  "slash_join [] = []"
| "slash_join [x] = x"
| "slash_join (x # xs) = x @ ''/'' @ slash_join xs"

definition as_posix :: "path \<Rightarrow> string" where
  "as_posix p = (if p = [] then ''.'' else slash_join p)"

text \<open>\<^verbatim>\<open>part.split("=", 1)[1]\<close> of the first component that starts with \<^verbatim>\<open>tier=\<close>.\<close>

definition first_tier :: "path \<Rightarrow> string option" where
  "first_tier parts =
     map_option (\<lambda>part. split_max CHR ''='' 1 part ! 1) (find (\<lambda>part. starts_with part ''tier='') parts)"

definition extract_tier :: "path \<Rightarrow> path \<Rightarrow> py_error + string option" where
  "extract_tier parquet_path base =
     (case relative_to parquet_path base of Inl e \<Rightarrow> Inl e | Inr relative \<Rightarrow> Inr (first_tier relative))"

definition build_nas_key :: "path \<Rightarrow> path \<Rightarrow> string option \<Rightarrow> py_error + string" where
  "build_nas_key parquet_path base tier =
     (case relative_to parquet_path base of
        Inl e \<Rightarrow> Inl ValueError
      | Inr relative \<Rightarrow>
          let rel_posix = as_posix relative in
          if rel_posix = [] \<or> rel_posix = ''.'' then Inl ValueError
          else case extract_tier parquet_path base of
                 Inl e \<Rightarrow> Inl e
               | Inr extracted \<Rightarrow>
                   if tier \<noteq> None \<and> extracted \<noteq> None \<and> tier \<noteq> extracted then Inl ValueError
                   else Inr rel_posix)"

definition partition_prefix :: "string \<Rightarrow> string \<Rightarrow> string \<Rightarrow> string \<Rightarrow> string \<Rightarrow> string \<Rightarrow> string" where
  "partition_prefix tier channel schema_ver exchange symbol date_str =
     ''market/'' @ channel @ ''/schema_version='' @ schema_ver @ ''/tier='' @ tier @ ''/''
     @ ''exchange='' @ exchange @ ''/symbol='' @ symbol @ ''/date='' @ date_str @ ''/''"

definition build_l1_prefix :: "string \<Rightarrow> string \<Rightarrow> string \<Rightarrow> string \<Rightarrow> string \<Rightarrow> py_error + string" where
  "build_l1_prefix channel schema_ver exchange symbol date_str =
     (if [] \<in> set [channel, schema_ver, exchange, symbol, date_str] then Inl ValueError
      else Inr (partition_prefix ''L1'' channel schema_ver exchange symbol date_str))"

definition build_nas_prefix :: "string \<Rightarrow> string \<Rightarrow> string \<Rightarrow> string \<Rightarrow> string \<Rightarrow> string \<Rightarrow> py_error + string" where
  "build_nas_prefix tier channel schema_ver exchange symbol date_str =
     (if tier \<notin> set [''L1'', ''L2'', ''L3''] then Inl ValueError
      else if [] \<in> set [channel, schema_ver, exchange, symbol, date_str] then Inl ValueError
      else Inr (partition_prefix tier channel schema_ver exchange symbol date_str))"

definition build_legacy_nas_key :: "path \<Rightarrow> path \<Rightarrow> py_error + string" where
  "build_legacy_nas_key parquet_path base =
     (case relative_to parquet_path base of
        Inl e \<Rightarrow> Inl ValueError
      | Inr relative \<Rightarrow>
          let rel_posix = as_posix relative in
          if rel_posix = [] \<or> rel_posix = ''.'' then Inl ValueError
          else case extract_tier parquet_path base of
                 Inl e \<Rightarrow> Inl e
               | Inr tier \<Rightarrow> Inr (if tier = Some ''L1'' then ''l1/'' @ rel_posix else rel_posix))"

definition build_legacy_l1_prefix :: "string \<Rightarrow> string \<Rightarrow> string \<Rightarrow> string \<Rightarrow> string \<Rightarrow> py_error + string" where
  "build_legacy_l1_prefix channel schema_ver exchange symbol date_str =
     (if [] \<in> set [channel, schema_ver, exchange, symbol, date_str] then Inl ValueError
      else Inr (''l1/'' @ partition_prefix ''L1'' channel schema_ver exchange symbol date_str))"

definition build_legacy_l1_discovery_prefix :: "string \<Rightarrow> py_error + string" where
  "build_legacy_l1_discovery_prefix channel =
     (if channel = [] then Inl ValueError else Inr (''l1/market/'' @ channel @ ''/''))"

definition legacy_key_to_canonical :: "string \<Rightarrow> string" where
  "legacy_key_to_canonical key = removeprefix key ''l1/''"

section \<open>Keys as lists of components\<close>

abbreviation slash_free :: "string \<Rightarrow> bool" where
  "slash_free s \<equiv> CHR ''/'' \<notin> set s"

lemma split_slash_join:
  "xs \<noteq> [] \<Longrightarrow> list_all slash_free xs \<Longrightarrow> split_on CHR ''/'' (slash_join xs) = xs"
proof (induction xs rule: slash_join.induct)
  case (3 x y zs)
  then show ?case using split_on_hit [of "CHR ''/''" x "slash_join (y # zs)"] by simp
qed (simp_all add: split_on_miss)

lemma slash_join_inj:
  "xs \<noteq> [] \<Longrightarrow> ys \<noteq> [] \<Longrightarrow> list_all slash_free xs \<Longrightarrow> list_all slash_free ys \<Longrightarrow>
   slash_join xs = slash_join ys \<longleftrightarrow> xs = ys"
  using split_slash_join by metis

text \<open>The components of a partition directory below the root.\<close>

definition partition_dir :: "string \<Rightarrow> string \<Rightarrow> string \<Rightarrow> string \<Rightarrow> string \<Rightarrow> string \<Rightarrow> path" where
  "partition_dir tier channel schema_ver exchange symbol date_str =
     [''market'', channel, ''schema_version='' @ schema_ver, ''tier='' @ tier,
      ''exchange='' @ exchange, ''symbol='' @ symbol, ''date='' @ date_str]"

lemma slash_join_append: "xs \<noteq> [] \<Longrightarrow> ys \<noteq> [] \<Longrightarrow> slash_join (xs @ ys) = slash_join xs @ ''/'' @ slash_join ys"
  by (induction xs rule: slash_join.induct) (auto simp: neq_Nil_conv)

lemma partition_prefix_join:
  "partition_prefix t ch v ex sy d = slash_join (partition_dir t ch v ex sy d) @ ''/''"
  by (simp add: partition_prefix_def partition_dir_def)

lemma prefix_components:
  assumes "starts_with (slash_join xs) (slash_join ps @ ''/'')" "ps \<noteq> []" "list_all slash_free ps"
    "xs \<noteq> []" "list_all slash_free xs"
  shows "take (length ps) xs = ps"
proof -
  obtain rest where "slash_join xs = slash_join ps @ CHR ''/'' # rest"
    using assms(1) unfolding starts_with_def by (metis append.assoc append_Cons append_Nil append_take_drop_id)
  then have "xs = split_on CHR ''/'' (slash_join ps @ CHR ''/'' # rest)"
    using split_slash_join [OF assms(4,5)] by simp
  also have "\<dots> = ps @ split_on CHR ''/'' rest"
    using assms(2,3)
  proof (induction ps rule: slash_join.induct)
    case (3 x y zs)
    then show ?case using split_on_hit [of "CHR ''/''" x "slash_join (y # zs) @ CHR ''/'' # rest"] by simp
  qed (simp_all add: split_on_hit)
  finally show ?thesis by simp
qed

lemma key_prefix_iff:
  assumes "ps \<noteq> []" "list_all slash_free ps" "xs \<noteq> []" "list_all slash_free xs" "length ps < length xs"
  shows "starts_with (slash_join xs) (slash_join ps @ ''/'') \<longleftrightarrow> take (length ps) xs = ps"
proof
  assume "take (length ps) xs = ps"
  then have "xs = ps @ drop (length ps) xs" by (metis append_take_drop_id)
  moreover have "drop (length ps) xs \<noteq> []" using assms(5) by simp
  ultimately have "slash_join xs = (slash_join ps @ ''/'') @ slash_join (drop (length ps) xs)"
    using slash_join_append [OF assms(1)] by (metis append.assoc)
  then show "starts_with (slash_join xs) (slash_join ps @ ''/'')" by (simp only: starts_with_append)
qed (use prefix_components assms in blast)

lemma relative_under: "relative_to (base @ q) base = Inr q"
  by (simp add: relative_to_def)

lemma first_tier_partition:
  "starts_with channel ''tier='' = False \<Longrightarrow> first_tier (partition_dir t channel v ex sy d @ q) = Some t"
  using split_max_hit [of "CHR ''=''" "''tier''" 0 t]
  by (simp add: first_tier_def partition_dir_def starts_with_def)

lemma as_posix_join: "q \<noteq> [] \<Longrightarrow> as_posix q = slash_join q"
  by (simp add: as_posix_def)

section \<open>Properties\<close>

text \<open>
  A Parquet file in a partition directory is stored under a key that lies below that
  partition's listing prefix and below no other partition's: for any valid tier, channel,
  schema version, exchange, symbol and date, listing the prefix finds the key if and only if
  all six agree. The explicit tier argument equal to the directory's is accepted.
\<close>

lemma nas_key_under_own_prefix:
  assumes "build_nas_prefix t' ch' v' ex' sy' d' = Inr pre"
    and "list_all slash_free [t, ch, v, ex, sy, d, t', ch', v', ex', sy', d']"
    and "rest \<noteq> []" "list_all slash_free rest" "\<not> starts_with ch ''tier=''"
  shows "\<exists>k. build_nas_key (base @ partition_dir t ch v ex sy d @ rest) base (Some t) = Inr k \<and>
           (starts_with k pre \<longleftrightarrow> (t', ch', v', ex', sy', d') = (t, ch, v, ex, sy, d))"
proof -
  let ?q = "partition_dir t ch v ex sy d @ rest" and ?ps = "partition_dir t' ch' v' ex' sy' d'"
  have q: "?q \<noteq> []" "list_all slash_free ?q" "?ps \<noteq> []" "list_all slash_free ?ps" "length ?ps < length ?q"
    using assms(2-4) by (simp_all add: partition_dir_def)
  have "slash_join ?q \<noteq> ''.''" "slash_join ?q \<noteq> []" by (simp_all add: partition_dir_def)
  then have key: "build_nas_key (base @ ?q) base (Some t) = Inr (slash_join ?q)"
    using assms(5) q(1)
    by (simp add: build_nas_key_def extract_tier_def relative_under first_tier_partition as_posix_join Let_def)
  have "pre = slash_join ?ps @ ''/''"
    using assms(1) by (simp add: build_nas_prefix_def partition_prefix_join split: if_splits)
  then have "starts_with (slash_join ?q) pre \<longleftrightarrow> take (length ?ps) ?q = ?ps"
    using key_prefix_iff [OF q(3,4,1,2,5)] by simp
  also have "\<dots> \<longleftrightarrow> (t', ch', v', ex', sy', d') = (t, ch, v, ex, sy, d)"
    by (auto simp: partition_dir_def)
  finally show ?thesis using key by blast
qed

text \<open>
  C10. The transitional key scheme is an alias of the flat one: whenever a file has a legacy key,
  it has a flat key, and stripping the legacy prefix yields it, unless the first component
  below the root is itself \<^verbatim>\<open>l1\<close>; and below the legacy listing prefix of a partition
  are exactly the \<^verbatim>\<open>l1/\<close> aliases of the keys below the flat prefix.
\<close>

theorem legacy_key_canonical:
  assumes "build_legacy_nas_key p base = Inr k" "relative_to p base = Inr (x # xs)" "list_all slash_free (x # xs)" "x \<noteq> ''l1''"
  shows "build_nas_key p base None = Inr (legacy_key_to_canonical k) \<and>
         (build_legacy_l1_prefix ch v ex sy d = Inr lpre \<longrightarrow>
          (\<exists>pre. build_l1_prefix ch v ex sy d = Inr pre \<and>
             (\<forall>key. starts_with (''l1/'' @ key) lpre \<longleftrightarrow> starts_with key pre)))"
proof -
  let ?r = "slash_join (x # xs)"
  have no: "\<not> starts_with ?r ''l1/''"
  proof
    assume "starts_with ?r ''l1/''"
    then have "take (length [''l1'']) (x # xs) = [''l1'']"
      using prefix_components [of "x # xs" "[''l1'']"] assms(3) by simp
    with assms(4) show False by simp
  qed
  have k: "k = (if first_tier (x # xs) = Some ''L1'' then ''l1/'' @ ?r else ?r)" "?r \<noteq> []" "?r \<noteq> ''.''"
    using assms(1,2) by (auto simp: build_legacy_nas_key_def extract_tier_def as_posix_join Let_def split: if_splits)
  then have "build_nas_key p base None = Inr ?r"
    using assms(2) by (simp add: build_nas_key_def extract_tier_def as_posix_join Let_def)
  moreover have "legacy_key_to_canonical k = ?r"
    using k(1) removeprefix_append [of "''l1/''" ?r] removeprefix_other [OF no]
    by (auto simp: legacy_key_to_canonical_def)
  ultimately show ?thesis
    by (auto simp: build_legacy_l1_prefix_def build_l1_prefix_def starts_with_def)
qed

theorem legacy_key_canonical_witness:
  "\<exists>k. build_legacy_nas_key [''data'', ''market'', ''tier=L1'', ''a.parquet''] [''data''] = Inr k \<and>
     build_nas_key [''data'', ''market'', ''tier=L1'', ''a.parquet''] [''data''] None = Inr (legacy_key_to_canonical k)"
proof -
  let ?p = "[''data'', ''market'', ''tier=L1'', ''a.parquet'']"
  obtain k where k: "build_legacy_nas_key ?p [''data''] = Inr k"
    by (simp add: build_legacy_nas_key_def extract_tier_def relative_to_def as_posix_def Let_def)
  have "relative_to ?p [''data''] = Inr [''market'', ''tier=L1'', ''a.parquet'']" by (simp add: relative_to_def)
  from legacy_key_canonical [OF k this] k show ?thesis by simp
qed

end
