(* ===== verification/DualWriter.thy ===== *)
theory DualWriter
  imports Promotion NasKey
begin

text \<open>
  \<^verbatim>\<open>nas_storage/dual_writer.py\<close>: writing a file locally and to the object store as one operation, and
  handing an existing file over to the store. It composes the uploader, the retry queue behind it,
  the promotion check and the object keys.

  The state is the local file system and the uploader's state. \<open>dual_env\<close> carries what happens
  around the call: whether the temporary copy could be written, the identifiers and clock
  readings for the two possible hand-overs to the retry queue, and the surroundings of the
  promotion. Metrics and latencies are left out.
\<close>

section \<open>Model\<close>

record 's dw =
  dw_fs :: "bytes fsys"
  dw_nas :: "'s nas"

record dual_env =
  de_copy_ok :: bool
  de_queue :: qenv
  de_requeue :: qenv
  de_promote :: promote_env

datatype dual_status = Committed | LocalOnly | DualHardFloorBlocked
datatype promote_outcome = PromoteCommitted | PromoteLocalOnly | PromoteAlready
datatype payload = PayloadBytes bytes | PayloadPath path

definition committed_statuses :: "put_status list" where
  "committed_statuses = [Uploaded, SkippedIdempotent, SkippedEtagOverwrite]"

definition tier_label_from_key :: "string \<Rightarrow> string" where
  "tier_label_from_key nas_key =
     (case first_tier (split_on CHR ''/'' nas_key) of None \<Rightarrow> ''unknown'' | Some t \<Rightarrow> t)"

text \<open>\<open>enqueue_retry\<close> with a path: its size is read first, then its content is copied.\<close>

definition enqueue_retry_path ::
  "qenv \<Rightarrow> string \<Rightarrow> path \<Rightarrow> string \<Rightarrow> 's dw \<Rightarrow> (py_error + unit) \<times> 's dw" where
  "enqueue_retry_path e key p sha256 w =
     (if n_queue (dw_nas w) = None then (Inr (), w)
      else case fs_get (dw_fs w) p of
             None \<Rightarrow> (Inl FileNotFoundError, w)
           | Some d \<Rightarrow> (case enqueue_retry e key d sha256 (dw_nas w) of (r, n) \<Rightarrow> (r, w\<lparr>dw_nas := n\<rparr>)))"

definition promote_after_nas_put ::
  "'s s3 \<Rightarrow> (bytes \<Rightarrow> string) \<Rightarrow> dual_env \<Rightarrow> path \<Rightarrow> string \<Rightarrow> string \<Rightarrow> 's dw \<Rightarrow> (py_error + promote_outcome) \<times> 's dw" where
  "promote_after_nas_put c hash e source nas_key sha256 w =
     (case promote_l1 c hash (de_promote e) source nas_key (dw_fs w, n_store (dw_nas w)) of
        (res, fs, s) \<Rightarrow>
          let w1 = \<lparr>dw_fs = fs, dw_nas = (dw_nas w)\<lparr>n_store := s\<rparr>\<rparr> in
          case res of
            Inr pr \<Rightarrow> (Inr PromoteCommitted, w1)
          | Inl x \<Rightarrow>
              if x = PromotionVerifyError then
                (case enqueue_retry_path (de_requeue e) nas_key source sha256 w1 of
                   (Inl y, w2) \<Rightarrow> (Inl y, w2)
                 | (Inr u, w2) \<Rightarrow> (Inr PromoteLocalOnly, w2))
              else if x = FileNotFoundError then (Inr PromoteAlready, w1)
              else if x = OSError then (Inr PromoteCommitted, w1)
              else (Inl x, w1))"

definition normalize_promote :: "(py_error + promote_outcome) \<times> 's dw \<Rightarrow> (py_error + dual_status) \<times> 's dw" where
  "normalize_promote r =
     (case r of (Inl x, w) \<Rightarrow> (Inl x, w)
      | (Inr PromoteLocalOnly, w) \<Rightarrow> (Inr LocalOnly, w)
      | (Inr p, w) \<Rightarrow> (Inr Committed, w))"

definition tmp_dw :: "path \<Rightarrow> path" where
  "tmp_dw local_path = path_add local_path ''.tmp_dw''"

definition payload_content :: "bytes fsys \<Rightarrow> payload \<Rightarrow> bytes option" where
  "payload_content fs data = (case data of PayloadBytes b \<Rightarrow> Some b | PayloadPath p \<Rightarrow> fs_get fs p)"

definition nas_upload ::
  "'s s3 \<Rightarrow> (bytes \<Rightarrow> string) \<Rightarrow> qenv \<Rightarrow> payload \<Rightarrow> bytes \<Rightarrow> string \<Rightarrow> string \<Rightarrow> 's nas \<Rightarrow> (py_error + put_status) \<times> 's nas" where
  "nas_upload c hash e data d nas_key sha256 n =
     (case data of
        PayloadPath p \<Rightarrow> put_streaming c e (SrcPath d) nas_key sha256 n
      | PayloadBytes b \<Rightarrow> put c hash e nas_key b (Some sha256) False n)"

text \<open>The second phase: the status of the upload decides.\<close>

definition dual_commit ::
  "'s s3 \<Rightarrow> (bytes \<Rightarrow> string) \<Rightarrow> dual_env \<Rightarrow> path \<Rightarrow> string \<Rightarrow> payload \<Rightarrow> string \<Rightarrow> path option \<Rightarrow> put_status \<Rightarrow> 's dw
     \<Rightarrow> (py_error + dual_status) \<times> 's dw" where
  "dual_commit c hash e local_path nas_key data sha256 source_to_delete status w =
     (if status \<in> set committed_statuses then
        let w1 = w\<lparr>dw_fs := fs_replace (tmp_dw local_path) local_path (dw_fs w)\<rparr> in
        case source_to_delete of
          Some src \<Rightarrow> normalize_promote (promote_after_nas_put c hash e src nas_key sha256 w1)
        | None \<Rightarrow>
            (case data of
               PayloadPath p \<Rightarrow>
                 if p \<noteq> local_path then normalize_promote (promote_after_nas_put c hash e p nas_key sha256 w1)
                 else (Inr Committed, w1)
             | PayloadBytes b \<Rightarrow> (Inr Committed, w1))
      else if status = Queued then
        (Inr LocalOnly, w\<lparr>dw_fs := fs_replace (tmp_dw local_path) local_path (dw_fs w)\<rparr>)
      else if status = PutHardFloorBlocked then
        (Inr DualHardFloorBlocked, w\<lparr>dw_fs := fs_del (tmp_dw local_path) (dw_fs w)\<rparr>)
      else (Inl RuntimeError, w\<lparr>dw_fs := fs_del (tmp_dw local_path) (dw_fs w)\<rparr>))"

definition dual_write ::
  "'s s3 \<Rightarrow> (bytes \<Rightarrow> string) \<Rightarrow> dual_env \<Rightarrow> path \<Rightarrow> string \<Rightarrow> payload \<Rightarrow> string \<Rightarrow> path option \<Rightarrow> 's dw
     \<Rightarrow> (py_error + dual_status) \<times> 's dw" where
  "dual_write c hash e local_path nas_key data sha256 source_to_delete w =
     (case payload_content (dw_fs w) data of
        None \<Rightarrow> (Inl FileNotFoundError, w)
      | Some d \<Rightarrow>
          if hash d \<noteq> sha256 then (Inl ValueError, w)
          else if \<not> de_copy_ok e then (Inl OSError, w\<lparr>dw_fs := fs_del (tmp_dw local_path) (dw_fs w)\<rparr>)
          else let fs1 = fs_put (tmp_dw local_path) d (dw_fs w) in
            case nas_upload c hash (de_queue e) data d nas_key sha256 (dw_nas w) of
              (Inl x, n) \<Rightarrow> (Inl x, \<lparr>dw_fs = fs_del (tmp_dw local_path) fs1, dw_nas = n\<rparr>)
            | (Inr status, n) \<Rightarrow>
                dual_commit c hash e local_path nas_key data sha256 source_to_delete status \<lparr>dw_fs = fs1, dw_nas = n\<rparr>)"

definition put_l1 ::
  "'s s3 \<Rightarrow> (bytes \<Rightarrow> string) \<Rightarrow> dual_env \<Rightarrow> path \<Rightarrow> path \<Rightarrow> 's dw \<Rightarrow> (py_error + dual_status) \<times> 's dw" where
  "put_l1 c hash e local_root p w =
     (case relative_to p local_root of
        Inl x \<Rightarrow> (Inl ValueError, w)
      | Inr rel \<Rightarrow>
          (case build_nas_key p local_root (Some ''L1'') of
             Inl x \<Rightarrow> (Inl x, w)
           | Inr nas_key \<Rightarrow>
               (case fs_get (dw_fs w) p of
                  None \<Rightarrow> (Inl FileNotFoundError, w)
                | Some d \<Rightarrow>
                    (case put_streaming c (de_queue e) (SrcPath d) nas_key (hash d) (dw_nas w) of
                       (Inl x, n) \<Rightarrow> (Inl x, w\<lparr>dw_nas := n\<rparr>)
                     | (Inr status, n) \<Rightarrow>
                         if status \<in> set committed_statuses
                         then normalize_promote (promote_after_nas_put c hash e p nas_key (hash d) (w\<lparr>dw_nas := n\<rparr>))
                         else if status = Queued then (Inr LocalOnly, w\<lparr>dw_nas := n\<rparr>)
                         else if status = PutHardFloorBlocked then (Inr DualHardFloorBlocked, w\<lparr>dw_nas := n\<rparr>)
                         else (Inr LocalOnly, w\<lparr>dw_nas := n\<rparr>)))))"

section \<open>Promotion after an upload\<close>

lemma enqueue_retry_effect:
  assumes "queue_ready e n" "enqueue_retry e k d h n = (r, n')"
  shows "n_store n' = n_store n" "queued_items n \<subseteq> queued_items n'"
proof -
  show "n_store n' = n_store n" "queued_items n \<subseteq> queued_items n'"
  proof (atomize (full), cases "n_queue n")
    case None
    then show "n_store n' = n_store n \<and> queued_items n \<subseteq> queued_items n'"
      using assms(2) by (simp add: enqueue_retry_def)
  next
    case (Some q)
    obtain r1 q1 where en: "enqueue e k d h q = (r1, q1)" by fastforce
    have "items q \<subseteq> items q1" using queue.enq_keeps [OF _ en] assms(1) Some by (simp add: queue_ready_def)
    then show "n_store n' = n_store n \<and> queued_items n \<subseteq> queued_items n'"
      using assms(2) Some en by (auto simp: enqueue_retry_def queued_items_def split: sum.splits)
  qed
qed

lemma enqueue_retry_path_effect:
  assumes "queue_ready e (dw_nas w)" "enqueue_retry_path e k p h w = (r, w')"
  shows "dw_fs w' = dw_fs w \<and> n_store (dw_nas w') = n_store (dw_nas w) \<and> queued_items (dw_nas w) \<subseteq> queued_items (dw_nas w')"
  using assms enqueue_retry_effect [OF assms(1)]
  by (fastforce simp: enqueue_retry_path_def split: if_splits option.splits prod.splits)

text \<open>
  After an upload left the object with digest \<open>h\<close> at the key, promotion of \<open>src\<close> changes only
  \<open>src\<close>, and deletes it only if its content has this digest.
\<close>

lemma promote_after_effect:
  assumes "s3_laws c v" "queue_ready (de_requeue e) (dw_nas w)" "\<not> pe_vanish (de_promote e)"
    and "holds (v (n_store (dw_nas w))) key h"
    and "normalize_promote (promote_after_nas_put c hash e src key sha w) = (r, w')"
  shows "v (n_store (dw_nas w')) = v (n_store (dw_nas w)) \<and> queued_items (dw_nas w) \<subseteq> queued_items (dw_nas w') \<and>
         (dw_fs w' = dw_fs w \<or> (r = Inr Committed \<and> dw_fs w' = fs_del src (dw_fs w) \<and>
            (\<exists>d. fs_get (dw_fs w) src = Some d \<and> hash d = h))) \<and> r \<noteq> Inr DualHardFloorBlocked"
proof -
  obtain pr fs s where p: "promote_l1 c hash (de_promote e) src key (dw_fs w, n_store (dw_nas w)) = (pr, fs, s)"
    by (metis prod_cases3)
  define w1 where "w1 = \<lparr>dw_fs = fs, dw_nas = (dw_nas w)\<lparr>n_store := s\<rparr>\<rparr>"
  obtain r2 w2 where q: "enqueue_retry_path (de_requeue e) key src sha w1 = (r2, w2)" by fastforce
  have ready: "queue_ready (de_requeue e) (dw_nas w1)" using assms(2) by (simp add: w1_def)
  note qe = enqueue_retry_path_effect [OF ready q]
  have dig: "hash d = h" if "verified hash (v (n_store (dw_nas w))) key d" for d
    using that assms(4) by (auto simp: verified_def holds_def)
  note pc = promote_l1_cases [OF assms(1) p]
  show ?thesis
  proof (cases pr)
    case (Inl x)
    then have "fs = dw_fs w" "v s = v (n_store (dw_nas w))" using pc assms(3) by auto
    moreover have "(w' = w1 \<or> w' = w2) \<and> r \<noteq> Inr DualHardFloorBlocked"
      using assms(5) p q Inl
      by (cases r2) (auto simp: promote_after_nas_put_def normalize_promote_def w1_def [symmetric] Let_def split: if_splits)
    ultimately show ?thesis using qe by (auto simp: w1_def)
  next
    case (Inr res)
    with pc assms(3) have "v s = v (n_store (dw_nas w))"
      "fs = dw_fs w \<or> (fs = fs_del src (dw_fs w) \<and> (\<exists>d. fs_get (dw_fs w) src = Some d \<and> hash d = h))" using dig by auto
    with assms(5) p Inr show ?thesis
      by (auto simp: promote_after_nas_put_def normalize_promote_def Let_def)
  qed
qed

section \<open>The two phases\<close>

lemma nas_upload_outcome:
  assumes "s3_laws c v" "queue_ready e n" "payload_content fs data = Some d" "nas_upload c hash e data d k h n = (r, n')"
  shows "upload_outcome v e k d h d n r n'"
proof (cases data)
  case (PayloadBytes b)
  with assms put_outcome(1) [OF assms(1,2), of hash k d h] show ?thesis by (simp add: nas_upload_def payload_content_def)
next
  case (PayloadPath p)
  with assms put_streaming_outcome [OF assms(1,2), of "SrcPath d" k h] show ?thesis
    by (simp add: nas_upload_def source_bytes_def source_after_failure_def)
qed

lemma tmp_dw_neq [simp]: "tmp_dw p \<noteq> p" "p \<noteq> tmp_dw p"
  using path_add_neq_self [of "''.tmp_dw''" p] by (auto simp: tmp_dw_def)

lemma fs_after_replace [simp]:
  "fs_get (fs_replace (tmp_dw p) p (fs_put (tmp_dw p) d fs)) q =
     (if q = p then Some d else if q = tmp_dw p then None else fs_get fs q)"
  by (simp add: fs_get_replace [of _ _ d] fs_simps)

lemma fs_after_rollback [simp]:
  "fs_get (fs_del t (fs_put t d fs)) q = (if q = t then None else fs_get fs q)"
  by (simp add: fs_simps)

text \<open>
  What a dual write of content \<open>d\<close> with digest \<open>h\<close> promises about the local file system, for
  each result: \<open>b\<close> is the bucket afterwards, \<open>items\<close> what is queued afterwards.
\<close>

definition kept :: "(bytes \<Rightarrow> string) \<Rightarrow> path \<Rightarrow> string \<Rightarrow> string \<Rightarrow> bytes fsys \<Rightarrow> bucket \<Rightarrow> bytes fsys \<Rightarrow> bool" where
  "kept hash local_path key h fs b fs' \<longleftrightarrow>
     (\<forall>p. p \<noteq> local_path \<longrightarrow> p \<noteq> tmp_dw local_path \<longrightarrow>
        fs_get fs' p = fs_get fs p \<or>
        (fs_get fs' p = None \<and> holds b key h \<and> (\<exists>d. fs_get fs p = Some d \<and> hash d = h)))"

definition dual_promise ::
  "path \<Rightarrow> string \<Rightarrow> bytes \<Rightarrow> string \<Rightarrow> bool \<Rightarrow> bytes fsys \<Rightarrow> py_error + dual_status \<Rightarrow> bucket
     \<Rightarrow> (string \<times> string \<times> bytes) set \<Rightarrow> bytes fsys \<Rightarrow> bool" where
  "dual_promise local_path key d h queue fs r b its fs' \<longleftrightarrow>
     (case r of
        Inr Committed \<Rightarrow> holds b key h \<and> (fs_get fs' local_path = Some d \<or> fs_get fs' local_path = None)
      | Inr LocalOnly \<Rightarrow> fs_get fs' local_path = Some d \<and> (holds b key h \<or> (queue \<longrightarrow> (key, h, d) \<in> its))
      | Inr DualHardFloorBlocked \<Rightarrow> fs_get fs' local_path = fs_get fs local_path
      | Inl x \<Rightarrow> fs_get fs' local_path = fs_get fs local_path \<or> fs_get fs' local_path = Some d)"

lemma dual_commit_committed:
  assumes "s3_laws c v" "queue_ready (de_requeue e) n" "\<not> pe_vanish (de_promote e)" "holds (v (n_store n)) key h"
    and "status \<in> set committed_statuses"
    and "dual_commit c hash e p key data h src status \<lparr>dw_fs = fs_put (tmp_dw p) d fs, dw_nas = n\<rparr> = (r, w')"
  shows "v (n_store (dw_nas w')) = v (n_store n) \<and> queued_items n \<subseteq> queued_items (dw_nas w') \<and>
         kept hash p key h fs (v (n_store (dw_nas w'))) (dw_fs w') \<and> fs_get (dw_fs w') (tmp_dw p) = None \<and>
         dual_promise p key d h (has_queue n) fs r (v (n_store (dw_nas w'))) (queued_items (dw_nas w')) (dw_fs w')"
proof -
  define w1 where "w1 = \<lparr>dw_fs = fs_replace (tmp_dw p) p (fs_put (tmp_dw p) d fs), dw_nas = n\<rparr>"
  have dw: "dw_nas w1 = n" by (simp add: w1_def)
  have get: "fs_get (dw_fs w1) q = (if q = p then Some d else if q = tmp_dw p then None else fs_get fs q)" for q
    by (simp add: w1_def)
  have promo: ?thesis if run: "normalize_promote (promote_after_nas_put c hash e s key h w1) = (r, w')" for s
  proof -
    have ready: "queue_ready (de_requeue e) (dw_nas w1)" "holds (v (n_store (dw_nas w1))) key h" using assms(2,4) by (simp_all add: dw)
    note e = promote_after_effect [OF assms(1) ready(1) assms(3) ready(2) run, unfolded dw]
    have "fs_get (dw_fs w') q = fs_get (dw_fs w1) q \<or>
        (fs_get (dw_fs w') q = None \<and> r = Inr Committed \<and> (\<exists>d. fs_get (dw_fs w1) q = Some d \<and> hash d = h))" for q
      using e by (cases "q = s") (auto simp: fs_simps)
    note g = this [unfolded get]
    have "kept hash p key h fs (v (n_store (dw_nas w'))) (dw_fs w')"
      unfolding kept_def
    proof (intro allI impI)
      fix q assume "q \<noteq> p" "q \<noteq> tmp_dw p"
      with g [of q] assms(4) e show "fs_get (dw_fs w') q = fs_get fs q \<or> (fs_get (dw_fs w') q = None \<and>
          holds (v (n_store (dw_nas w'))) key h \<and> (\<exists>d. fs_get fs q = Some d \<and> hash d = h))" by simp blast
    qed
    moreover have "fs_get (dw_fs w') (tmp_dw p) = None" using g [of "tmp_dw p"] by simp
    moreover have "dual_promise p key d h (has_queue n) fs r (v (n_store (dw_nas w'))) (queued_items (dw_nas w')) (dw_fs w')"
      using g [of p] assms(4) e by (auto simp: dual_promise_def split: sum.splits dual_status.splits)
    ultimately show ?thesis using e by simp
  qed
  have stay: ?thesis if "w' = w1" "r = Inr Committed"
    using that assms(4) by (simp add: kept_def get dw dual_promise_def)
  have "(\<exists>s. normalize_promote (promote_after_nas_put c hash e s key h w1) = (r, w')) \<or> (w' = w1 \<and> r = Inr Committed)"
    using assms(5,6) by (auto simp: dual_commit_def Let_def w1_def [symmetric] split: option.splits payload.splits if_splits)
  then show ?thesis by (elim disjE exE conjE) (rule promo, assumption, rule stay)
qed

lemma dual_write_run:
  assumes "s3_laws c v" "queue_ready (de_queue e) (dw_nas w)" "queue_ready (de_requeue e) (dw_nas w)"
    and "\<not> pe_vanish (de_promote e)" "payload_content (dw_fs w) data = Some d" "hash d = h" "de_copy_ok e"
    and "dual_write c hash e p key data h src w = (r, w')"
  shows "forward_only (v (n_store (dw_nas w))) (v (n_store (dw_nas w'))) \<and>
         queued_items (dw_nas w) \<subseteq> queued_items (dw_nas w') \<and>
         kept hash p key h (dw_fs w) (v (n_store (dw_nas w'))) (dw_fs w') \<and> fs_get (dw_fs w') (tmp_dw p) = None \<and>
         dual_promise p key d h (has_queue (dw_nas w)) (dw_fs w) r (v (n_store (dw_nas w'))) (queued_items (dw_nas w')) (dw_fs w')"
proof -
  obtain r1 n where up: "nas_upload c hash (de_queue e) data d key h (dw_nas w) = (r1, n)" by fastforce
  note o = nas_upload_outcome [OF assms(1,2,5) up]
  have fwd: "forward_only (v (n_store (dw_nas w))) (v (n_store n))"
    using o upload_effect_forward by (auto simp: upload_outcome_def)
  have its: "queued_items (dw_nas w) \<subseteq> queued_items n" using o by (simp add: upload_outcome_def)
  show ?thesis
  proof (cases r1)
    case (Inl x)
    with assms(5-8) up fwd its show ?thesis
      by (simp add: dual_write_def Let_def kept_def dual_promise_def) auto
  next
    case (Inr st)
    let ?w1 = "\<lparr>dw_fs = fs_put (tmp_dw p) d (dw_fs w), dw_nas = n\<rparr>"
    have run: "dual_commit c hash e p key data h src st ?w1 = (r, w')"
      using assms(5-8) up Inr by (simp add: dual_write_def Let_def)
    from o Inr consider (ok) "st \<in> {Uploaded, SkippedIdempotent}" "holds (v (n_store n)) key h" "n_queue n = n_queue (dw_nas w)"
      | (queued) "st = Queued" "has_queue (dw_nas w) \<longrightarrow> (key, h, d) \<in> queued_items n" | (blocked) "st = PutHardFloorBlocked"
      by (auto simp: upload_outcome_def)
    then show ?thesis
    proof cases
      case ok
      have "queue_ready (de_requeue e) n" "has_queue n = has_queue (dw_nas w)" "st \<in> set committed_statuses"
        using assms(3) ok(1,3) by (auto simp: queue_ready_def has_queue_def committed_statuses_def)
      with dual_commit_committed [OF assms(1) this(1) assms(4) ok(2) this(3) run] fwd its show ?thesis by auto
    next
      case queued
      with run fwd its show ?thesis by (simp add: dual_commit_def committed_statuses_def kept_def dual_promise_def) auto
    next
      case blocked
      with run fwd its show ?thesis by (simp add: dual_commit_def committed_statuses_def kept_def dual_promise_def) auto
    qed
  qed
qed

section \<open>Properties\<close>

definition example_dual_env :: dual_env where
  "example_dual_env = \<lparr>de_copy_ok = True, de_queue = example_qenv ''a'', de_requeue = example_qenv ''a'',
     de_promote = example_promote_env\<rparr>"

definition example_dw :: "bool \<Rightarrow> mem dw" where
  "example_dw up = \<lparr>dw_fs = [([''src''], ''data'')], dw_nas = example_nas up\<rparr>"

lemma example_dw_ready:
  "queue_ready (de_queue example_dual_env) (dw_nas (example_dw up))"
  "queue_ready (de_requeue example_dual_env) (dw_nas (example_dw up))" "\<not> pe_vanish (de_promote example_dual_env)"
  using example_nas_ready by (simp_all add: example_dual_env_def example_dw_def example_promote_env_def)

text \<open>
  C16. A dual write loses nothing. Content whose digest is not the announced one is refused with no
  effect at all. Otherwise, whatever the surroundings do short of removing the source at the same
  time: a file other than the target is left alone, or it was deleted and its content had the
  digest of the object now in the bucket; no object that carries a digest is changed and nothing
  queued is lost. With \<^verbatim>\<open>committed\<close> the object is in the bucket; with \<^verbatim>\<open>local_only\<close>
  the target file has the content and the bucket or, if there is one, the retry queue has it too; with
  \<^verbatim>\<open>hard_floor_blocked\<close> the target is as before. The temporary file is gone, unless the content was refused.
\<close>

theorem dual_write_no_loss:
  assumes "s3_laws c v" "queue_ready (de_queue e) (dw_nas w)" "queue_ready (de_requeue e) (dw_nas w)"
    and "\<not> pe_vanish (de_promote e)" "payload_content (dw_fs w) data = Some d"
    and "dual_write c hash e local_path key data h src w = (r, w')"
  shows "(hash d \<noteq> h \<longrightarrow> r = Inl ValueError \<and> w' = w) \<and>
         (hash d = h \<longrightarrow>
            kept hash local_path key h (dw_fs w) (v (n_store (dw_nas w'))) (dw_fs w') \<and>
            forward_only (v (n_store (dw_nas w))) (v (n_store (dw_nas w'))) \<and>
            queued_items (dw_nas w) \<subseteq> queued_items (dw_nas w') \<and>
            dual_promise local_path key d h (has_queue (dw_nas w)) (dw_fs w) r
              (v (n_store (dw_nas w'))) (queued_items (dw_nas w')) (dw_fs w') \<and>
            fs_get (dw_fs w') (tmp_dw local_path) = None)"
proof -
  have "r = Inl ValueError \<and> w' = w" if "hash d \<noteq> h" using assms(5,6) that by (simp add: dual_write_def)
  moreover have "kept hash local_path key h (dw_fs w) (v (n_store (dw_nas w'))) (dw_fs w') \<and>
      forward_only (v (n_store (dw_nas w))) (v (n_store (dw_nas w'))) \<and> queued_items (dw_nas w) \<subseteq> queued_items (dw_nas w') \<and>
      dual_promise local_path key d h (has_queue (dw_nas w)) (dw_fs w) r
        (v (n_store (dw_nas w'))) (queued_items (dw_nas w')) (dw_fs w') \<and> fs_get (dw_fs w') (tmp_dw local_path) = None"
    if "hash d = h"
  proof (cases "de_copy_ok e")
    case True
    from dual_write_run [OF assms(1-5) that True assms(6)] show ?thesis by simp
  next
    case False
    with assms(5,6) that show ?thesis by (auto simp: dual_write_def kept_def dual_promise_def fs_simps)
  qed
  ultimately show ?thesis by blast
qed

theorem dual_write_no_loss_witness:
  "\<exists>r w'. dual_write mem_s3 (\<lambda>d. ''h'') example_dual_env [''dst''] ''k'' (PayloadPath [''src'']) ''h'' None (example_dw True) = (r, w') \<and>
     dual_promise [''dst''] ''k'' ''data'' ''h'' True (dw_fs (example_dw True)) r
       (mem_view (n_store (dw_nas w'))) (queued_items (dw_nas w')) (dw_fs w')"
proof -
  obtain r w' where run: "dual_write mem_s3 (\<lambda>d. ''h'') example_dual_env [''dst''] ''k'' (PayloadPath [''src'']) ''h'' None
      (example_dw True) = (r, w')" by fastforce
  have "payload_content (dw_fs (example_dw True)) (PayloadPath [''src'']) = Some ''data''"
    by (simp add: payload_content_def example_dw_def fs_get_def)
  from dual_write_no_loss [OF mem_laws example_dw_ready this run] run
  have "dual_promise [''dst''] ''k'' ''data'' ''h'' (has_queue (dw_nas (example_dw True))) (dw_fs (example_dw True)) r
      (mem_view (n_store (dw_nas w'))) (queued_items (dw_nas w')) (dw_fs w')" by blast
  with run show ?thesis by (simp add: has_queue_def example_dw_def example_nas_def)
qed

text \<open>
  C17. Handing an L1 file over to the store: only that file can disappear, and if it does (without
  another process removing it) then the object under the key built from its path carries
  its digest; with \<^verbatim>\<open>hard_floor_blocked\<close> and on every exception the file is still there, and with
  \<^verbatim>\<open>local_only\<close> it is there as well.
\<close>

theorem put_l1_no_loss:
  assumes "s3_laws c v" "queue_ready (de_queue e) (dw_nas w)" "queue_ready (de_requeue e) (dw_nas w)"
    and "\<not> pe_vanish (de_promote e)" "put_l1 c hash e base p w = (r, w')"
  shows "(\<forall>q. q \<noteq> p \<longrightarrow> fs_get (dw_fs w') q = fs_get (dw_fs w) q) \<and>
         (\<forall>d. fs_get (dw_fs w) p = Some d \<longrightarrow> fs_get (dw_fs w') p = Some d \<or>
            (fs_get (dw_fs w') p = None \<and> r = Inr Committed \<and>
             (\<exists>key. build_nas_key p base (Some ''L1'') = Inr key \<and> holds (v (n_store (dw_nas w'))) key (hash d)))) \<and>
         forward_only (v (n_store (dw_nas w))) (v (n_store (dw_nas w'))) \<and>
         queued_items (dw_nas w) \<subseteq> queued_items (dw_nas w')"
proof (cases "\<exists>rel key d. relative_to p base = Inr rel \<and> build_nas_key p base (Some ''L1'') = Inr key \<and> fs_get (dw_fs w) p = Some d")
  case False
  have "w' = w"
  proof (cases "relative_to p base")
    case (Inr rel)
    with assms(5) False show ?thesis
      by (cases "build_nas_key p base (Some ''L1'')"; cases "fs_get (dw_fs w) p") (auto simp: put_l1_def)
  next
    case (Inl x)
    with assms(5) show ?thesis by (simp add: put_l1_def)
  qed
  then show ?thesis by simp
next
  case True
  then obtain rel key d where k: "relative_to p base = Inr rel" "build_nas_key p base (Some ''L1'') = Inr key"
    "fs_get (dw_fs w) p = Some d" by blast
  obtain r1 n where up: "put_streaming c (de_queue e) (SrcPath d) key (hash d) (dw_nas w) = (r1, n)" by fastforce
  have o: "upload_outcome v (de_queue e) key d (hash d) d (dw_nas w) r1 n"
    using put_streaming_outcome [OF assms(1,2) up] by (simp add: source_bytes_def source_after_failure_def)
  have fwd: "forward_only (v (n_store (dw_nas w))) (v (n_store n))" "queued_items (dw_nas w) \<subseteq> queued_items n"
    using o upload_effect_forward by (auto simp: upload_outcome_def)
  consider (stay) "w' = w\<lparr>dw_nas := n\<rparr>"
    | (promote) st where "r1 = Inr st" "st \<in> set committed_statuses"
      "normalize_promote (promote_after_nas_put c hash e p key (hash d) (w\<lparr>dw_nas := n\<rparr>)) = (r, w')"
    using assms(5) k up by (cases r1) (auto simp: put_l1_def split: if_splits)
  then show ?thesis
  proof cases
    case stay
    with fwd k show ?thesis by simp
  next
    case promote
    have h: "holds (v (n_store n)) key (hash d)" "n_queue n = n_queue (dw_nas w)"
      using o promote(1,2) by (auto simp: upload_outcome_def committed_statuses_def)
    then have "queue_ready (de_requeue e) (dw_nas (w\<lparr>dw_nas := n\<rparr>))" "holds (v (n_store (dw_nas (w\<lparr>dw_nas := n\<rparr>)))) key (hash d)"
      using assms(3) by (simp_all add: queue_ready_def)
    note pe = promote_after_effect [OF assms(1) this(1) assms(4) this(2) promote(3)]
    show ?thesis using pe fwd k h by (auto simp: fs_simps)
  qed
qed

theorem put_l1_no_loss_witness:
  "\<exists>r w'. put_l1 mem_s3 (\<lambda>d. ''h'') example_dual_env [] [''src''] (example_dw True) = (r, w') \<and>
     (fs_get (dw_fs w') [''src''] = Some ''data'' \<or> r = Inr Committed)"
proof -
  obtain r w' where run: "put_l1 mem_s3 (\<lambda>d. ''h'') example_dual_env [] [''src''] (example_dw True) = (r, w')" by fastforce
  have "fs_get (dw_fs (example_dw True)) [''src''] = Some ''data''" by (simp add: example_dw_def fs_get_def)
  with put_l1_no_loss [OF mem_laws example_dw_ready run] run show ?thesis by blast
qed

end
