(* ===== verification/ReaderCache.thy ===== *)
theory ReaderCache
  imports Prelude
begin

text \<open>
  \<^verbatim>\<open>io/reader_cache.py\<close>: the LRU cache with expiry and byte budget in front of the object store. The
  \<^verbatim>\<open>OrderedDict\<close> is the list of its entries, the least recently used first. Clock readings, the
  measured latency and the random part of a probe key are arguments; every locked section is one step.

  What readers rely on is the locale \<open>cache_interface\<close>: a look-up answers only what was stored
  under the key, and no operation invents an entry.
\<close>

section \<open>Model\<close>

record cache_entry =
  ce_value :: bytes
  ce_inserted_at :: seconds
  ce_last_accessed_at :: seconds

record rcache =
  rc_capacity :: int
  rc_ttl_seconds :: seconds
  rc_max_bytes :: "int option"
  rc_cache :: "(string \<times> cache_entry) list"
  rc_hit_count :: nat
  rc_miss_count :: nat
  rc_current_bytes :: int
  rc_latency_window_size :: nat
  rc_latencies :: "rat list"

definition init_rcache :: "int \<Rightarrow> seconds \<Rightarrow> int option \<Rightarrow> nat \<Rightarrow> rcache" where
  "init_rcache capacity ttl max_bytes win =
     \<lparr>rc_capacity = capacity, rc_ttl_seconds = ttl, rc_max_bytes = max_bytes, rc_cache = [], rc_hit_count = 0,
      rc_miss_count = 0, rc_current_bytes = 0, rc_latency_window_size = win, rc_latencies = []\<rparr>"

text \<open>\<^verbatim>\<open>deque(maxlen=n).append\<close> drops from the front.\<close>

definition note_latency :: "rat \<Rightarrow> rcache \<Rightarrow> rcache" where
  "note_latency lat c =
     (let xs = rc_latencies c @ [lat] in c\<lparr>rc_latencies := drop (length xs - rc_latency_window_size c) xs\<rparr>)"

text \<open>Assignment to an entry followed by \<^verbatim>\<open>move_to_end\<close>.\<close>

definition to_end :: "string \<Rightarrow> cache_entry \<Rightarrow> rcache \<Rightarrow> rcache" where
  "to_end key e c = c\<lparr>rc_cache := AList.delete key (rc_cache c) @ [(key, e)]\<rparr>"

definition cache_get :: "seconds \<Rightarrow> rat \<Rightarrow> string \<Rightarrow> rcache \<Rightarrow> bytes option \<times> rcache" where
  "cache_get now lat key c =
     (case map_of (rc_cache c) key of
        None \<Rightarrow> (None, note_latency lat (c\<lparr>rc_miss_count := Suc (rc_miss_count c)\<rparr>))
      | Some entry \<Rightarrow>
          if ce_inserted_at entry + rc_ttl_seconds c < now
          then (None, note_latency lat
                  (c\<lparr>rc_cache := AList.delete key (rc_cache c), rc_miss_count := Suc (rc_miss_count c)\<rparr>))
          else (Some (ce_value entry), note_latency lat
                  ((to_end key (entry\<lparr>ce_last_accessed_at := now\<rparr>) c)\<lparr>rc_hit_count := Suc (rc_hit_count c)\<rparr>)))"

text \<open>The loop that makes room for \<open>n\<close> more bytes.\<close>

fun evict_bytes :: "int \<Rightarrow> int \<Rightarrow> (string \<times> cache_entry) list \<Rightarrow> int \<Rightarrow> (string \<times> cache_entry) list \<times> int" where
  "evict_bytes max_bytes n [] current = ([], current)"
| "evict_bytes max_bytes n (x # xs) current =
     (if max_bytes < current + n then evict_bytes max_bytes n xs (current - int (length (ce_value (snd x))))
      else (x # xs, current))"

definition make_room :: "int \<Rightarrow> rcache \<Rightarrow> rcache" where
  "make_room n c =
     (case rc_max_bytes c of
        None \<Rightarrow> c
      | Some m \<Rightarrow> (case evict_bytes m n (rc_cache c) (rc_current_bytes c) of
                     (es, b) \<Rightarrow> c\<lparr>rc_cache := es, rc_current_bytes := b\<rparr>))"

text \<open>\<^verbatim>\<open>popitem\<close> on an empty dictionary raises.\<close>

definition evict_one :: "rcache \<Rightarrow> (py_error + unit) \<times> rcache" where
  "evict_one c =
     (case rc_cache c of
        [] \<Rightarrow> (Inl KeyError, c)
      | x # xs \<Rightarrow> (Inr (), c\<lparr>rc_cache := xs,
                             rc_current_bytes := rc_current_bytes c - int (length (ce_value (snd x)))\<rparr>))"

definition cache_put :: "seconds \<Rightarrow> string \<Rightarrow> bytes \<Rightarrow> rcache \<Rightarrow> (py_error + unit) \<times> rcache" where
  "cache_put now key val c =
     (let entry = \<lparr>ce_value = val, ce_inserted_at = now, ce_last_accessed_at = now\<rparr> in
      case map_of (rc_cache c) key of
        Some old \<Rightarrow>
          (Inr (), (to_end key entry c)\<lparr>rc_current_bytes :=
                     rc_current_bytes c - int (length (ce_value old)) + int (length val)\<rparr>)
      | None \<Rightarrow>
          (let c1 = make_room (int (length val)) c in
           case (if rc_capacity c1 \<le> int (length (rc_cache c1)) then evict_one c1 else (Inr (), c1)) of
             (Inl x, c2) \<Rightarrow> (Inl x, c2)
           | (Inr u, c2) \<Rightarrow>
               (Inr (), (to_end key entry c2)\<lparr>rc_current_bytes := rc_current_bytes c2 + int (length val)\<rparr>)))"

datatype flush_status = Flushed | PartialFlushFailed | VerifyProbeFailed

record flush_result =
  fr_status :: flush_status
  fr_flushed_count :: nat
  fr_remaining_count :: nat

definition reset_counters :: "rcache \<Rightarrow> rcache" where
  "reset_counters c = c\<lparr>rc_hit_count := 0, rc_miss_count := 0, rc_latencies := []\<rparr>"

definition probe_prefix :: string where
  "probe_prefix = ''__verify_probe_''"

definition flush_all :: "seconds \<Rightarrow> seconds \<Rightarrow> rat \<Rightarrow> string \<Rightarrow> rcache \<Rightarrow> (py_error + flush_result) \<times> rcache" where
  "flush_all now later lat uuid c =
     (let probe = probe_prefix @ uuid;
          c1 = (reset_counters c)\<lparr>rc_cache := [], rc_current_bytes := 0\<rparr> in
      case cache_put now probe ''verify_probe'' c1 of
        (Inl x, c2) \<Rightarrow> (Inl x, c2)
      | (Inr u, c2) \<Rightarrow>
          (let c3 = (case map_of (rc_cache c2) probe of
                       None \<Rightarrow> c2
                     | Some e \<Rightarrow> c2\<lparr>rc_cache := AList.delete probe (rc_cache c2),
                                   rc_current_bytes := rc_current_bytes c2 - int (length (ce_value e))\<rparr>);
               remaining = length (rc_cache c3) in
           case cache_get later lat probe c3 of
             (after, c4) \<Rightarrow>
               (Inr \<lparr>fr_status = (if after \<noteq> None then VerifyProbeFailed
                                 else if 0 < remaining then PartialFlushFailed else Flushed),
                     fr_flushed_count = length (rc_cache c), fr_remaining_count = remaining\<rparr>,
                reset_counters c4)))"

definition verify_flushed :: "seconds \<Rightarrow> seconds \<Rightarrow> rat \<Rightarrow> string \<Rightarrow> rcache \<Rightarrow> (py_error + bool) \<times> rcache" where
  "verify_flushed now later lat uuid c =
     (if rc_cache c \<noteq> [] then (Inr False, c)
      else let probe = probe_prefix @ ''check_'' @ uuid in
           case cache_put now probe ''check'' c of
             (Inl x, c1) \<Rightarrow> (Inl x, c1)
           | (Inr u, c1) \<Rightarrow>
               (case cache_get later lat probe (c1\<lparr>rc_cache := AList.delete probe (rc_cache c1)\<rparr>) of
                  (after, c2) \<Rightarrow> (Inr (after = None), reset_counters c2)))"

definition hit_ratio :: "rcache \<Rightarrow> rat" where
  "hit_ratio c =
     (let n = rc_hit_count c + rc_miss_count c in
      if 0 < n then rat_of_nat (rc_hit_count c) / rat_of_nat n else 0)"

definition p99_ms :: "rcache \<Rightarrow> rat" where
  "p99_ms c =
     (let xs = sort (rc_latencies c); n = int (length xs) in
      if xs = [] then 0
      else xs ! nat (max 0 (min (n - 1) (\<lceil>rat_of_int n * (99 / 100)\<rceil> - 1))))"

section \<open>What readers rely on\<close>

definition cached :: "rcache \<Rightarrow> string \<Rightarrow> bytes \<Rightarrow> bool" where
  "cached c k val \<longleftrightarrow> (\<exists>e. (k, e) \<in> set (rc_cache c) \<and> ce_value e = val)"

locale cache_interface =
  fixes get :: "'t \<Rightarrow> string \<Rightarrow> 'c \<Rightarrow> bytes option \<times> 'c"
    and put :: "'u \<Rightarrow> string \<Rightarrow> bytes \<Rightarrow> 'c \<Rightarrow> (py_error + unit) \<times> 'c"
    and has :: "'c \<Rightarrow> string \<Rightarrow> bytes \<Rightarrow> bool"
  assumes get_has: "get t k c = (Some val, c') \<Longrightarrow> has c k val"
    and get_keeps: "get t k c = (res, c') \<Longrightarrow> has c' k' val' \<Longrightarrow> has c k' val'"
    and put_keeps: "put u k val c = (r, c') \<Longrightarrow> has c' k' val' \<Longrightarrow> (k' = k \<and> val' = val) \<or> has c k' val'"
begin

definition coherent :: "(string \<Rightarrow> bytes \<Rightarrow> bool) \<Rightarrow> 'c \<Rightarrow> bool" where
  "coherent P c \<longleftrightarrow> (\<forall>k val. has c k val \<longrightarrow> P k val)"

lemma coherent_get:
  assumes "coherent P c" "get t k c = (res, c')"
  shows "coherent P c'" "res = Some val \<Longrightarrow> P k val"
  using assms get_has get_keeps unfolding coherent_def by blast+

lemma coherent_put: "coherent P c \<Longrightarrow> P k val \<Longrightarrow> put u k val c = (r, c') \<Longrightarrow> coherent P c'"
  using put_keeps unfolding coherent_def by blast

end

lemma note_latency_simps [simp]:
  "rc_cache (note_latency l c) = rc_cache c" "rc_current_bytes (note_latency l c) = rc_current_bytes c"
  "rc_max_bytes (note_latency l c) = rc_max_bytes c" "rc_capacity (note_latency l c) = rc_capacity c"
  "rc_ttl_seconds (note_latency l c) = rc_ttl_seconds c"
  by (simp_all add: note_latency_def Let_def)

lemma to_end_simps [simp]:
  "rc_cache (to_end k e c) = AList.delete k (rc_cache c) @ [(k, e)]" "rc_capacity (to_end k e c) = rc_capacity c"
  "rc_current_bytes (to_end k e c) = rc_current_bytes c" "rc_max_bytes (to_end k e c) = rc_max_bytes c"
  by (simp_all add: to_end_def)

lemma map_of_to_end: "map_of (AList.delete k es @ [(k, e)]) k' = (if k' = k then Some e else map_of es k')"
  by (simp add: map_add_def delete_conv' split: option.splits)

lemma set_delete: "set (AList.delete k es) = {x \<in> set es. fst x \<noteq> k}"
  by (auto simp: AList.delete_eq)

lemma distinct_to_end: "distinct (map fst es) \<Longrightarrow> distinct (map fst (AList.delete k es @ [(k, e)]))"
  by (simp add: distinct_delete) (auto simp: set_delete)

lemma evict_bytes_suffix: "evict_bytes m n es b = (es', b') \<Longrightarrow> \<exists>pre. es = pre @ es'"
  by (induction m n es b rule: evict_bytes.induct) (auto split: if_splits intro: exI [of _ "[]"] simp: Cons_eq_append_conv)

lemma make_room_subset: "set (rc_cache (make_room n c)) \<subseteq> set (rc_cache c)"
  using evict_bytes_suffix by (fastforce simp: make_room_def split: option.splits prod.splits)

lemma evict_one_subset: "evict_one c = (r, c') \<Longrightarrow> set (rc_cache c') \<subseteq> set (rc_cache c)"
  by (auto simp: evict_one_def split: list.splits)

lemma cache_put_set:
  assumes "cache_put now key val c = (r, c')"
  shows "set (rc_cache c') \<subseteq> insert (key, \<lparr>ce_value = val, ce_inserted_at = now, ce_last_accessed_at = now\<rparr>) (set (rc_cache c))"
proof -
  define c1 where "c1 = make_room (int (length val)) c"
  obtain r2 c2 where e: "(if rc_capacity c1 \<le> int (length (rc_cache c1)) then evict_one c1 else (Inr (), c1)) = (r2, c2)" by fastforce
  have "set (rc_cache c2) \<subseteq> set (rc_cache c1)" using e evict_one_subset by (auto split: if_splits)
  then have "set (rc_cache c2) \<subseteq> set (rc_cache c)" using make_room_subset [of "int (length val)" c] by (auto simp: c1_def)
  then show ?thesis
    using assms e by (auto simp: cache_put_def Let_def c1_def [symmetric] set_delete split: option.splits sum.splits)
qed

interpretation rcache: cache_interface "\<lambda>(now, lat). cache_get now lat" cache_put cached
proof unfold_locales
  fix t k c val c'
  assume "(case t of (now, lat) \<Rightarrow> cache_get now lat) k c = (Some val, c')"
  then show "cached c k val"
    by (auto simp: cache_get_def cached_def split: prod.splits option.splits if_splits dest: map_of_SomeD)
next
  fix t k c res c' k' val'
  assume "(case t of (now, lat) \<Rightarrow> cache_get now lat) k c = (res, c')" "cached c' k' val'"
  then show "cached c k' val'"
    by (force simp: cache_get_def cached_def set_delete split: prod.splits option.splits if_splits dest: map_of_SomeD)
next
  fix u k val c r c' k' val'
  assume "cache_put u k val c = (r, c')" "cached c' k' val'"
  then show "(k' = k \<and> val' = val) \<or> cached c k' val'"
    using cache_put_set [of u k val c r c'] by (auto simp: cached_def)
qed

section \<open>Accounting\<close>

definition byte_sum :: "(string \<times> cache_entry) list \<Rightarrow> int" where
  "byte_sum es = (\<Sum>x\<leftarrow>es. int (length (ce_value (snd x))))"

definition rc_ok :: "rcache \<Rightarrow> bool" where
  "rc_ok c \<longleftrightarrow> distinct (map fst (rc_cache c)) \<and> int (length (rc_cache c)) \<le> rc_capacity c \<and> rc_current_bytes c = byte_sum (rc_cache c)"

lemma byte_sum_simps [simp]: "byte_sum [] = 0" "byte_sum (x # es) = int (length (ce_value (snd x))) + byte_sum es"
  "byte_sum (es @ fs) = byte_sum es + byte_sum fs"
  by (simp_all add: byte_sum_def)

lemma byte_sum_nonneg: "0 \<le> byte_sum es"
  by (induction es) auto

lemma delete_absent: "k \<notin> set (map fst es) \<Longrightarrow> AList.delete k es = es"
  by (induction es) auto

lemma byte_sum_delete:
  "distinct (map fst es) \<Longrightarrow> map_of es k = Some e \<Longrightarrow> byte_sum (AList.delete k es) = byte_sum es - int (length (ce_value e))"
proof (induction es)
  case (Cons x es)
  show ?case
  proof (cases "fst x = k")
    case True
    then have "AList.delete k es = es" using Cons.prems(1) by (intro delete_absent) simp
    with True Cons.prems show ?thesis by (cases x) simp
  next
    case False
    with Cons show ?thesis by (cases x) auto
  qed
qed simp

lemma length_delete_key: "map_of es k = Some e \<Longrightarrow> length (AList.delete k es) < length es"
  by (induction es) (auto simp: le_imp_less_Suc AList.delete_eq)

lemma evict_bytes_sum:
  assumes "evict_bytes m n es (byte_sum es) = (es', b')"
  shows "b' = byte_sum es' \<and> (b' + n \<le> m \<or> es' = [])"
  using assms
proof (induction es)
  case (Cons x es)
  have eq: "int (length (ce_value (snd x))) + byte_sum es - int (length (ce_value (snd x))) = byte_sum es" by simp
  show ?case using Cons.prems Cons.IH by (auto simp: eq split: if_splits)
qed simp

lemma make_room_ok:
  assumes "rc_ok c"
  shows "rc_ok (make_room n c)" "rc_capacity (make_room n c) = rc_capacity c" "rc_max_bytes (make_room n c) = rc_max_bytes c"
    "\<exists>pre. rc_cache c = pre @ rc_cache (make_room n c)"
    "rc_max_bytes c = Some m \<Longrightarrow> byte_sum (rc_cache (make_room n c)) + n \<le> m \<or> rc_cache (make_room n c) = []"
proof -
  have all: "rc_ok (make_room n c) \<and> rc_capacity (make_room n c) = rc_capacity c \<and> rc_max_bytes (make_room n c) = rc_max_bytes c \<and>
    (\<exists>pre. rc_cache c = pre @ rc_cache (make_room n c)) \<and>
    (\<forall>m. rc_max_bytes c = Some m \<longrightarrow> byte_sum (rc_cache (make_room n c)) + n \<le> m \<or> rc_cache (make_room n c) = [])"
  proof (cases "rc_max_bytes c")
    case None
    with assms show ?thesis by (simp add: make_room_def)
  next
    case (Some m)
    obtain es b where ev: "evict_bytes m n (rc_cache c) (byte_sum (rc_cache c)) = (es, b)" by fastforce
    obtain pre where pre: "rc_cache c = pre @ es" using evict_bytes_suffix [OF ev] by blast
    have "make_room n c = c\<lparr>rc_cache := es, rc_current_bytes := b\<rparr>"
      using assms Some ev by (simp add: make_room_def rc_ok_def)
    with assms Some pre evict_bytes_sum [OF ev] show ?thesis by (auto simp: rc_ok_def)
  qed
  then show "rc_ok (make_room n c)" "rc_capacity (make_room n c) = rc_capacity c" "rc_max_bytes (make_room n c) = rc_max_bytes c"
    "\<exists>pre. rc_cache c = pre @ rc_cache (make_room n c)"
    "rc_max_bytes c = Some m \<Longrightarrow> byte_sum (rc_cache (make_room n c)) + n \<le> m \<or> rc_cache (make_room n c) = []" by blast+
qed

lemma cache_put_new:
  assumes "rc_ok c" "1 \<le> rc_capacity c" "map_of (rc_cache c) k = None" "cache_put now k val c = (r, c')"
  shows "r = Inr () \<and> rc_ok c' \<and>
    (\<exists>pre rest. rc_cache c = pre @ rest \<and>
       rc_cache c' = rest @ [(k, \<lparr>ce_value = val, ce_inserted_at = now, ce_last_accessed_at = now\<rparr>)] \<and>
       (\<forall>m. rc_max_bytes c = Some m \<longrightarrow> byte_sum rest + int (length val) \<le> m \<or> rest = []))"
proof -
  let ?n = "int (length val)" and ?e = "\<lparr>ce_value = val, ce_inserted_at = now, ce_last_accessed_at = now\<rparr>"
  define c1 where "c1 = make_room ?n c"
  note room = make_room_ok [where n = ?n, OF assms(1), folded c1_def]
  obtain pre where pre: "rc_cache c = pre @ rc_cache c1" using room(4) by blast
  obtain c2 pre2 where c2: "(if rc_capacity c1 \<le> int (length (rc_cache c1)) then evict_one c1 else (Inr (), c1)) = (Inr (), c2)"
    "rc_cache c1 = pre2 @ rc_cache c2" "rc_current_bytes c2 = byte_sum (rc_cache c2)"
    "int (length (rc_cache c2)) + 1 \<le> rc_capacity c" "rc_capacity c2 = rc_capacity c"
  proof (cases "rc_capacity c1 \<le> int (length (rc_cache c1))")
    case True
    then obtain x xs where xs: "rc_cache c1 = x # xs" using assms(2) room(2) by (cases "rc_cache c1") auto
    show ?thesis
      by (rule that [of "c1\<lparr>rc_cache := xs, rc_current_bytes := rc_current_bytes c1 - int (length (ce_value (snd x)))\<rparr>" "[x]"])
        (use True xs room(1,2) in \<open>auto simp: evict_one_def rc_ok_def\<close>)
  next
    case False
    show ?thesis by (rule that [of c1 "[]"]) (use False room(1,2) in \<open>auto simp: rc_ok_def\<close>)
  qed
  have parts: "rc_cache c = (pre @ pre2) @ rc_cache c2" using pre c2(2) by simp
  have absent: "k \<notin> set (map fst (rc_cache c))" using assms(3) by (simp add: map_of_eq_None_iff)
  then have absent2: "k \<notin> set (map fst (rc_cache c2))" using parts by auto
  have c': "r = Inr ()" "rc_cache c' = rc_cache c2 @ [(k, ?e)]" "rc_current_bytes c' = byte_sum (rc_cache c2) + ?n" "rc_capacity c' = rc_capacity c"
    using assms(3,4) c2(1,3,5) delete_absent [OF absent2] by (auto simp: cache_put_def Let_def c1_def [symmetric])
  have "distinct (map fst (rc_cache c2))" using assms(1) parts by (simp add: rc_ok_def)
  then have "rc_ok c'" using c' c2(4) absent2 by (simp add: rc_ok_def)
  moreover have "byte_sum (rc_cache c2) + ?n \<le> m \<or> rc_cache c2 = []" if "rc_max_bytes c = Some m" for m
    using room(5) [OF that] c2(2) byte_sum_nonneg [of pre2] by auto
  ultimately show ?thesis using c'(1,2) parts by blast
qed

lemma cache_put_old:
  assumes "rc_ok c" "map_of (rc_cache c) k = Some old" "cache_put now k val c = (r, c')"
  shows "r = Inr () \<and> rc_ok c' \<and>
    rc_cache c' = AList.delete k (rc_cache c) @ [(k, \<lparr>ce_value = val, ce_inserted_at = now, ce_last_accessed_at = now\<rparr>)]"
proof -
  let ?e = "\<lparr>ce_value = val, ce_inserted_at = now, ce_last_accessed_at = now\<rparr>"
  have c': "r = Inr ()" "rc_cache c' = AList.delete k (rc_cache c) @ [(k, ?e)]" "rc_capacity c' = rc_capacity c"
    "rc_current_bytes c' = rc_current_bytes c - int (length (ce_value old)) + int (length val)"
    using assms(2,3) by (auto simp: cache_put_def Let_def)
  have "distinct (map fst (rc_cache c'))" unfolding c'(2) using assms(1) by (intro distinct_to_end) (simp add: rc_ok_def)
  with c' assms(1) byte_sum_delete [OF _ assms(2)] length_delete_key [OF assms(2)] show ?thesis by (simp add: rc_ok_def)
qed

section \<open>Properties\<close>



text \<open>
  Reading and flushing: a look-up of an entry that has not expired answers its value, makes it the
  most recently used and keeps the accounting exact; an unknown or expired key answers nothing;
  and flushing a cache of capacity at least one reports \<^verbatim>\<open>flushed\<close> with the number of entries it
  had, leaving no entry and no bytes.
\<close>

lemma cache_get_and_flush:
  assumes "rc_ok c" "1 \<le> rc_capacity c"
  shows "(\<forall>e. map_of (rc_cache c) k = Some e \<longrightarrow> now \<le> ce_inserted_at e + rc_ttl_seconds c \<longrightarrow>
            (\<exists>c'. cache_get now lat k c = (Some (ce_value e), c') \<and> rc_ok c' \<and>
               rc_cache c' = AList.delete k (rc_cache c) @ [(k, e\<lparr>ce_last_accessed_at := now\<rparr>)])) \<and>
         (\<forall>e. map_of (rc_cache c) k = Some e \<longrightarrow> ce_inserted_at e + rc_ttl_seconds c < now \<longrightarrow>
            (\<exists>c'. cache_get now lat k c = (None, c') \<and> map_of (rc_cache c') k = None)) \<and>
         (map_of (rc_cache c) k = None \<longrightarrow> (\<exists>c'. cache_get now lat k c = (None, c') \<and> rc_cache c' = rc_cache c)) \<and>
         (\<exists>c'. flush_all now later lat uuid c =
              (Inr \<lparr>fr_status = Flushed, fr_flushed_count = length (rc_cache c), fr_remaining_count = 0\<rparr>, c') \<and>
            rc_cache c' = [] \<and> rc_ok c')"
proof (intro conjI allI impI)
  fix e assume e: "map_of (rc_cache c) k = Some e" "now \<le> ce_inserted_at e + rc_ttl_seconds c"
  have "distinct (map fst (AList.delete k (rc_cache c) @ [(k, e\<lparr>ce_last_accessed_at := now\<rparr>)]))"
    using assms(1) by (intro distinct_to_end) (simp add: rc_ok_def)
  with e assms(1) byte_sum_delete [OF _ e(1)] length_delete_key [OF e(1)]
  show "\<exists>c'. cache_get now lat k c = (Some (ce_value e), c') \<and> rc_ok c' \<and>
      rc_cache c' = AList.delete k (rc_cache c) @ [(k, e\<lparr>ce_last_accessed_at := now\<rparr>)]"
    by (auto simp: cache_get_def rc_ok_def)
next
  fix e assume "map_of (rc_cache c) k = Some e" "ce_inserted_at e + rc_ttl_seconds c < now"
  then show "\<exists>c'. cache_get now lat k c = (None, c') \<and> map_of (rc_cache c') k = None"
    by (simp add: cache_get_def delete_conv')
next
  assume "map_of (rc_cache c) k = None"
  then show "\<exists>c'. cache_get now lat k c = (None, c') \<and> rc_cache c' = rc_cache c" by (simp add: cache_get_def)
next
  show "\<exists>c'. flush_all now later lat uuid c =
      (Inr \<lparr>fr_status = Flushed, fr_flushed_count = length (rc_cache c), fr_remaining_count = 0\<rparr>, c') \<and> rc_cache c' = [] \<and> rc_ok c'"
    using assms
    by (cases "rc_max_bytes c")
      (simp_all add: flush_all_def cache_put_def cache_get_def make_room_def reset_counters_def Let_def rc_ok_def)
qed

text \<open>
  Where the byte accounting goes wrong: the look-up of an expired entry removes the entry but not
  its bytes, and a successful \<^verbatim>\<open>verify_flushed\<close> on an empty cache leaves the five bytes of its probe
  counted. The budget then evicts entries for bytes that no entry has.
\<close>

lemma cache_bytes_drift:
  assumes "rc_ok c" "1 \<le> rc_capacity c"
  shows "(\<forall>e. map_of (rc_cache c) k = Some e \<longrightarrow> ce_inserted_at e + rc_ttl_seconds c < now \<longrightarrow>
            (\<exists>c'. cache_get now lat k c = (None, c') \<and>
               rc_current_bytes c' = byte_sum (rc_cache c') + int (length (ce_value e)))) \<and>
         (rc_cache c = [] \<longrightarrow>
            (\<exists>c'. verify_flushed now later lat uuid c = (Inr True, c') \<and> rc_cache c' = [] \<and> rc_current_bytes c' = 5))"
proof (intro conjI allI impI)
  fix e assume e: "map_of (rc_cache c) k = Some e" "ce_inserted_at e + rc_ttl_seconds c < now"
  then show "\<exists>c'. cache_get now lat k c = (None, c') \<and> rc_current_bytes c' = byte_sum (rc_cache c') + int (length (ce_value e))"
    using assms(1) byte_sum_delete [OF _ e(1)] by (simp add: cache_get_def rc_ok_def)
next
  assume "rc_cache c = []"
  with assms show "\<exists>c'. verify_flushed now later lat uuid c = (Inr True, c') \<and> rc_cache c' = [] \<and> rc_current_bytes c' = 5"
    by (cases "rc_max_bytes c")
      (simp_all add: verify_flushed_def cache_put_def cache_get_def make_room_def reset_counters_def Let_def rc_ok_def)
qed

end
