(* ===== verification/DrMode.thy ===== *)
theory DrMode
  imports Prelude
begin

text \<open>
  \<^verbatim>\<open>io/dr_mode.py\<close>: the circuit breaker in front of the object store. Each method runs under the lock
  and is one step; the clock readings it makes are arguments. Calls of the public methods
  form the events of a step relation, and the invariants are proved over everything
  reachable from the initial state. Metrics are left out except the two counters kept in the object.
\<close>

section \<open>Model\<close>

datatype dr_state = CLOSED | OPEN | HALF_OPEN | UNKNOWN_TIER

record dr_config =
  consecutive_failure_threshold :: int
  sliding_window_seconds :: seconds
  error_count_threshold :: int
  latency_p99_threshold_ms :: rat
  latency_count_threshold :: int
  half_open_delay_seconds :: seconds

record window_entry =
  we_ts :: seconds
  we_ok :: bool
  we_status :: int
  we_latency :: rat

record dr =
  dr_config :: dr_config
  dr_mode :: dr_state
  dr_failures :: int
  dr_window :: "window_entry list"
  dr_open_at :: "seconds option"
  dr_override :: bool
  dr_transitions :: nat
  dr_ambiguity :: nat

definition default_dr_config :: dr_config where
  "default_dr_config =
     \<lparr>consecutive_failure_threshold = 5, sliding_window_seconds = 60, error_count_threshold = 5,
      latency_p99_threshold_ms = 500, latency_count_threshold = 3, half_open_delay_seconds = 30\<rparr>"

definition init_dr :: "dr_config \<Rightarrow> dr" where
  "init_dr cfg = \<lparr>dr_config = cfg, dr_mode = CLOSED, dr_failures = 0, dr_window = [], dr_open_at = None,
                  dr_override = False, dr_transitions = 0, dr_ambiguity = 0\<rparr>"

definition transition :: "seconds \<Rightarrow> dr_state \<Rightarrow> dr \<Rightarrow> dr" where
  "transition now new d =
     (if dr_mode d = new then d
      else let d1 = d\<lparr>dr_mode := new, dr_transitions := Suc (dr_transitions d)\<rparr> in
           if new = OPEN then d1\<lparr>dr_open_at := Some now\<rparr>
           else if new = CLOSED then d1\<lparr>dr_open_at := None, dr_failures := 0\<rparr>
           else d1)"

definition server_error :: "window_entry \<Rightarrow> bool" where
  "server_error w \<longleftrightarrow> \<not> we_ok w \<and> 500 \<le> we_status w \<and> we_status w < 600"

definition prune_window :: "seconds \<Rightarrow> dr \<Rightarrow> dr" where
  "prune_window now d =
     d\<lparr>dr_window := dropWhile (\<lambda>w. we_ts w < now - sliding_window_seconds (dr_config d)) (dr_window d)\<rparr>"

definition check_thresholds :: "seconds \<Rightarrow> seconds \<Rightarrow> dr \<Rightarrow> dr" where
  "check_thresholds now later d =
     (if consecutive_failure_threshold (dr_config d) \<le> dr_failures d then transition later OPEN d
      else let d1 = prune_window now d;
               error_count = int (length (filter server_error (dr_window d1)));
               high_lat_count = int (length (filter (\<lambda>w. latency_p99_threshold_ms (dr_config d) < we_latency w) (dr_window d1))) in
           if error_count_threshold (dr_config d) \<le> error_count then transition later OPEN d1
           else if latency_count_threshold (dr_config d) \<le> high_lat_count then transition later OPEN d1
           else d1)"

definition try_half_open :: "seconds \<Rightarrow> dr \<Rightarrow> dr" where
  "try_half_open now d =
     (if dr_mode d \<noteq> OPEN then d
      else case dr_open_at d of
             None \<Rightarrow> d
           | Some t \<Rightarrow> if half_open_delay_seconds (dr_config d) \<le> now - t then transition now HALF_OPEN d else d)"

definition current_state :: "seconds \<Rightarrow> dr \<Rightarrow> dr_state \<times> dr" where
  "current_state now d =
     (let d1 = (if dr_mode d = OPEN then try_half_open now d else d) in (dr_mode d1, d1))"

definition record_success :: "seconds \<Rightarrow> dr \<Rightarrow> dr" where
  "record_success now d =
     (let d1 = d\<lparr>dr_window := dr_window d @ [\<lparr>we_ts = now, we_ok = True, we_status = 200, we_latency = 0\<rparr>],
                 dr_failures := 0\<rparr> in
      if dr_mode d1 = HALF_OPEN then transition now CLOSED d1 else d1)"

definition record_failure :: "seconds \<Rightarrow> seconds \<Rightarrow> seconds \<Rightarrow> int \<Rightarrow> rat \<Rightarrow> dr \<Rightarrow> dr" where
  "record_failure now check later status_code latency_ms d =
     (let d1 = d\<lparr>dr_window := dr_window d @ [\<lparr>we_ts = now, we_ok = False, we_status = status_code, we_latency = latency_ms\<rparr>],
                 dr_failures := dr_failures d + 1\<rparr> in
      if dr_mode d1 = HALF_OPEN then transition later OPEN d1
      else if dr_mode d1 = CLOSED then check_thresholds check later d1
      else d1)"

definition set_mode :: "seconds \<Rightarrow> dr_state \<Rightarrow> dr \<Rightarrow> dr" where
  "set_mode now new d =
     (let d1 = d\<lparr>dr_mode := new, dr_override := True\<rparr>;
          d2 = (if new = UNKNOWN_TIER then d1\<lparr>dr_ambiguity := Suc (dr_ambiguity d1)\<rparr> else d1) in
      if new = OPEN then d2\<lparr>dr_open_at := Some now\<rparr> else d2)"

section \<open>The step relation\<close>

datatype dr_event =
    Query seconds
  | Success seconds
  | Failure seconds seconds seconds int rat
  | Operator seconds dr_state

inductive dr_step :: "dr \<Rightarrow> dr_event \<Rightarrow> dr \<Rightarrow> bool" where
  query: "current_state now d = (st, d') \<Longrightarrow> dr_step d (Query now) d'"
| success: "dr_step d (Success now) (record_success now d)"
| failure: "dr_step d (Failure now check later code lat) (record_failure now check later code lat d)"
| operator: "dr_step d (Operator now st) (set_mode now st d)"

inductive_cases dr_step_query: "dr_step d (Query now) d'"
inductive_cases dr_step_success: "dr_step d (Success now) d'"
inductive_cases dr_step_failure: "dr_step d (Failure now check later code lat) d'"
inductive_cases dr_step_operator: "dr_step d (Operator now st) d'"

inductive dr_reachable :: "dr_config \<Rightarrow> dr \<Rightarrow> bool" for cfg where
  init: "dr_reachable cfg (init_dr cfg)"
| step: "dr_reachable cfg d \<Longrightarrow> dr_step d ev d' \<Longrightarrow> dr_reachable cfg d'"

text \<open>The documented automatic transitions.\<close>

definition documented :: "dr_state \<Rightarrow> dr_state \<Rightarrow> bool" where
  "documented a b \<longleftrightarrow> a = b \<or> (a, b) \<in> {(CLOSED, OPEN), (OPEN, HALF_OPEN), (HALF_OPEN, CLOSED), (HALF_OPEN, OPEN)}"

section \<open>Lemmas\<close>

lemma transition_simps [simp]:
  "dr_mode (transition now new d) = new" "dr_config (transition now new d) = dr_config d"
  "dr_window (transition now new d) = dr_window d"
  by (auto simp: transition_def Let_def)

lemma prune_window_simps [simp]:
  "dr_mode (prune_window now d) = dr_mode d" "dr_config (prune_window now d) = dr_config d"
  "dr_failures (prune_window now d) = dr_failures d" "dr_open_at (prune_window now d) = dr_open_at d"
  by (simp_all add: prune_window_def)

lemma check_thresholds_config [simp]: "dr_config (check_thresholds now later d) = dr_config d"
  by (simp add: check_thresholds_def Let_def)

lemma dr_step_config: "dr_step d ev d' \<Longrightarrow> dr_config d' = dr_config d"
  by (induction rule: dr_step.induct)
    (auto simp: current_state_def try_half_open_def record_success_def record_failure_def set_mode_def Let_def
      split: if_splits option.splits)

lemma dr_reachable_config: "dr_reachable cfg d \<Longrightarrow> dr_config d = cfg"
  by (induction rule: dr_reachable.induct) (simp_all add: init_dr_def dr_step_config)

definition opened_at :: "dr \<Rightarrow> bool" where
  "opened_at d \<longleftrightarrow> (dr_mode d = OPEN \<longrightarrow> dr_open_at d \<noteq> None)"

lemma opened_at_step: "dr_step d ev d' \<Longrightarrow> opened_at d \<Longrightarrow> opened_at d'"
  by (induction rule: dr_step.induct)
    (auto simp: opened_at_def current_state_def try_half_open_def record_success_def record_failure_def set_mode_def
      check_thresholds_def transition_def Let_def split: if_splits option.splits)

lemma reachable_opened_at: "dr_reachable cfg d \<Longrightarrow> opened_at d"
proof (induction rule: dr_reachable.induct)
  case init
  show ?case by (simp add: opened_at_def init_dr_def)
next
  case (step d ev d')
  then show ?case by (blast intro: opened_at_step)
qed

text \<open>What opens the breaker: three counts over the pruned window.\<close>

definition trips :: "seconds \<Rightarrow> dr \<Rightarrow> bool" where
  "trips now d \<longleftrightarrow>
     consecutive_failure_threshold (dr_config d) \<le> dr_failures d \<or>
     error_count_threshold (dr_config d) \<le> int (length (filter server_error (dr_window (prune_window now d)))) \<or>
     latency_count_threshold (dr_config d) \<le>
       int (length (filter (\<lambda>w. latency_p99_threshold_ms (dr_config d) < we_latency w) (dr_window (prune_window now d))))"

lemma check_thresholds_mode:
  "dr_mode d = CLOSED \<Longrightarrow> dr_mode (check_thresholds now later d) = (if trips now d then OPEN else CLOSED)"
  by (auto simp: check_thresholds_def trips_def Let_def)

section \<open>Properties\<close>



text \<open>
  C19. The breaker cannot get stuck open: in every reachable state that is OPEN there is a recorded
  opening time, a query earlier than the delay leaves it OPEN, and the first query at or after the
  delay answers HALF_OPEN, after which one success closes it and resets the failure count.
\<close>

theorem dr_recovers:
  assumes "dr_reachable cfg d" "dr_mode d = OPEN"
  shows "\<exists>t. dr_open_at d = Some t \<and>
           (\<forall>now. now - t < half_open_delay_seconds cfg \<longrightarrow> current_state now d = (OPEN, d)) \<and>
           (\<forall>now. half_open_delay_seconds cfg \<le> now - t \<longrightarrow>
              (\<exists>d'. current_state now d = (HALF_OPEN, d') \<and>
                 dr_mode (record_success now d') = CLOSED \<and> dr_failures (record_success now d') = 0))"
proof -
  obtain t where t: "dr_open_at d = Some t" using reachable_opened_at [OF assms(1)] assms(2) by (auto simp: opened_at_def)
  have cfg: "dr_config d = cfg" by (rule dr_reachable_config [OF assms(1)])
  have "current_state now d = (OPEN, d)" if "now - t < half_open_delay_seconds cfg" for now
    using that t assms(2) cfg by (simp add: current_state_def try_half_open_def)
  moreover have "\<exists>d'. current_state now d = (HALF_OPEN, d') \<and>
      dr_mode (record_success now d') = CLOSED \<and> dr_failures (record_success now d') = 0"
    if "half_open_delay_seconds cfg \<le> now - t" for now
    using that t assms(2) cfg by (simp add: current_state_def try_half_open_def record_success_def transition_def Let_def)
  ultimately show ?thesis using t by blast
qed

theorem dr_recovers_witness:
  "\<exists>d'. current_state 30 (set_mode 0 OPEN (init_dr default_dr_config)) = (HALF_OPEN, d')"
proof -
  let ?d = "set_mode 0 OPEN (init_dr default_dr_config)"
  have "dr_reachable default_dr_config ?d" by (rule dr_reachable.step [OF dr_reachable.init dr_step.operator])
  moreover have "dr_mode ?d = OPEN" by (simp add: set_mode_def)
  ultimately obtain t where t: "dr_open_at ?d = Some t"
    "\<forall>now. half_open_delay_seconds default_dr_config \<le> now - t \<longrightarrow> (\<exists>d'. current_state now ?d = (HALF_OPEN, d'))"
    using dr_recovers by blast
  have "t = 0" using t(1) by (simp add: set_mode_def)
  with t(2) show ?thesis by (simp add: default_dr_config_def)
qed

text \<open>
  Exactly what opens a closed breaker: a failure moves CLOSED to OPEN if and only if the
  consecutive failures, the server errors within the window or the slow calls within the
  window then reach their threshold; in HALF_OPEN a single failure reopens it.
\<close>

lemma dr_opens_iff:
  assumes "dr_mode d = CLOSED"
  shows "dr_mode (record_failure now check later code lat d) =
           (if trips check (d\<lparr>dr_window := dr_window d @ [\<lparr>we_ts = now, we_ok = False, we_status = code, we_latency = lat\<rparr>],
                           dr_failures := dr_failures d + 1\<rparr>) then OPEN else CLOSED) \<and>
         dr_mode (record_failure now check later code lat (d\<lparr>dr_mode := HALF_OPEN\<rparr>)) = OPEN"
  using assms by (simp add: record_failure_def Let_def check_thresholds_mode)

primrec successes :: "seconds list \<Rightarrow> dr \<Rightarrow> dr" where
  "successes [] d = d"
| "successes (t # ts) d = successes ts (record_success t d)"

text \<open>
  The window is pruned on failures only: after any number of successes it has grown by one entry
  for each, however far apart they are, so it is not bounded by \<^verbatim>\<open>sliding_window_seconds\<close>.
\<close>

lemma dr_window_unbounded:
  "length (dr_window (successes ts d)) = length (dr_window d) + length ts"
  by (induction ts arbitrary: d) (simp_all add: record_success_def Let_def)

end
