(* ===== verification/TierReader.thy ===== *)
theory TierReader
  imports ObjectStore ReaderCache DrMode NasKey Calendar
begin

text \<open>
  The read path: \<^verbatim>\<open>io/tier_reader.py\<close> on top of \<^verbatim>\<open>io/cold_reader.py\<close> and \<^verbatim>\<open>io/l1_reader.py\<close>, wired as
  \<^verbatim>\<open>api/deps.py\<close> wires them: one cache and one circuit breaker shared by the three readers.

  The client that \<^verbatim>\<open>endpoint_router.current_client()\<close> returns is an argument (\<open>None\<close> when no endpoint
  is set). The text of an exception comes from the client library and is the
  parameter \<open>exc_text\<close>. Clock readings are arguments; latencies in the results are left out.
\<close>

section \<open>Python helpers\<close>

fun contains :: "string \<Rightarrow> string \<Rightarrow> bool" where
  "contains sub [] = starts_with [] sub"
| "contains sub (x # xs) = (starts_with (x # xs) sub \<or> contains sub xs)"

definition without_dashes :: "string \<Rightarrow> string" where
  "without_dashes s = filter (\<lambda>c. c \<noteq> CHR ''-'') s"

text \<open>\<^verbatim>\<open>f"{hour:02d}"\<close>\<close>

fun nat_digits :: "nat \<Rightarrow> string" where
  "nat_digits n = (if n < 10 then [digit n] else nat_digits (n div 10) @ [digit (n mod 10)])"

definition format_02d :: "int \<Rightarrow> string" where
  "format_02d n =
     (let ds = nat_digits (nat \<bar>n\<bar>); s = (if n < 0 then CHR ''-'' # replicate (1 - length ds) CHR ''0'' @ ds
                                        else replicate (2 - length ds) CHR ''0'' @ ds) in s)"

section \<open>Results and state\<close>

datatype read_status = HitCache | HitNas | LegacyNodeDefault | StaleRefreshed | NotFound | NasUnreachable

record read_result =
  rr_status :: read_status
  rr_data :: bytes
  rr_key :: string

datatype tier_status = TierHitCache | TierHitNas | TierNotFound | TierNasUnreachable | TierLocalFallback

record tier_result =
  tr_status :: tier_status
  tr_data :: bytes
  tr_key :: string
  tr_is_legacy :: bool
  tr_tier :: string

record exc_text =
  et_name :: "py_error \<Rightarrow> string"
  et_str :: "string \<Rightarrow> py_error \<Rightarrow> string"

record read_env =
  re_outer_get :: "seconds \<times> rat"
  re_inner_get :: "seconds \<times> rat"
  re_inner_put :: seconds
  re_outer_put :: seconds
  re_state :: seconds
  re_record :: seconds
  re_check :: seconds
  re_later :: seconds
  re_latency_ms :: rat

record 's readers =
  t_store :: 's
  t_cache :: rcache
  t_etags :: "(string \<times> string) list"
  t_dr :: dr

abbreviation cache_look :: "seconds \<times> rat \<Rightarrow> string \<Rightarrow> rcache \<Rightarrow> bytes option \<times> rcache" where
  "cache_look t \<equiv> (\<lambda>(now, lat). cache_get now lat) t"

section \<open>The cold reader\<close>

definition insert_at :: "nat \<Rightarrow> 'a \<Rightarrow> 'a list \<Rightarrow> 'a list" where
  "insert_at i x xs = take i xs @ x # drop i xs"

definition inject_node_default :: "string \<Rightarrow> string" where
  "inject_node_default partition_path =
     (let parts = split_on CHR ''/'' partition_path in
      case find (\<lambda>i. starts_with (parts ! i) ''date='') [0..<length parts] of
        None \<Rightarrow> (if 2 \<le> length parts then slash_join (insert_at (length parts - 1) ''node=DEFAULT'' parts)
                 else slash_join (parts @ [''node=DEFAULT'']))
      | Some i \<Rightarrow> slash_join (insert_at (i + 1) ''node=DEFAULT'' parts))"

definition build_nas_object_key :: "bool \<Rightarrow> string \<Rightarrow> string \<times> bool" where
  "build_nas_object_key partition_normalization partition_path =
     (let is_legacy_node = \<not> contains ''node='' partition_path in
      (if is_legacy_node \<and> partition_normalization then inject_node_default partition_path else partition_path,
       is_legacy_node))"

definition cold_missing :: "exc_text \<Rightarrow> string \<Rightarrow> py_error \<Rightarrow> bool" where
  "cold_missing tx key e \<longleftrightarrow> contains ''NoSuchKey'' (et_name tx e) \<or> contains ''404'' (et_str tx key e)"

definition cold_read ::
  "'s s3 option \<Rightarrow> exc_text \<Rightarrow> bool \<Rightarrow> read_env \<Rightarrow> string \<Rightarrow> 's readers \<Rightarrow> (py_error + read_result) \<times> 's readers" where
  "cold_read client tx nrm e partition_path t =
     (case build_nas_object_key nrm partition_path of (key, is_legacy_node) \<Rightarrow>
      case cache_look (re_inner_get e) key (t_cache t) of
        (Some data, c1) \<Rightarrow> (Inr \<lparr>rr_status = HitCache, rr_data = data, rr_key = key\<rparr>, t\<lparr>t_cache := c1\<rparr>)
      | (None, c1) \<Rightarrow>
          (case client of
             None \<Rightarrow> (Inr \<lparr>rr_status = NasUnreachable, rr_data = [], rr_key = key\<rparr>, t\<lparr>t_cache := c1\<rparr>)
           | Some c \<Rightarrow>
               (case s3_get c key (t_store t) of
                  (Inl x, s) \<Rightarrow>
                    (Inr \<lparr>rr_status = (if cold_missing tx key x then NotFound else NasUnreachable),
                          rr_data = [], rr_key = key\<rparr>, t\<lparr>t_cache := c1, t_store := s\<rparr>)
                | (Inr (data, etag), s) \<Rightarrow>
                    (case cache_put (re_inner_put e) key data c1 of
                       (Inl x, c2) \<Rightarrow> (Inl x, t\<lparr>t_cache := c2, t_store := s\<rparr>)
                     | (Inr u, c2) \<Rightarrow>
                         (Inr \<lparr>rr_status = (if is_legacy_node then LegacyNodeDefault else HitNas),
                               rr_data = data, rr_key = key\<rparr>, t\<lparr>t_cache := c2, t_store := s\<rparr>)))))"

section \<open>The L1 reader\<close>

definition build_l1_key :: "string \<Rightarrow> string \<Rightarrow> int \<Rightarrow> string" where
  "build_l1_key symbol date hour =
     (let hour_str = format_02d hour in
      ''tier=L1/exchange=DEFAULT/symbol='' @ symbol @ ''/date='' @ date @ ''/hour='' @ hour_str @ ''/''
        @ symbol @ ''_'' @ date @ ''_'' @ hour_str @ ''.parquet'')"

definition l1_missing :: "exc_text \<Rightarrow> string \<Rightarrow> py_error \<Rightarrow> bool" where
  "l1_missing tx key e \<longleftrightarrow>
     contains ''NoSuchKey'' (et_name tx e) \<or> contains ''NoSuchKey'' (et_str tx key e) \<or> contains ''404'' (et_str tx key e)"

definition fetch_from_nas ::
  "'s s3 option \<Rightarrow> exc_text \<Rightarrow> read_env \<Rightarrow> string \<Rightarrow> read_status \<Rightarrow> 's readers \<Rightarrow> (py_error + read_result) \<times> 's readers" where
  "fetch_from_nas client tx e key status_on_success t =
     (case client of
        None \<Rightarrow> (Inr \<lparr>rr_status = NasUnreachable, rr_data = [], rr_key = key\<rparr>, t)
      | Some c \<Rightarrow>
          (case s3_get c key (t_store t) of
             (Inl x, s) \<Rightarrow>
               (Inr \<lparr>rr_status = (if l1_missing tx key x then NotFound else NasUnreachable),
                     rr_data = [], rr_key = key\<rparr>, t\<lparr>t_store := s\<rparr>)
           | (Inr (data, etag), s) \<Rightarrow>
               (case cache_put (re_inner_put e) key data (t_cache t) of
                  (Inl x, c2) \<Rightarrow> (Inl x, t\<lparr>t_cache := c2, t_store := s\<rparr>)
                | (Inr u, c2) \<Rightarrow>
                    (Inr \<lparr>rr_status = status_on_success, rr_data = data, rr_key = key\<rparr>,
                     t\<lparr>t_cache := c2, t_store := s, t_etags := AList.update key etag (t_etags t)\<rparr>))))"

definition l1_read ::
  "'s s3 option \<Rightarrow> exc_text \<Rightarrow> read_env \<Rightarrow> string \<Rightarrow> string \<Rightarrow> int \<Rightarrow> 's readers \<Rightarrow> (py_error + read_result) \<times> 's readers" where
  "l1_read client tx e symbol date hour t =
     (let key = build_l1_key symbol date hour in
      case cache_look (re_inner_get e) key (t_cache t) of
        (None, c1) \<Rightarrow> fetch_from_nas client tx e key HitNas (t\<lparr>t_cache := c1\<rparr>)
      | (Some data, c1) \<Rightarrow>
          (let t1 = t\<lparr>t_cache := c1\<rparr>;
               hit = (\<lambda>t2. (Inr \<lparr>rr_status = HitCache, rr_data = data, rr_key = key\<rparr>, t2)) in
           case client of
             None \<Rightarrow> hit t1
           | Some c \<Rightarrow>
               (case s3_head c key (t_store t) of
                  (Inl x, s) \<Rightarrow> hit (t1\<lparr>t_store := s\<rparr>)
                | (Inr h, s) \<Rightarrow>
                    let cached_etag = (case map_of (t_etags t) key of None \<Rightarrow> [] | Some x \<Rightarrow> x) in
                    if h_etag h \<noteq> [] \<and> (cached_etag = [] \<or> h_etag h \<noteq> cached_etag)
                    then fetch_from_nas client tx e key StaleRefreshed (t1\<lparr>t_store := s\<rparr>)
                    else hit (t1\<lparr>t_store := s\<rparr>))))"

section \<open>The tier reader\<close>

definition tier_of_path :: "string \<Rightarrow> string option" where
  "tier_of_path p =
     map_option (drop (length ''tier='')) (find (\<lambda>part. starts_with part ''tier='') (split_on CHR ''/'' p))"

definition date_of_path :: "string \<Rightarrow> string option" where
  "date_of_path p =
     map_option (drop (length ''date='')) (find (\<lambda>part. starts_with part ''date='') (split_on CHR ''/'' p))"

definition parse_partition_date :: "string \<Rightarrow> timestamp option" where
  "parse_partition_date p =
     (case date_of_path p of
        None \<Rightarrow> None
      | Some date_str \<Rightarrow>
          if date_str = [] then None
          else let s = without_dashes date_str in
               if length s = 8
               then (case (py_int (take 4 s), py_int (take 2 (drop 4 s)), py_int (drop 6 s)) of
                       (Inr y, Inr m, Inr d) \<Rightarrow>
                         (case datetime_ymd y m d of Inl x \<Rightarrow> None | Inr ts \<Rightarrow> Some ts)
                     | _ \<Rightarrow> None)
               else None)"

text \<open>One iteration of the loop over the components of an L1 path.\<close>

definition l1_part :: "string \<Rightarrow> string \<times> string \<times> int \<Rightarrow> string \<times> string \<times> int" where
  "l1_part part st =
     (case st of (symbol, date, hour) \<Rightarrow>
        if starts_with part ''symbol='' then (drop (length ''symbol='') part, date, hour)
        else if starts_with part ''date='' then (symbol, without_dashes (drop (length ''date='') part), hour)
        else if starts_with part ''hour=''
        then (symbol, date, case py_int (drop (length ''hour='') part) of Inl x \<Rightarrow> 0 | Inr h \<Rightarrow> h)
        else (symbol, date, hour))"

definition l1_args :: "string \<Rightarrow> string \<times> string \<times> int" where
  "l1_args partition_path =
     (case fold l1_part (split_on CHR ''/'' partition_path) ([], [], 0) of
        (symbol, date, hour) \<Rightarrow>
          if symbol \<noteq> [] \<and> date \<noteq> [] then (symbol, date, hour) else (''UNKNOWN'', ''00000000'', 0))"

definition read_l1 ::
  "'s s3 option \<Rightarrow> exc_text \<Rightarrow> read_env \<Rightarrow> string \<Rightarrow> 's readers \<Rightarrow> (py_error + read_result) \<times> 's readers" where
  "read_l1 client tx e partition_path t =
     (case l1_args partition_path of (symbol, date, hour) \<Rightarrow> l1_read client tx e symbol date hour t)"

definition local_fallback_or_unreachable ::
  "path option \<Rightarrow> timestamp \<Rightarrow> bytes fsys \<Rightarrow> string \<Rightarrow> dr_state option \<Rightarrow> string \<Rightarrow> tier_result" where
  "local_fallback_or_unreachable local_path_base cutoff fs partition_path dr_st tier =
     (let unreachable = \<lparr>tr_status = TierNasUnreachable, tr_data = [], tr_key = partition_path, tr_is_legacy = False, tr_tier = tier\<rparr> in
      if dr_st = Some UNKNOWN_TIER then unreachable
      else case local_path_base of
             None \<Rightarrow> unreachable
           | Some base \<Rightarrow>
               (case parse_partition_date partition_path of
                  None \<Rightarrow> unreachable
                | Some dt \<Rightarrow>
                    if cutoff \<le> dt then unreachable
                    else case fs_get fs (base @ split_on CHR ''/'' partition_path) of
                           None \<Rightarrow> unreachable
                         | Some data \<Rightarrow> \<lparr>tr_status = TierLocalFallback, tr_data = data, tr_key = partition_path,
                                         tr_is_legacy = True, tr_tier = tier\<rparr>))"

definition nas_success :: "read_status \<Rightarrow> bool" where
  "nas_success st \<longleftrightarrow> st \<in> {HitNas, StaleRefreshed, LegacyNodeDefault}"

record reader_config =
  cf_client_text :: exc_text
  cf_normalize :: bool
  cf_local_base :: "path option"
  cf_cutoff :: timestamp

definition finish_read ::
  "reader_config \<Rightarrow> bytes fsys \<Rightarrow> read_env \<Rightarrow> string \<Rightarrow> string \<Rightarrow> (py_error + read_result) \<times> 's readers
     \<Rightarrow> (py_error + tier_result) \<times> 's readers" where
  "finish_read cf fs e partition_path tier r =
     (case r of
        (Inl x, t2) \<Rightarrow> (Inl x, t2)
      | (Inr res, t2) \<Rightarrow>
          if nas_success (rr_status res) then
            (let t3 = t2\<lparr>t_dr := record_success (re_record e) (t_dr t2)\<rparr> in
             case cache_put (re_outer_put e) partition_path (rr_data res) (t_cache t3) of
               (Inl x, c) \<Rightarrow> (Inl x, t3\<lparr>t_cache := c\<rparr>)
             | (Inr u, c) \<Rightarrow>
                 (Inr \<lparr>tr_status = TierHitNas, tr_data = rr_data res, tr_key = rr_key res,
                       tr_is_legacy = False, tr_tier = tier\<rparr>, t3\<lparr>t_cache := c\<rparr>))
          else
            (let t3 = t2\<lparr>t_dr := record_failure (re_record e) (re_check e) (re_later e) 503 (re_latency_ms e) (t_dr t2)\<rparr> in
             if rr_status res = NotFound
             then (Inr \<lparr>tr_status = TierNotFound, tr_data = [], tr_key = rr_key res, tr_is_legacy = False, tr_tier = tier\<rparr>, t3)
             else (Inr (local_fallback_or_unreachable (cf_local_base cf) (cf_cutoff cf) fs partition_path None tier), t3)))"

definition tier_read ::
  "reader_config \<Rightarrow> 's s3 option \<Rightarrow> bytes fsys \<Rightarrow> read_env \<Rightarrow> string \<Rightarrow> 's readers \<Rightarrow> (py_error + tier_result) \<times> 's readers" where
  "tier_read cf client fs e partition_path t =
     (case cache_look (re_outer_get e) partition_path (t_cache t) of
        (Some data, c1) \<Rightarrow>
          (Inr \<lparr>tr_status = TierHitCache, tr_data = data, tr_key = partition_path, tr_is_legacy = False, tr_tier = []\<rparr>,
           t\<lparr>t_cache := c1\<rparr>)
      | (None, c1) \<Rightarrow>
          (case current_state (re_state e) (t_dr t) of (st, d) \<Rightarrow>
           let t1 = t\<lparr>t_cache := c1, t_dr := d\<rparr> in
           if st \<in> {OPEN, UNKNOWN_TIER}
           then (Inr (local_fallback_or_unreachable (cf_local_base cf) (cf_cutoff cf) fs partition_path (Some st) []), t1)
           else case tier_of_path partition_path of
                  None \<Rightarrow>
                    (Inr \<lparr>tr_status = TierNasUnreachable, tr_data = [], tr_key = partition_path,
                          tr_is_legacy = False, tr_tier = []\<rparr>,
                     t1\<lparr>t_dr := set_mode (re_record e) UNKNOWN_TIER d\<rparr>)
                | Some tier \<Rightarrow>
                    finish_read cf fs e partition_path tier
                      (if tier = ''L1'' then read_l1 client (cf_client_text cf) e partition_path t1
                       else cold_read client (cf_client_text cf) (cf_normalize cf) e partition_path t1)))"

section \<open>Reads are faithful\<close>

definition body_at :: "bucket \<Rightarrow> string \<Rightarrow> bytes \<Rightarrow> bool" where
  "body_at b k data \<longleftrightarrow> (\<exists>ob. b k = Some ob \<and> ob_body ob = data)"

text \<open>The object keys a partition path may stand for: itself, or what its tier's reader makes of it.\<close>

definition stands_for :: "reader_config \<Rightarrow> string \<Rightarrow> string \<Rightarrow> bool" where
  "stands_for cf p k \<longleftrightarrow> k = p \<or>
     (tier_of_path p = Some ''L1'' \<and> (case l1_args p of (symbol, date, hour) \<Rightarrow> k = build_l1_key symbol date hour)) \<or>
     (tier_of_path p \<notin> {None, Some ''L1''} \<and> k = fst (build_nas_object_key (cf_normalize cf) p))"

definition serves :: "bucket \<Rightarrow> reader_config \<Rightarrow> string \<Rightarrow> bytes \<Rightarrow> bool" where
  "serves b cf p data \<longleftrightarrow> (\<exists>k. stands_for cf p k \<and> body_at b k data)"

definition client_ok :: "'s s3 option \<Rightarrow> ('s \<Rightarrow> bucket) \<Rightarrow> bool" where
  "client_ok client v \<longleftrightarrow> (case client of None \<Rightarrow> True | Some c \<Rightarrow> s3_laws c v)"

abbreviation cache_true :: "bucket \<Rightarrow> reader_config \<Rightarrow> rcache \<Rightarrow> bool" where
  "cache_true b cf c \<equiv> rcache.coherent (serves b cf) c"

lemma serves_self: "body_at b k data \<Longrightarrow> serves b cf k data"
  by (auto simp: serves_def stands_for_def)

text \<open>What an inner reader leaves behind and reports.\<close>

definition inner_ok :: "('s \<Rightarrow> bucket) \<Rightarrow> reader_config \<Rightarrow> string \<Rightarrow> 's readers \<Rightarrow> (py_error + read_result) \<times> 's readers \<Rightarrow> bool" where
  "inner_ok v cf key t r \<longleftrightarrow>
     (case r of (res, t') \<Rightarrow> v (t_store t') = v (t_store t) \<and> cache_true (v (t_store t)) cf (t_cache t') \<and> t_dr t' = t_dr t \<and>
        (\<forall>x. res = Inr x \<longrightarrow> rr_key x = key \<and> (nas_success (rr_status x) \<longrightarrow> body_at (v (t_store t)) key (rr_data x))))"

lemma fetched_ok:
  assumes "s3_laws c v" "s3_get c key (t_store t) = (Inr (data, etag), s)"
    and "cache_true (v (t_store t)) cf c1" "cache_put now key data c1 = (r, c2)"
  shows "v s = v (t_store t) \<and> body_at (v (t_store t)) key data \<and> cache_true (v (t_store t)) cf c2"
proof -
  have b: "body_at (v (t_store t)) key data" using get_body [OF assms(1,2)] by (auto simp: body_at_def)
  with rcache.coherent_put [OF assms(3) serves_self assms(4)] get_view [OF assms(1,2)] show ?thesis by blast
qed

lemma fetch_from_nas_ok:
  assumes "client_ok client v" "cache_true (v (t_store t)) cf (t_cache t)"
  shows "inner_ok v cf key t (fetch_from_nas client tx e key st t)"
proof (cases client)
  case None
  with assms(2) show ?thesis by (simp add: fetch_from_nas_def inner_ok_def nas_success_def)
next
  case (Some c)
  then have laws: "s3_laws c v" using assms(1) by (simp add: client_ok_def)
  obtain r s where g: "s3_get c key (t_store t) = (r, s)" by fastforce
  note vs = get_view [OF laws g]
  show ?thesis
  proof (cases r)
    case (Inl x)
    with Some g assms(2) vs show ?thesis by (simp add: fetch_from_nas_def inner_ok_def nas_success_def)
  next
    case (Inr de)
    obtain data etag where de: "de = (data, etag)" by fastforce
    obtain r2 c2 where p: "cache_put (re_inner_put e) key data (t_cache t) = (r2, c2)" by fastforce
    note f = fetched_ok [OF laws g [unfolded Inr de] assms(2) p]
    from f Some g Inr de p show ?thesis by (cases r2) (simp_all add: fetch_from_nas_def inner_ok_def)
  qed
qed

lemma cold_read_ok:
  assumes "client_ok client v" "cache_true (v (t_store t)) cf (t_cache t)"
  shows "inner_ok v cf (fst (build_nas_object_key (cf_normalize cf) p)) t (cold_read client tx (cf_normalize cf) e p t)"
proof -
  obtain key leg where k: "build_nas_object_key (cf_normalize cf) p = (key, leg)" by fastforce
  obtain d c1 where l: "cache_look (re_inner_get e) key (t_cache t) = (d, c1)" by fastforce
  have c1: "cache_true (v (t_store t)) cf c1" by (rule rcache.coherent_get(1) [OF assms(2) l])
  show ?thesis
  proof (cases d)
    case (Some data)
    with k l c1 show ?thesis by (simp add: cold_read_def inner_ok_def nas_success_def)
  next
    case None
    show ?thesis
    proof (cases client)
      case none: None
      with None k l c1 show ?thesis by (simp add: cold_read_def inner_ok_def nas_success_def)
    next
      case (Some c)
      then have laws: "s3_laws c v" using assms(1) by (simp add: client_ok_def)
      obtain r s where g: "s3_get c key (t_store t) = (r, s)" by fastforce
      note vs = get_view [OF laws g]
      show ?thesis
      proof (cases r)
        case (Inl x)
        with Some None g k l c1 vs show ?thesis by (simp add: cold_read_def inner_ok_def nas_success_def)
      next
        case (Inr de)
        obtain data etag where de: "de = (data, etag)" by fastforce
        obtain r2 c2 where p: "cache_put (re_inner_put e) key data c1 = (r2, c2)" by fastforce
        note f = fetched_ok [OF laws g [unfolded Inr de] c1 p]
        from f Some None g Inr de p k l show ?thesis by (cases r2) (simp_all add: cold_read_def inner_ok_def)
      qed
    qed
  qed
qed

lemma inner_ok_shift:
  "inner_ok v cf key t' r \<Longrightarrow> v (t_store t') = v (t_store t) \<Longrightarrow> t_dr t' = t_dr t \<Longrightarrow> inner_ok v cf key t r"
  by (simp add: inner_ok_def split: prod.splits)

lemma l1_read_ok:
  assumes "client_ok client v" "cache_true (v (t_store t)) cf (t_cache t)"
  shows "inner_ok v cf (build_l1_key sy dt hr) t (l1_read client tx e sy dt hr t)"
proof -
  let ?key = "build_l1_key sy dt hr"
  obtain d c1 where l: "cache_look (re_inner_get e) ?key (t_cache t) = (d, c1)" by fastforce
  have c1: "cache_true (v (t_store t)) cf c1" by (rule rcache.coherent_get(1) [OF assms(2) l])
  have fetch: "inner_ok v cf ?key t (fetch_from_nas client tx e ?key st (t\<lparr>t_cache := c1, t_store := s\<rparr>))"
    if "v s = v (t_store t)" for st s
  proof (rule inner_ok_shift [where t' = "t\<lparr>t_cache := c1, t_store := s\<rparr>"])
    show "inner_ok v cf ?key (t\<lparr>t_cache := c1, t_store := s\<rparr>) (fetch_from_nas client tx e ?key st (t\<lparr>t_cache := c1, t_store := s\<rparr>))"
      by (rule fetch_from_nas_ok) (use assms(1) c1 that in simp_all)
  qed (use that in simp_all)
  have hit: "inner_ok v cf ?key t (Inr \<lparr>rr_status = HitCache, rr_data = x, rr_key = ?key\<rparr>, t\<lparr>t_cache := c1, t_store := s\<rparr>)"
    if "v s = v (t_store t)" for x s using that c1 by (simp add: inner_ok_def nas_success_def)
  show ?thesis
  proof (cases d)
    case None
    with l fetch [of "t_store t" HitNas] show ?thesis by (simp add: l1_read_def Let_def)
  next
    case (Some data)
    show ?thesis
    proof (cases client)
      case None
      with Some l hit [of "t_store t"] show ?thesis by (simp add: l1_read_def Let_def)
    next
      case c: (Some c)
      then have laws: "s3_laws c v" using assms(1) by (simp add: client_ok_def)
      obtain r s where g: "s3_head c ?key (t_store t) = (r, s)" by fastforce
      note vs = head_view [OF laws g]
      show ?thesis using Some c l g hit [OF vs] fetch [OF vs, of StaleRefreshed]
        by (cases r) (simp_all add: l1_read_def Let_def)
    qed
  qed
qed

text \<open>What a caller may conclude from a result of the tier reader.\<close>

definition tier_result_ok :: "bucket \<Rightarrow> reader_config \<Rightarrow> bytes fsys \<Rightarrow> string \<Rightarrow> tier_result \<Rightarrow> bool" where
  "tier_result_ok b cf fs p res \<longleftrightarrow>
     (case tr_status res of
        TierHitCache \<Rightarrow> serves b cf p (tr_data res)
      | TierHitNas \<Rightarrow> stands_for cf p (tr_key res) \<and> body_at b (tr_key res) (tr_data res)
      | TierLocalFallback \<Rightarrow>
          (\<exists>base dt. cf_local_base cf = Some base \<and> parse_partition_date p = Some dt \<and> dt < cf_cutoff cf \<and>
             fs_get fs (base @ split_on CHR ''/'' p) = Some (tr_data res)) \<and> tr_is_legacy res
      | TierNotFound \<Rightarrow> tr_data res = []
      | TierNasUnreachable \<Rightarrow> tr_data res = [])"

lemma fallback_ok: "tier_result_ok b cf fs p (local_fallback_or_unreachable (cf_local_base cf) (cf_cutoff cf) fs p st tier)"
  by (simp add: tier_result_ok_def local_fallback_or_unreachable_def Let_def split: option.splits)

lemma finish_read_ok:
  assumes "inner_ok v cf key t r" "stands_for cf p key" "finish_read cf fs e p tier r = (res, t')"
  shows "v (t_store t') = v (t_store t) \<and> cache_true (v (t_store t)) cf (t_cache t') \<and>
         (\<forall>x. res = Inr x \<longrightarrow> tier_result_ok (v (t_store t)) cf fs p x)"
proof -
  obtain r1 t1 where r: "r = (r1, t1)" by fastforce
  have i: "v (t_store t1) = v (t_store t)" "cache_true (v (t_store t)) cf (t_cache t1)" using assms(1) r by (simp_all add: inner_ok_def)
  show ?thesis
  proof (cases r1)
    case (Inl x)
    with assms(3) r i show ?thesis by (auto simp: finish_read_def)
  next
    case (Inr x)
    have x: "rr_key x = key" "nas_success (rr_status x) \<Longrightarrow> body_at (v (t_store t)) key (rr_data x)"
      using assms(1) r Inr by (simp_all add: inner_ok_def)
    show ?thesis
    proof (cases "nas_success (rr_status x)")
      case True
      obtain r2 c2 where put: "cache_put (re_outer_put e) p (rr_data x) (t_cache t1) = (r2, c2)" by fastforce
      have "serves (v (t_store t)) cf p (rr_data x)" using x(2) [OF True] assms(2) by (auto simp: serves_def)
      from rcache.coherent_put [OF i(2) this put] assms(2,3) r Inr True i(1) x put show ?thesis
        by (cases r2) (auto simp: finish_read_def Let_def tier_result_ok_def)
    next
      case False
      with assms(3) r Inr i fallback_ok [of "v (t_store t)" cf fs p None tier] show ?thesis
        by (auto simp: finish_read_def Let_def tier_result_ok_def [of _ _ _ _ "\<lparr>tr_status = TierNotFound, tr_data = _, tr_key = _, tr_is_legacy = _, tr_tier = _\<rparr>"] split: if_splits)
    qed
  qed
qed

section \<open>Properties\<close>

definition example_text :: exc_text where
  "example_text = \<lparr>et_name = (\<lambda>x. ''EndpointConnectionError''), et_str = (\<lambda>k x. ''Could not connect to '' @ k)\<rparr>"

definition example_config :: reader_config where
  "example_config = \<lparr>cf_client_text = example_text, cf_normalize = True, cf_local_base = None, cf_cutoff = 0\<rparr>"

definition example_read_env :: read_env where
  "example_read_env = \<lparr>re_outer_get = (0, 0), re_inner_get = (0, 0), re_inner_put = 0, re_outer_put = 0, re_state = 0,
     re_record = 0, re_check = 0, re_later = 0, re_latency_ms = 1\<rparr>"

definition example_readers :: "rcache \<Rightarrow> mem readers" where
  "example_readers c = \<lparr>t_store = \<lparr>m_up = True, m_objects = []\<rparr>, t_cache = c, t_etags = [], t_dr = init_dr default_dr_config\<rparr>"

text \<open>
  C21. Reads are faithful: while the bucket does not change, if every cached entry is the body of an
  object its key stands for, then this stays so, and whatever data a read returns is the body of
  an object the partition path stands for (with \<^verbatim>\<open>hit_nas\<close>: of the object at the reported key), or
  comes from the local file of that path under \<^verbatim>\<open>local_fallback\<close>, which is used only for partitions dated before
  the cut-off; other results carry no data. The store is not changed.
\<close>

theorem tier_read_faithful:
  assumes "client_ok client v" "cache_true (v (t_store t)) cf (t_cache t)" "tier_read cf client fs e p t = (r, t')"
  shows "v (t_store t') = v (t_store t) \<and> cache_true (v (t_store t)) cf (t_cache t') \<and>
         (\<forall>res. r = Inr res \<longrightarrow> tier_result_ok (v (t_store t)) cf fs p res)"
proof -
  obtain d c1 where l: "cache_look (re_outer_get e) p (t_cache t) = (d, c1)" by fastforce
  have c1: "cache_true (v (t_store t)) cf c1" by (rule rcache.coherent_get(1) [OF assms(2) l])
  obtain st dr where cs: "current_state (re_state e) (t_dr t) = (st, dr)" by fastforce
  let ?t1 = "t\<lparr>t_cache := c1, t_dr := dr\<rparr>"
  show ?thesis
  proof (cases d)
    case (Some data)
    have "serves (v (t_store t)) cf p data" using rcache.coherent_get(2) [OF assms(2) l] Some by blast
    with assms(3) l Some c1 show ?thesis by (auto simp: tier_read_def tier_result_ok_def)
  next
    case None
    show ?thesis
    proof (cases "st \<in> {OPEN, UNKNOWN_TIER}")
      case True
      with assms(3) l None cs c1 fallback_ok [of "v (t_store t)" cf fs p "Some st" "[]"] show ?thesis
        by (auto simp: tier_read_def Let_def)
    next
      case False
      show ?thesis
      proof (cases "tier_of_path p")
        case none: None
        with assms(3) l None cs False c1 show ?thesis by (auto simp: tier_read_def Let_def tier_result_ok_def)
      next
        case tier: (Some tier)
        obtain sy dt hr where args: "l1_args p = (sy, dt, hr)" by (metis prod_cases3)
        define inner where "inner = (if tier = ''L1'' then read_l1 client (cf_client_text cf) e p ?t1
            else cold_read client (cf_client_text cf) (cf_normalize cf) e p ?t1)"
        define key where "key = (if tier = ''L1'' then build_l1_key sy dt hr else fst (build_nas_object_key (cf_normalize cf) p))"
        have run: "finish_read cf fs e p tier inner = (r, t')"
          using assms(3) l None cs False tier by (simp add: tier_read_def Let_def inner_def)
        have ct: "cache_true (v (t_store ?t1)) cf (t_cache ?t1)" using c1 by simp
        have io: "inner_ok v cf key ?t1 inner"
          using l1_read_ok [OF assms(1) ct] cold_read_ok [OF assms(1) ct] args by (simp add: inner_def key_def read_l1_def)
        have "stands_for cf p key" using tier args by (simp add: stands_for_def key_def)
        from finish_read_ok [OF io this run] show ?thesis by simp
      qed
    qed
  qed
qed

theorem tier_read_faithful_witness:
  "\<exists>r t'. tier_read example_config (Some mem_s3) [] example_read_env ''tier=L2/a'' (example_readers (init_rcache 1 300 None 5)) = (r, t') \<and>
     mem_view (t_store t') = mem_view \<lparr>m_up = True, m_objects = []\<rparr>"
proof -
  let ?t = "example_readers (init_rcache 1 300 None 5)"
  obtain r t' where run: "tier_read example_config (Some mem_s3) [] example_read_env ''tier=L2/a'' ?t = (r, t')" by fastforce
  have "client_ok (Some mem_s3) mem_view" by (simp add: client_ok_def mem_laws)
  moreover have "cache_true (mem_view (t_store ?t)) example_config (t_cache ?t)"
    by (simp add: rcache.coherent_def cached_def example_readers_def init_rcache_def)
  ultimately show ?thesis using tier_read_faithful [OF _ _ run] run by (simp add: example_readers_def)
qed

text \<open>
  The breaker protects the store: on a cache miss while the breaker answers OPEN or
  UNKNOWN_TIER, a read does not touch the store, and it answers \<^verbatim>\<open>local_fallback\<close> or
  \<^verbatim>\<open>nas_unreachable\<close>, under UNKNOWN_TIER only the latter. A path without a tier puts the breaker into
  UNKNOWN_TIER, and from then on every read that misses the cache, of whatever path,
  answers \<^verbatim>\<open>nas_unreachable\<close> until an operator intervenes.
\<close>

lemma breaker_shields_store:
  assumes "cache_look (re_outer_get e) p (t_cache t) = (None, c1)" "current_state (re_state e) (t_dr t) = (st, d)"
    and "tier_read cf client fs e p t = (r, t')"
  shows "(st \<in> {OPEN, UNKNOWN_TIER} \<longrightarrow> t_store t' = t_store t \<and>
            (\<exists>res. r = Inr res \<and> tr_status res \<in> (if st = OPEN then {TierLocalFallback, TierNasUnreachable} else {TierNasUnreachable}))) \<and>
         (st \<notin> {OPEN, UNKNOWN_TIER} \<longrightarrow> tier_of_path p = None \<longrightarrow>
            dr_mode (t_dr t') = UNKNOWN_TIER \<and> t_store t' = t_store t \<and>
            (\<forall>client2 fs2 e2 p2 c2. cache_look (re_outer_get e2) p2 (t_cache t') = (None, c2) \<longrightarrow>
               (\<exists>res t2. tier_read cf client2 fs2 e2 p2 t' = (Inr res, t2) \<and> tr_status res = TierNasUnreachable \<and>
                  t_store t2 = t_store t' \<and> dr_mode (t_dr t2) = UNKNOWN_TIER)))"
proof (intro conjI impI)
  assume st: "st \<in> {OPEN, UNKNOWN_TIER}"
  then have r: "r = Inr (local_fallback_or_unreachable (cf_local_base cf) (cf_cutoff cf) fs p (Some st) [])" "t_store t' = t_store t"
    using assms by (auto simp: tier_read_def Let_def)
  then show "t_store t' = t_store t" by simp
  show "\<exists>res. r = Inr res \<and> tr_status res \<in> (if st = OPEN then {TierLocalFallback, TierNasUnreachable} else {TierNasUnreachable})"
    using st r by (auto simp: local_fallback_or_unreachable_def Let_def split: option.splits)
next
  assume st: "st \<notin> {OPEN, UNKNOWN_TIER}" and p: "tier_of_path p = None"
  then have t': "t' = t\<lparr>t_cache := c1, t_dr := set_mode (re_record e) UNKNOWN_TIER d\<rparr>"
    using assms by (auto simp: tier_read_def Let_def)
  then show m: "dr_mode (t_dr t') = UNKNOWN_TIER" and "t_store t' = t_store t" by (simp_all add: set_mode_def Let_def)
  from m show "\<forall>client2 fs2 e2 p2 c2. cache_look (re_outer_get e2) p2 (t_cache t') = (None, c2) \<longrightarrow>
      (\<exists>res t2. tier_read cf client2 fs2 e2 p2 t' = (Inr res, t2) \<and> tr_status res = TierNasUnreachable \<and>
         t_store t2 = t_store t' \<and> dr_mode (t_dr t2) = UNKNOWN_TIER)"
    by (simp add: tier_read_def Let_def current_state_def local_fallback_or_unreachable_def)
qed

text \<open>
  Cached data can be discarded and counted as an outage: when the path itself is not cached but
  the object it stands for is, the inner reader answers \<^verbatim>\<open>hit_cache\<close>, which the tier reader does not
  count as success. For a cold path with no local fallback the caller then gets
  \<^verbatim>\<open>nas_unreachable\<close> although the data was at hand, and the breaker records a server error.
\<close>

lemma inner_cache_hit_discarded:
  assumes "cache_look (re_outer_get e) p (t_cache t) = (None, c1)" "current_state (re_state e) (t_dr t) = (CLOSED, d)"
    and "tier_of_path p = Some tier" "tier \<noteq> ''L1''" "cf_local_base cf = None"
    and "cache_look (re_inner_get e) (fst (build_nas_object_key (cf_normalize cf) p)) c1 = (Some data, c2)"
  shows "\<exists>res t'. tier_read cf client fs e p t = (Inr res, t') \<and> tr_status res = TierNasUnreachable \<and> tr_data res = [] \<and>
           t_dr t' = record_failure (re_record e) (re_check e) (re_later e) 503 (re_latency_ms e) d"
proof -
  obtain key leg where k: "build_nas_object_key (cf_normalize cf) p = (key, leg)" by fastforce
  with assms show ?thesis
    by (simp add: tier_read_def Let_def cold_read_def finish_read_def nas_success_def local_fallback_or_unreachable_def)
qed

definition example_inner_cache :: rcache where
  "example_inner_cache = snd (cache_put 0 ''tier=L2/node=DEFAULT/a'' ''data'' (init_rcache 2 300 None 5))"

lemma l1_part_exchange: "l1_part (''exchange='' @ x) st = st"
  by (cases st) (simp add: l1_part_def starts_with_def)

text \<open>
  The exchange of an L1 path is not read: two L1 paths that differ only in their exchange
  component, and in nothing else, are looked up under the same object key, which names the exchange
  DEFAULT.
\<close>

lemma l1_exchange_ignored:
  assumes "slash_free x" "slash_free y" "list_all slash_free rest" "rest \<noteq> []"
  shows "l1_args (slash_join (''tier=L1'' # (''exchange='' @ x) # rest)) = l1_args (slash_join (''tier=L1'' # (''exchange='' @ y) # rest)) \<and>
         (\<forall>symbol date hour. starts_with (build_l1_key symbol date hour) ''tier=L1/exchange=DEFAULT/'')"
proof -
  have sp: "split_on CHR ''/'' (slash_join (''tier=L1'' # (''exchange='' @ z) # rest)) = ''tier=L1'' # (''exchange='' @ z) # rest"
    if "slash_free z" for z using that assms(3) by (intro split_slash_join) simp_all
  have "starts_with (build_l1_key symbol date hour) ''tier=L1/exchange=DEFAULT/''" for symbol date hour
    by (simp add: build_l1_key_def Let_def starts_with_def)
  moreover have "l1_args (slash_join (''tier=L1'' # (''exchange='' @ x) # rest)) = l1_args (slash_join (''tier=L1'' # (''exchange='' @ y) # rest))"
    unfolding l1_args_def sp [OF assms(1)] sp [OF assms(2)] by (simp only: fold_simps comp_def l1_part_exchange)
  ultimately show ?thesis by blast
qed

text \<open>
  An unreachable store is reported as a missing object when the text of the connection error
  contains the digits 404, as it does when it quotes a request URL for a date such as 20240404.
\<close>

lemma unreachable_reported_missing:
  assumes "build_nas_object_key nrm p = (key, leg)" "cache_look (re_inner_get e) key (t_cache t) = (None, c1)"
    and "s3_get c key (t_store t) = (Inl EndpointConnectionError, s)" "contains ''404'' (et_str tx key EndpointConnectionError)"
  shows "\<exists>t'. cold_read (Some c) tx nrm e p t = (Inr \<lparr>rr_status = NotFound, rr_data = [], rr_key = key\<rparr>, t')"
  using assms by (simp add: cold_read_def cold_missing_def)

end
