(* ===== verification/Retention.thy ===== *)
theory Retention
  imports WalSegment
begin

text \<open>
  What may delete or replace local files after compaction: \<^verbatim>\<open>compactor/gc.py\<close>,
  \<^verbatim>\<open>compactor/gc_daemon.py\<close> and the atomic replacement of \<^verbatim>\<open>wal/replay.py\<close>.

  A file is its modification time for the collectors and its content for the replacement. Whether
  the operating system lets a path be unlinked is the argument \<open>can_unlink\<close>. \<^verbatim>\<open>rglob\<close> is the
  list of matching paths at the start of the pass; its order does not matter to the results.
\<close>

section \<open>Model\<close>

definition GRACE_SECONDS :: seconds where "GRACE_SECONDS = 86400"
definition NORMAL_GRACE_SECONDS :: seconds where "NORMAL_GRACE_SECONDS = 86400"
definition ARCHIVE_FAILED_GRACE_SECONDS :: seconds where "ARCHIVE_FAILED_GRACE_SECONDS = 86400 * 7"
definition ARCHIVE_FAILED_SUFFIX :: string where "ARCHIVE_FAILED_SUFFIX = ''._archive_failed''"

definition marker_suffix :: string where
  "marker_suffix = ''.ndjson.sealed.compacted''"

text \<open>\<^verbatim>\<open>Path(str(compacted)[: -len(".compacted")])\<close>\<close>

definition sealed_of :: "path \<Rightarrow> path" where
  "sealed_of compacted = butlast compacted @ [drop_suffix (path_name compacted) ''.compacted'']"

definition archive_failed_sentinel :: "path \<Rightarrow> path" where
  "archive_failed_sentinel sealed = path_add sealed ARCHIVE_FAILED_SUFFIX"

definition gc_one :: "seconds \<Rightarrow> (path \<Rightarrow> bool) \<Rightarrow> path \<Rightarrow> seconds fsys \<Rightarrow> seconds fsys" where
  "gc_one now can_unlink compacted fs =
     (case fs_get fs compacted of
        None \<Rightarrow> fs
      | Some mtime \<Rightarrow>
          if GRACE_SECONDS \<le> now - mtime then
            (let sealed = sealed_of compacted in
             if fs_exists fs sealed \<and> \<not> can_unlink sealed then fs
             else let fs1 = (if fs_exists fs sealed then fs_del sealed fs else fs) in
                  if can_unlink compacted then fs_del compacted fs1 else fs1)
          else fs)"

definition run_gc :: "seconds \<Rightarrow> (path \<Rightarrow> bool) \<Rightarrow> path \<Rightarrow> seconds fsys \<Rightarrow> seconds fsys" where
  "run_gc now can_unlink base fs =
     fold (gc_one now can_unlink) (fs_rglob (base @ [''wal'']) marker_suffix fs) fs"

definition unlink_if_can :: "(path \<Rightarrow> bool) \<Rightarrow> path \<Rightarrow> seconds fsys \<Rightarrow> seconds fsys" where
  "unlink_if_can can_unlink p fs = (if fs_exists fs p \<and> can_unlink p then fs_del p fs else fs)"

definition delete_segment :: "(path \<Rightarrow> bool) \<Rightarrow> path \<Rightarrow> path \<Rightarrow> path option \<Rightarrow> seconds fsys \<Rightarrow> seconds fsys" where
  "delete_segment can_unlink sealed compacted sentinel fs =
     fold (unlink_if_can can_unlink)
       ([sealed, compacted] @ (case sentinel of None \<Rightarrow> [] | Some s \<Rightarrow> [s])) fs"

record op_risk_alert =
  al_segment :: path
  al_age_seconds :: seconds

definition gc_extended_one ::
  "seconds \<Rightarrow> (path \<Rightarrow> bool) \<Rightarrow> path \<Rightarrow> seconds fsys \<times> op_risk_alert list \<Rightarrow> seconds fsys \<times> op_risk_alert list" where
  "gc_extended_one now can_unlink compacted st =
     (case st of (fs, alerts) \<Rightarrow>
        let sealed = sealed_of compacted; sentinel = archive_failed_sentinel sealed in
        case fs_get fs compacted of
          None \<Rightarrow> (fs, alerts)
        | Some mtime \<Rightarrow>
            let age = now - mtime in
            if fs_exists fs sentinel then
              (if ARCHIVE_FAILED_GRACE_SECONDS \<le> age
               then (delete_segment can_unlink sealed compacted (Some sentinel) fs,
                     alerts @ [\<lparr>al_segment = sealed, al_age_seconds = age\<rparr>])
               else (fs, alerts))
            else if NORMAL_GRACE_SECONDS \<le> age
            then (delete_segment can_unlink sealed compacted None fs, alerts)
            else (fs, alerts))"

definition run_gc_with_extension ::
  "seconds \<Rightarrow> (path \<Rightarrow> bool) \<Rightarrow> path \<Rightarrow> seconds fsys \<Rightarrow> seconds fsys \<times> op_risk_alert list" where
  "run_gc_with_extension now can_unlink base fs =
     fold (gc_extended_one now can_unlink) (fs_rglob (base @ [''wal'']) marker_suffix fs) (fs, [])"

text \<open>
  \<^verbatim>\<open>atomic_replace_parquet\<close>: the Parquet writer belongs to another package; here it either produces
  the whole content, or fails leaving some partial content or none in the temporary file. The
  rename can fail as well, and so can the removals during clean-up.
\<close>

datatype write_outcome = WriteOk | WriteFails "bytes option"

definition atomic_replace_parquet ::
  "write_outcome \<Rightarrow> bool \<Rightarrow> (path \<Rightarrow> bool) \<Rightarrow> string \<Rightarrow> path \<Rightarrow> bytes \<Rightarrow> bytes fsys \<Rightarrow> (py_error + unit) \<times> bytes fsys" where
  "atomic_replace_parquet outcome replace_ok can_unlink tmp_suffix final table fs =
     (let tmp = path_add final tmp_suffix;
          cleanup = (\<lambda>g. let g1 = (if fs_exists g tmp \<and> can_unlink tmp then fs_del tmp g else g) in
                         if fs_exists g1 final \<and> can_unlink final then fs_del final g1 else g1) in
      case outcome of
        WriteFails partial \<Rightarrow>
          (Inl OSError, cleanup (case partial of None \<Rightarrow> fs | Some b \<Rightarrow> fs_put tmp b fs))
      | WriteOk \<Rightarrow>
          if replace_ok then (Inr (), fs_replace tmp final (fs_put tmp table fs))
          else (Inl OSError, cleanup (fs_put tmp table fs)))"

section \<open>The files of a segment\<close>

definition is_marker :: "path \<Rightarrow> bool" where
  "is_marker p \<longleftrightarrow> p \<noteq> [] \<and> ends_with (path_name p) marker_suffix"

definition segment_files :: "path \<Rightarrow> path set" where
  "segment_files m = {m, sealed_of m, archive_failed_sentinel (sealed_of m)}"

lemma marker_shape:
  assumes "is_marker m"
  shows "\<exists>d b. m = d @ [b @ ''.ndjson.sealed.compacted''] \<and> sealed_of m = d @ [b @ ''.ndjson.sealed''] \<and>
           archive_failed_sentinel (sealed_of m) = d @ [b @ ''.ndjson.sealed._archive_failed'']"
proof -
  obtain b where b: "path_name m = b @ marker_suffix" using assms by (auto simp: is_marker_def ends_with_iff)
  have m: "m = butlast m @ [b @ marker_suffix]" using assms b by (metis append_butlast_last_id is_marker_def path_name_def)
  have "b @ marker_suffix = (b @ ''.ndjson.sealed'') @ ''.compacted''" by (simp add: marker_suffix_def)
  then have "sealed_of m = butlast m @ [b @ ''.ndjson.sealed'']"
    unfolding sealed_of_def b by (metis drop_suffix_append)
  moreover from this have "archive_failed_sentinel (sealed_of m) = butlast m @ [b @ ''.ndjson.sealed._archive_failed'']"
    by (simp add: archive_failed_sentinel_def ARCHIVE_FAILED_SUFFIX_def)
  ultimately show ?thesis using m by (intro exI [of _ "butlast m"] exI [of _ b]) (simp add: marker_suffix_def)
qed

lemma segment_files_disjoint:
  assumes "is_marker m" "is_marker n" "m \<noteq> n"
  shows "segment_files m \<inter> segment_files n = {}"
proof -
  obtain d b where m: "m = d @ [b @ ''.ndjson.sealed.compacted'']" "sealed_of m = d @ [b @ ''.ndjson.sealed'']"
    "archive_failed_sentinel (sealed_of m) = d @ [b @ ''.ndjson.sealed._archive_failed'']" using marker_shape [OF assms(1)] by blast
  obtain d' b' where n: "n = d' @ [b' @ ''.ndjson.sealed.compacted'']" "sealed_of n = d' @ [b' @ ''.ndjson.sealed'']"
    "archive_failed_sentinel (sealed_of n) = d' @ [b' @ ''.ndjson.sealed._archive_failed'']" using marker_shape [OF assms(2)] by blast
  have rev_neq: "rev (x @ ''.ndjson.sealed'') \<noteq> rev (y @ ''.ndjson.sealed.compacted'')"
    "rev (x @ ''.ndjson.sealed'') \<noteq> rev (y @ ''.ndjson.sealed._archive_failed'')"
    "rev (x @ ''.ndjson.sealed.compacted'') \<noteq> rev (y @ ''.ndjson.sealed._archive_failed'')" for x y :: string
    by simp_all
  have neq: "x @ ''.ndjson.sealed'' \<noteq> y @ ''.ndjson.sealed.compacted''" "x @ ''.ndjson.sealed'' \<noteq> y @ ''.ndjson.sealed._archive_failed''"
    "x @ ''.ndjson.sealed.compacted'' \<noteq> y @ ''.ndjson.sealed._archive_failed''" for x y :: string
    using rev_neq by metis+
  have sm: "segment_files m = {d @ [b @ ''.ndjson.sealed.compacted''], d @ [b @ ''.ndjson.sealed''], d @ [b @ ''.ndjson.sealed._archive_failed'']}"
    by (simp only: segment_files_def m(3), simp only: m(2), simp only: m(1))
  have sn: "segment_files n = {d' @ [b' @ ''.ndjson.sealed.compacted''], d' @ [b' @ ''.ndjson.sealed''], d' @ [b' @ ''.ndjson.sealed._archive_failed'']}"
    by (simp only: segment_files_def n(3), simp only: n(2), simp only: n(1))
  have "d \<noteq> d' \<or> b \<noteq> b'" using assms(3) m(1) n(1) by blast
  then show ?thesis unfolding sm sn by (auto simp: neq neq [symmetric])
qed

section \<open>One pass of the collector\<close>

abbreviation sentinel_of :: "path \<Rightarrow> path" where
  "sentinel_of m \<equiv> archive_failed_sentinel (sealed_of m)"

definition due :: "seconds \<Rightarrow> seconds fsys \<Rightarrow> path \<Rightarrow> bool" where
  "due now fs m \<longleftrightarrow>
     (case fs_get fs m of
        None \<Rightarrow> False
      | Some mtime \<Rightarrow>
          (if fs_exists fs (sentinel_of m) then ARCHIVE_FAILED_GRACE_SECONDS else NORMAL_GRACE_SECONDS) \<le> now - mtime)"

definition expiry_alert :: "seconds \<Rightarrow> seconds fsys \<Rightarrow> path \<Rightarrow> op_risk_alert" where
  "expiry_alert now fs m = \<lparr>al_segment = sealed_of m, al_age_seconds = now - the (fs_get fs m)\<rparr>"

lemma unlink_if_can_get:
  "fs_get (unlink_if_can can p fs) q = (if q = p \<and> can p then None else fs_get fs q)"
  by (auto simp: unlink_if_can_def fs_simps fs_exists_def)

lemma delete_segment_get:
  "fs_get (delete_segment can sealed compacted sentinel fs) q =
     (if can q \<and> (q = sealed \<or> q = compacted \<or> sentinel = Some q) then None else fs_get fs q)"
  by (auto simp: delete_segment_def unlink_if_can_get split: option.splits)

lemma gc_extended_one_get:
  assumes "gc_extended_one now can m (fs, al) = (fs', al')"
  shows "fs_get fs' q = (if due now fs m \<and> can q \<and> q \<in> segment_files m then None else fs_get fs q)"
    and "al' = al @ (if due now fs m \<and> fs_exists fs (sentinel_of m)
                     then [expiry_alert now fs m] else [])"
  using assms
  by (auto simp: expiry_alert_def gc_extended_one_def due_def Let_def delete_segment_get segment_files_def fs_exists_def
      split: option.splits if_splits)

lemma due_cong:
  assumes "\<And>p. p \<in> segment_files n \<Longrightarrow> fs_get fs1 p = fs_get fs p"
  shows "due now fs1 n = due now fs n" "fs_exists fs1 (sentinel_of n) = fs_exists fs (sentinel_of n)" "fs_get fs1 n = fs_get fs n"
proof -
  have e: "fs_get fs1 n = fs_get fs n" "fs_get fs1 (sentinel_of n) = fs_get fs (sentinel_of n)"
    using assms by (simp_all add: segment_files_def)
  then show "due now fs1 n = due now fs n" "fs_exists fs1 (sentinel_of n) = fs_exists fs (sentinel_of n)" "fs_get fs1 n = fs_get fs n"
    by (cases "fs_get fs (sentinel_of n)", simp_all add: due_def fs_exists_def)+
qed

lemma gc_extended_one_frame:
  assumes "gc_extended_one now can m (fs, al) = (fs1, al1)" "is_marker m" "is_marker n" "n \<noteq> m" "p \<in> segment_files n"
  shows "fs_get fs1 p = fs_get fs p"
proof -
  have "p \<notin> segment_files m" using segment_files_disjoint [OF assms(2,3)] assms(4,5) by blast
  then show ?thesis using gc_extended_one_get(1) [OF assms(1)] by simp
qed

lemma gc_extended_fold:
  assumes "fold (gc_extended_one now can) ms (fs, al) = (fs', al')" "distinct ms" "list_all is_marker ms"
  shows "(\<forall>q. fs_get fs' q = (if can q \<and> (\<exists>m\<in>set ms. due now fs m \<and> q \<in> segment_files m) then None else fs_get fs q)) \<and>
         al' = al @ map (expiry_alert now fs) (filter (\<lambda>m. due now fs m \<and> fs_exists fs (sentinel_of m)) ms)"
  using assms
proof (induction ms arbitrary: fs al)
  case (Cons m ms)
  obtain fs1 al1 where one: "gc_extended_one now can m (fs, al) = (fs1, al1)" by fastforce
  have m: "is_marker m" "list_all is_marker ms" "m \<notin> set ms" "distinct ms" using Cons.prems by simp_all
  have keep: "due now fs1 n = due now fs n" "fs_exists fs1 (sentinel_of n) = fs_exists fs (sentinel_of n)" "fs_get fs1 n = fs_get fs n"
    if "n \<in> set ms" for n
  proof -
    have n: "is_marker n" "n \<noteq> m" using that m by (auto simp: list_all_iff)
    note c = due_cong [OF gc_extended_one_frame [OF one m(1) n]]
    show "due now fs1 n = due now fs n" "fs_exists fs1 (sentinel_of n) = fs_exists fs (sentinel_of n)" "fs_get fs1 n = fs_get fs n"
      by (rule c, assumption)+
  qed
  have rest: "fold (gc_extended_one now can) ms (fs1, al1) = (fs', al')" using Cons.prems(1) one by simp
  have "map (expiry_alert now fs1) (filter (\<lambda>n. due now fs1 n \<and> fs_exists fs1 (sentinel_of n)) ms) =
      map (expiry_alert now fs) (filter (\<lambda>n. due now fs n \<and> fs_exists fs (sentinel_of n)) ms)"
    using keep by (intro map_cong filter_cong) (simp_all add: expiry_alert_def)
  moreover have "(\<exists>n\<in>set ms. due now fs1 n \<and> q \<in> segment_files n) = (\<exists>n\<in>set ms. due now fs n \<and> q \<in> segment_files n)" for q
    using keep(1) by blast
  ultimately show ?case
    using Cons.IH [OF rest m(4,2)] gc_extended_one_get [OF one] by auto
qed simp

section \<open>Properties\<close>

lemma rglob_markers:
  "distinct (fs_rglob base marker_suffix fs)" "list_all is_marker (fs_rglob base marker_suffix fs)"
  by (auto simp: distinct_fs_rglob list_all_iff set_fs_rglob is_marker_def)

text \<open>
  C22. What garbage collection of the write-ahead log deletes, exactly: a path disappears in a pass
  if and only if the system lets it be unlinked and it is the marker, the sealed file or the sentinel of a
  segment below the log directory whose marker is at least a day old, or a week old when archiving failed for it;
  every other file keeps its entry. In particular a segment that was never marked as compacted
  is not touched. Alerts are raised exactly for the expired segments with a failed archive.
\<close>

theorem gc_deletes_exactly:
  assumes "run_gc_with_extension now can base fs = (fs', alerts)"
  defines "markers \<equiv> fs_rglob (base @ [''wal'']) marker_suffix fs"
  shows "(\<forall>q. fs_get fs' q = (if can q \<and> (\<exists>m\<in>set markers. due now fs m \<and> q \<in> segment_files m) then None else fs_get fs q)) \<and>
         alerts = map (expiry_alert now fs) (filter (\<lambda>m. due now fs m \<and> fs_exists fs (sentinel_of m)) markers) \<and>
         (\<forall>p m. m \<in> set markers \<longrightarrow> (p \<in> segment_files m \<longleftrightarrow> p = m \<or> p = sealed_of m \<or> p = sentinel_of m)) \<and>
         (\<forall>p. \<not> ends_with (path_name p) marker_suffix \<longrightarrow> p \<notin> set markers)"
proof -
  have "fold (gc_extended_one now can) markers (fs, []) = (fs', alerts)"
    using assms by (simp add: run_gc_with_extension_def)
  from gc_extended_fold [OF this] rglob_markers [of "base @ [''wal'']" fs] show ?thesis
    by (auto simp: markers_def segment_files_def set_fs_rglob)
qed

theorem gc_deletes_exactly_witness:
  "\<exists>fs' al. run_gc_with_extension 100000 (\<lambda>p. True) [] [([''wal'', ''a.ndjson.sealed''], 0), ([''wal'', ''a.ndjson.sealed.compacted''], 50000)] = (fs', al) \<and>
     fs_get fs' [''wal'', ''a.ndjson.sealed''] = Some 0"
proof -
  let ?fs = "[([''wal'', ''a.ndjson.sealed''], 0), ([''wal'', ''a.ndjson.sealed.compacted''], 50000)] :: seconds fsys"
  obtain fs' al where run: "run_gc_with_extension 100000 (\<lambda>p. True) [] ?fs = (fs', al)" by fastforce
  have "\<not> due 100000 ?fs m" if "m \<in> set (fs_rglob ([] @ [''wal'']) marker_suffix ?fs)" for m
  proof -
    have "m = [''wal'', ''a.ndjson.sealed''] \<or> m = [''wal'', ''a.ndjson.sealed.compacted'']" using that by (auto simp: set_fs_rglob fs_exists_dom)
    then show ?thesis using that
      by (auto simp: due_def fs_get_def fs_exists_def NORMAL_GRACE_SECONDS_def ARCHIVE_FAILED_GRACE_SECONDS_def sealed_of_def
          archive_failed_sentinel_def ARCHIVE_FAILED_SUFFIX_def path_add_def path_name_def drop_suffix_def set_fs_rglob
          ends_with_def marker_suffix_def)
  qed
  with gc_deletes_exactly [OF run] run show ?thesis by (auto simp: fs_get_def)
qed

lemma marker_neq_sealed: "is_marker m \<Longrightarrow> m \<noteq> sealed_of m"
  using marker_shape [of m] by auto

lemma gc_one_extended:
  assumes "is_marker m" "\<not> fs_exists fs (sentinel_of m)"
  shows "gc_extended_one now (\<lambda>p. True) m (fs, al) = (gc_one now (\<lambda>p. True) m fs, al)"
  using assms(2) marker_neq_sealed [OF assms(1)]
  by (auto simp: gc_extended_one_def gc_one_def Let_def delete_segment_def unlink_if_can_def GRACE_SECONDS_def
      NORMAL_GRACE_SECONDS_def fs_simps fs_exists_def split: option.splits)

text \<open>
  The two collectors agree where archiving never failed: if no segment below the log directory
  has a sentinel and nothing prevents unlinking, a pass of the extended collector leaves the same
  files as a pass of the plain one and raises no alert.
\<close>

lemma gc_variants_agree:
  assumes "\<forall>m\<in>set (fs_rglob (base @ [''wal'']) marker_suffix fs). \<not> fs_exists fs (sentinel_of m)"
  shows "run_gc_with_extension now (\<lambda>p. True) base fs = (run_gc now (\<lambda>p. True) base fs, [])"
proof -
  have "fold (gc_extended_one now (\<lambda>p. True)) ms (g, []) = (fold (gc_one now (\<lambda>p. True)) ms g, [])"
    if "distinct ms" "list_all is_marker ms" "\<forall>m\<in>set ms. \<not> fs_exists g (sentinel_of m)" for ms g
    using that
  proof (induction ms arbitrary: g)
    case (Cons m ms)
    have one: "gc_extended_one now (\<lambda>p. True) m (g, []) = (gc_one now (\<lambda>p. True) m g, [])"
      using Cons.prems by (intro gc_one_extended) simp_all
    have "\<not> fs_exists (gc_one now (\<lambda>p. True) m g) (sentinel_of n)" if n: "n \<in> set ms" for n
    proof -
      have "is_marker n" "n \<noteq> m" using n Cons.prems(1,2) by (auto simp: list_all_iff)
      then have "fs_get (gc_one now (\<lambda>p. True) m g) (sentinel_of n) = fs_get g (sentinel_of n)"
        using gc_extended_one_frame [OF one] Cons.prems(2) by (simp add: segment_files_def)
      then show ?thesis using Cons.prems(3) n by (simp add: fs_exists_def)
    qed
    then show ?case using Cons one by simp
  qed simp
  from this [OF rglob_markers assms] show ?thesis by (simp add: run_gc_with_extension_def run_gc_def)
qed

text \<open>
  Atomic replacement, when clean-up is not obstructed: on success the target has the new
  content; on any failure the exception is raised and the target is gone, also when a complete
  older file was there. In both cases the temporary file is gone and no other file is touched.
\<close>

lemma atomic_replace_outcomes:
  assumes "suf \<noteq> []" "\<And>p. can p"
    and "atomic_replace_parquet outcome replace_ok can suf final table fs = (r, fs')"
  shows "(outcome = WriteOk \<and> replace_ok \<longrightarrow> r = Inr () \<and> fs_get fs' final = Some table) \<and>
         (\<not> (outcome = WriteOk \<and> replace_ok) \<longrightarrow> r = Inl OSError \<and> fs_get fs' final = None) \<and>
         fs_get fs' (path_add final suf) = None \<and>
         (\<forall>p. p \<noteq> final \<longrightarrow> p \<noteq> path_add final suf \<longrightarrow> fs_get fs' p = fs_get fs p)"
proof -
  have neq: "path_add final suf \<noteq> final" by (rule path_add_neq_self [OF assms(1)])
  show ?thesis
  proof (cases outcome)
    case WriteOk
    with assms(2,3) neq neq [symmetric] show ?thesis
      by (cases replace_ok)
        (auto simp: atomic_replace_parquet_def Let_def fs_simps fs_get_replace [where f = table] fs_exists_def)
  next
    case (WriteFails part)
    with assms(2,3) neq neq [symmetric] show ?thesis
      by (cases part) (auto simp: atomic_replace_parquet_def Let_def fs_simps fs_exists_def split: if_splits)
  qed
qed

end
