(* ===== verification/Barrier.thy ===== *)
theory Barrier
  imports Prelude
begin

text \<open>
  \<^verbatim>\<open>nas_storage/compaction_barrier.py\<close>: stopping compaction before dual writing is switched on. The
  state is whether the signal file exists. The compactor's state file, parsed as JSON, is a value of
  \<open>state_file\<close>; each round of the polling loop reads it and the clock once more, so a run of the
  loop is a function of the rounds that happen, and \<open>None\<close> means that it is still waiting after
  the rounds given.
\<close>

section \<open>Model\<close>

text \<open>
  The file may be missing, hold no JSON, hold JSON that is not an object, lack the count, or have a
  count that \<^verbatim>\<open>int()\<close> accepts, rejects with \<^verbatim>\<open>ValueError\<close>, or rejects with \<^verbatim>\<open>TypeError\<close>.
\<close>

datatype state_file = NoFile | NotJson | NotObject | NoCount | Count int | CountNoNumber | CountWrongType

datatype barrier_status = BarrierOk | DrainTimeout | BarrierViolated

record barrier_result =
  br_status :: barrier_status
  br_drain_wait_ms :: rat
  br_in_flight_remaining :: int

record poll =
  po_state :: state_file
  po_elapsed_at :: seconds
  po_checked_at :: seconds

definition read_in_flight_count :: "state_file \<Rightarrow> py_error + int" where
  "read_in_flight_count f =
     (case f of
        NoFile \<Rightarrow> Inr 0
      | NotJson \<Rightarrow> Inr 0
      | NotObject \<Rightarrow> Inl AttributeError
      | NoCount \<Rightarrow> Inr 0
      | Count n \<Rightarrow> Inr n
      | CountNoNumber \<Rightarrow> Inr 0
      | CountWrongType \<Rightarrow> Inl TypeError)"

text \<open>Writing the signal file; \<open>ok\<close> says whether the system lets it.\<close>

definition emit_barrier_signal :: "bool \<Rightarrow> bool \<Rightarrow> (py_error + unit) \<times> bool" where
  "emit_barrier_signal ok signal = (if ok then (Inr (), True) else (Inl OSError, signal))"

fun drain_wait :: "rat \<Rightarrow> seconds \<Rightarrow> poll list \<Rightarrow> (py_error + barrier_result) option" where
  "drain_wait start_ms deadline [] = None"
| "drain_wait start_ms deadline (p # ps) =
     (case read_in_flight_count (po_state p) of
        Inl e \<Rightarrow> Some (Inl e)
      | Inr in_flight \<Rightarrow>
          let elapsed_ms = po_elapsed_at p * 1000 - start_ms in
          if in_flight = 0
          then Some (Inr \<lparr>br_status = BarrierOk, br_drain_wait_ms = elapsed_ms, br_in_flight_remaining = 0\<rparr>)
          else if deadline \<le> po_checked_at p
          then Some (Inr \<lparr>br_status = DrainTimeout, br_drain_wait_ms = elapsed_ms, br_in_flight_remaining = in_flight\<rparr>)
          else drain_wait start_ms deadline ps)"

definition drain_and_block ::
  "int \<Rightarrow> bool \<Rightarrow> seconds \<Rightarrow> seconds \<Rightarrow> poll list \<Rightarrow> bool \<Rightarrow> (py_error + barrier_result) option \<times> bool" where
  "drain_and_block drain_timeout_seconds signal_ok start begun polls signal =
     (case emit_barrier_signal signal_ok signal of
        (Inl e, signal') \<Rightarrow> (Some (Inl e), signal')
      | (Inr u, signal') \<Rightarrow>
          (drain_wait (start * 1000) (begun + rat_of_int drain_timeout_seconds) polls, signal'))"

definition release :: "bool \<Rightarrow> bool \<Rightarrow> bool" where
  "release can_unlink signal = (if can_unlink then False else signal)"

definition verify_barrier_intact :: "state_file \<Rightarrow> bool \<Rightarrow> py_error + barrier_result" where
  "verify_barrier_intact f signal =
     (case read_in_flight_count f of
        Inl e \<Rightarrow> Inl e
      | Inr in_flight \<Rightarrow>
          if \<not> signal \<or> 0 < in_flight
          then Inr \<lparr>br_status = BarrierViolated, br_drain_wait_ms = 0, br_in_flight_remaining = in_flight\<rparr>
          else Inr \<lparr>br_status = BarrierOk, br_drain_wait_ms = 0, br_in_flight_remaining = 0\<rparr>)"

section \<open>Lemmas\<close>

lemma drain_wait_result:
  "drain_wait s d ps = Some (Inr r) \<Longrightarrow>
     (\<exists>p\<in>set ps. (br_status r = BarrierOk \<and> read_in_flight_count (po_state p) = Inr 0 \<and> br_in_flight_remaining r = 0) \<or>
        (br_status r = DrainTimeout \<and> d \<le> po_checked_at p \<and> br_in_flight_remaining r \<noteq> 0 \<and>
         read_in_flight_count (po_state p) = Inr (br_in_flight_remaining r)))"
  by (induction ps) (auto simp: Let_def split: sum.splits if_splits)

lemma drain_wait_done:
  "\<exists>p\<in>set ps. d \<le> po_checked_at p \<Longrightarrow> drain_wait s d ps \<noteq> None"
  by (induction ps) (auto simp: Let_def split: sum.splits)

text \<open>A clock that advances by at least the polling interval in each round.\<close>

definition advances :: "seconds \<Rightarrow> seconds \<Rightarrow> (nat \<Rightarrow> poll) \<Rightarrow> bool" where
  "advances begun interval rounds \<longleftrightarrow>
     begun \<le> po_checked_at (rounds 0) \<and> (\<forall>i. po_checked_at (rounds i) + interval \<le> po_checked_at (rounds (Suc i)))"

lemma advances_by: "advances b i rounds \<Longrightarrow> b + rat_of_nat n * i \<le> po_checked_at (rounds n)"
proof (induction n)
  case (Suc n)
  then have "b + rat_of_nat n * i + i \<le> po_checked_at (rounds n) + i" by simp
  also have "\<dots> \<le> po_checked_at (rounds (Suc n))" using Suc.prems by (simp add: advances_def)
  finally show ?case by (simp add: algebra_simps)
qed (simp add: advances_def)

section \<open>Properties\<close>

text \<open>
  C23. Waiting for the drain ends: with a positive polling interval, after at most
  \<open>n + 1\<close> rounds, where \<open>n\<close> intervals cover the time-out, \<^verbatim>\<open>drain_and_block\<close> has returned. It
  answers \<^verbatim>\<open>ok\<close> only after a round that read no task in flight, and \<^verbatim>\<open>drain_timeout\<close> only past the deadline
  with the number of tasks it last read. In either case the signal file is left in place, so
  compaction stays blocked until \<^verbatim>\<open>release\<close>, after a time-out as well.
\<close>

theorem drain_terminates:
  assumes "0 < interval" "advances begun interval rounds" "rat_of_int timeout \<le> rat_of_nat n * interval"
  shows "\<exists>res. drain_and_block timeout True start begun (map rounds [0..<Suc n]) signal = (Some res, True) \<and>
           (\<forall>r. res = Inr r \<longrightarrow>
              (\<exists>i\<le>n. (br_status r = BarrierOk \<and> read_in_flight_count (po_state (rounds i)) = Inr 0 \<and> br_in_flight_remaining r = 0) \<or>
                 (br_status r = DrainTimeout \<and> begun + rat_of_int timeout \<le> po_checked_at (rounds i) \<and> br_in_flight_remaining r \<noteq> 0 \<and>
                  read_in_flight_count (po_state (rounds i)) = Inr (br_in_flight_remaining r))))"
proof -
  let ?d = "begun + rat_of_int timeout" and ?ps = "map rounds [0..<Suc n]"
  have "?d \<le> po_checked_at (rounds n)" using advances_by [OF assms(2), of n] assms(3) by linarith
  then have "drain_wait (start * 1000) ?d ?ps \<noteq> None" by (intro drain_wait_done) auto
  then obtain res where res: "drain_wait (start * 1000) ?d ?ps = Some res" by blast
  have "\<exists>i\<le>n. (br_status r = BarrierOk \<and> read_in_flight_count (po_state (rounds i)) = Inr 0 \<and> br_in_flight_remaining r = 0) \<or>
      (br_status r = DrainTimeout \<and> ?d \<le> po_checked_at (rounds i) \<and> br_in_flight_remaining r \<noteq> 0 \<and>
       read_in_flight_count (po_state (rounds i)) = Inr (br_in_flight_remaining r))" if "res = Inr r" for r
    using drain_wait_result [OF res [unfolded that]] by (fastforce simp del: upt_Suc simp: less_Suc_eq_le)
  then show ?thesis using res by (simp add: drain_and_block_def emit_barrier_signal_def del: upt_Suc map_append)
qed

theorem drain_terminates_witness:
  "\<exists>res. drain_and_block 1 True 0 0 (map (\<lambda>i. \<lparr>po_state = Count 2, po_elapsed_at = rat_of_nat i, po_checked_at = rat_of_nat i\<rparr>) [0..<Suc 1]) False = (Some res, True)"
proof -
  let ?rounds = "\<lambda>i. \<lparr>po_state = Count 2, po_elapsed_at = rat_of_nat i, po_checked_at = rat_of_nat i\<rparr>"
  have "advances 0 1 ?rounds" by (simp add: advances_def)
  from drain_terminates [OF _ this, of 1 1 0 False] show ?thesis by (simp del: upt_Suc) blast
qed

text \<open>An undisturbed barrier is found intact, and a released one is not.\<close>

lemma verify_after_drain:
  assumes "read_in_flight_count f = Inr 0"
  shows "\<exists>r. verify_barrier_intact f True = Inr r \<and> br_status r = BarrierOk"
    and "\<exists>r. verify_barrier_intact f (release True True) = Inr r \<and> br_status r = BarrierViolated"
  using assms by (simp_all add: verify_barrier_intact_def release_def)

end
