(* ===== verification/Rekey.thy ===== *)
theory Rekey
  imports NasUploader NasKey
begin

text \<open>
  \<^verbatim>\<open>nas_migration/rekey.py\<close>: the migration of objects from \<^verbatim>\<open>l1/...\<close> to the flat key. Every object goes
  through copy, verification and deletion, with its status written to a manifest file before each
  step, so that an interrupted run can be resumed.

  \<^item> The manifest is a dictionary of entries in memory (\<open>rk_entries\<close>) and the file last written
    (\<open>rk_file\<close>); the YAML text of the file is not modelled, a file that does not parse is \<open>Corrupt\<close>.
  \<^item> \<open>rk_io\<close> holds the outcomes of the coming file writes (manifest and sentinels); writes beyond its
    end succeed. A write that fails raises, so a process that dies between two effects leaves
    the store and the files as some list of outcomes does.
  \<^item> The lock on the pid file, the answer of the versioning request, the free disk space, the
    arrival of \<^verbatim>\<open>SIGTERM\<close> and the clock are inputs (\<open>rekey_env\<close>). The Prometheus counters are left out
    except the gauge of partitions between deletion and completion. Messages are cut before their
    first dash.

  The lemmas show that no run and no interruption loses an object below \<^verbatim>\<open>l1/\<close>, that a healthy
  store lets every entry complete, and that a dry run keeps a later live run from
  migrating anything.
\<close>

section \<open>Model\<close>

datatype rekey_status =
    Pending | Copying | CopiedSt | Verifying | Verified | Deleting | DeletedSt | Done
  | Failed | LegacyNoSha256 | RolledBack

record partition_entry =
  pe_partition_id :: string
  pe_old_key :: string
  pe_new_key :: string
  pe_status :: rekey_status
  pe_old_etag :: string
  pe_old_sha256 :: "string option"
  pe_old_content_length :: int
  pe_old_version_id :: "string option"
  pe_new_etag :: string
  pe_new_sha256 :: "string option"
  pe_new_content_length :: int
  pe_new_version_id :: "string option"
  pe_pre_delete_version_id :: "string option"
  pe_timestamp_copied :: "string option"
  pe_timestamp_verified :: "string option"
  pe_timestamp_deleted :: "string option"
  pe_retry_count :: nat
  pe_error_message :: "string option"

definition PartitionEntry :: "string \<Rightarrow> string \<Rightarrow> string \<Rightarrow> partition_entry" where
  "PartitionEntry partition_id old_key new_key =
     \<lparr>pe_partition_id = partition_id, pe_old_key = old_key, pe_new_key = new_key, pe_status = Pending,
      pe_old_etag = [], pe_old_sha256 = None, pe_old_content_length = 0, pe_old_version_id = None,
      pe_new_etag = [], pe_new_sha256 = None, pe_new_content_length = 0, pe_new_version_id = None,
      pe_pre_delete_version_id = None, pe_timestamp_copied = None, pe_timestamp_verified = None,
      pe_timestamp_deleted = None, pe_retry_count = 0, pe_error_message = None\<rparr>"

type_synonym partitions = "(string \<times> partition_entry) list"

datatype manifest_file = NoFile | Corrupt | Saved partitions nat

record 's rekey =
  rk_store :: 's
  rk_entries :: partitions
  rk_total :: nat
  rk_file :: manifest_file
  rk_sentinels :: "string list"
  rk_partial :: int
  rk_io :: "bool list"

record rekey_cfg =
  rx_exchange :: string
  rx_channel :: string
  rx_batch_size :: int
  rx_dry_run :: bool
  rx_threshold :: rat
  rx_max_partitions :: "int option"
  rx_i_understand :: bool

record rekey_env =
  re_locked :: bool
  re_versioning :: "py_error + string"
  re_free_gb :: rat
  re_stop_at :: "nat option"
  re_now :: "string \<Rightarrow> string \<Rightarrow> string"

subsection \<open>The manifest\<close>

definition load_manifest :: "'s rekey \<Rightarrow> 's rekey" where
  "load_manifest w =
     (case rk_file w of
        Saved m t \<Rightarrow> w\<lparr>rk_entries := m, rk_total := t\<rparr>
      | _ \<Rightarrow> w\<lparr>rk_entries := [], rk_total := 0\<rparr>)"

definition upsert_pending :: "string \<Rightarrow> string \<Rightarrow> string \<Rightarrow> 's rekey \<Rightarrow> 's rekey" where
  "upsert_pending pid old_key new_key w =
     (if map_of (rk_entries w) pid = None
      then w\<lparr>rk_entries := AList.update pid (PartitionEntry pid old_key new_key) (rk_entries w)\<rparr> else w)"

text \<open>The caller holds the entry object of the dictionary and changes it in place.\<close>

definition get_entry :: "string \<Rightarrow> 's rekey \<Rightarrow> partition_entry" where
  "get_entry pid w = (case map_of (rk_entries w) pid of Some e \<Rightarrow> e | None \<Rightarrow> PartitionEntry pid [] [])"

definition change_entry :: "string \<Rightarrow> (partition_entry \<Rightarrow> partition_entry) \<Rightarrow> 's rekey \<Rightarrow> 's rekey" where
  "change_entry pid f w =
     (case map_of (rk_entries w) pid of
        None \<Rightarrow> w
      | Some e \<Rightarrow> w\<lparr>rk_entries := AList.update pid (f e) (rk_entries w)\<rparr>)"

definition update_status ::
  "string \<Rightarrow> rekey_status \<Rightarrow> (partition_entry \<Rightarrow> partition_entry) \<Rightarrow> 's rekey \<Rightarrow> 's rekey" where
  "update_status pid st f w = change_entry pid (\<lambda>e. f (e\<lparr>pe_status := st\<rparr>)) w"

definition resumable :: "rekey_status \<Rightarrow> bool" where
  "resumable st \<longleftrightarrow> st \<in> {Pending, Copying, CopiedSt, Verifying, Verified, Deleting}"

definition iter_done :: "'s rekey \<Rightarrow> partition_entry list" where
  "iter_done w = filter (\<lambda>e. pe_status e = Done) (map snd (rk_entries w))"

definition next_io :: "'s rekey \<Rightarrow> bool \<times> 's rekey" where
  "next_io w = (case rk_io w of [] \<Rightarrow> (True, w) | b # bs \<Rightarrow> (b, w\<lparr>rk_io := bs\<rparr>))"

definition write_atomic :: "'s rekey \<Rightarrow> (py_error + unit) \<times> 's rekey" where
  "write_atomic w =
     (case next_io w of
        (True, w1) \<Rightarrow> (Inr (), w1\<lparr>rk_file := Saved (rk_entries w1) (rk_total w1)\<rparr>)
      | (False, w1) \<Rightarrow> (Inl OSError, w1))"

definition mark ::
  "string \<Rightarrow> rekey_status \<Rightarrow> (partition_entry \<Rightarrow> partition_entry) \<Rightarrow> 's rekey \<Rightarrow> (py_error + unit) \<times> 's rekey" where
  "mark pid st f w = write_atomic (update_status pid st f w)"

subsection \<open>Sentinels, keys and candidates\<close>

fun remove_dotdot :: "string \<Rightarrow> string" where
  "remove_dotdot (a # b # s) =
     (if a = CHR ''.'' \<and> b = CHR ''.'' then remove_dotdot s else a # remove_dotdot (b # s))"
| "remove_dotdot s = s"

definition sentinel_name :: "(string \<Rightarrow> string) \<Rightarrow> string \<Rightarrow> string" where
  "sentinel_name hash pid =
     take 16 (hash (remove_dotdot (replace_char CHR ''/'' CHR ''-'' pid))) @ ''.completed''"

definition sentinel_exists :: "(string \<Rightarrow> string) \<Rightarrow> string \<Rightarrow> 's rekey \<Rightarrow> bool" where
  "sentinel_exists hash pid w \<longleftrightarrow> sentinel_name hash pid \<in> set (rk_sentinels w)"

definition write_sentinel :: "(string \<Rightarrow> string) \<Rightarrow> string \<Rightarrow> 's rekey \<Rightarrow> (py_error + unit) \<times> 's rekey" where
  "write_sentinel hash pid w =
     (if sentinel_exists hash pid w then (Inr (), w)
      else case next_io w of
             (True, w1) \<Rightarrow> (Inr (), w1\<lparr>rk_sentinels := sentinel_name hash pid # rk_sentinels w1\<rparr>)
           | (False, w1) \<Rightarrow> (Inl OSError, w1))"

definition build_partition_id :: "string \<Rightarrow> string" where
  "build_partition_id old_key =
     rstrip CHR ''-'' (replace_char CHR ''/'' CHR ''-'' (legacy_key_to_canonical old_key))"

definition build_new_key :: "string \<Rightarrow> string" where
  "build_new_key old_key = legacy_key_to_canonical old_key"

definition rekey_candidates :: "string \<Rightarrow> string list \<Rightarrow> string list" where
  "rekey_candidates exchange all_keys =
     (let filtered = filter (\<lambda>k. has_sub (''/exchange='' @ exchange @ ''/'') k \<and> has_sub ''/tier=L1/'' k) all_keys;
          compacted_base = map (\<lambda>k. drop_suffix k ''.compacted'') (filter (\<lambda>k. ends_with k ''.compacted'') filtered)
      in filter (\<lambda>k. \<not> ends_with k ''.compacted'' \<and> k \<in> set compacted_base) filtered)"

definition discover_l1_objects ::
  "'s s3 \<Rightarrow> rekey_cfg \<Rightarrow> 's rekey \<Rightarrow> (py_error + string list) \<times> 's rekey" where
  "discover_l1_objects c cfg w =
     (case build_legacy_l1_discovery_prefix (rx_channel cfg) of
        Inl e \<Rightarrow> (Inl e, w)
      | Inr pre \<Rightarrow>
          (case list_objects c pre (rk_store w) of
             (Inl e, s) \<Rightarrow> (Inl e, w\<lparr>rk_store := s\<rparr>)
           | (Inr ks, s) \<Rightarrow> (Inr (rekey_candidates (rx_exchange cfg) ks), w\<lparr>rk_store := s\<rparr>)))"

subsection \<open>Verification\<close>

text \<open>A version id or digest counts when it is there and not empty.\<close>

definition truthy :: "string option \<Rightarrow> bool" where
  "truthy x \<longleftrightarrow> x \<noteq> None \<and> x \<noteq> Some []"

definition record_heads :: "head_response \<Rightarrow> head_response \<Rightarrow> partition_entry \<Rightarrow> partition_entry" where
  "record_heads src dst e =
     e\<lparr>pe_old_etag := h_etag src, pe_old_sha256 := h_sha256 src,
       pe_old_content_length := h_length src, pe_old_version_id := h_version src,
       pe_new_etag := h_etag dst, pe_new_sha256 := h_sha256 dst,
       pe_new_content_length := h_length dst, pe_new_version_id := h_version dst\<rparr>"

text \<open>The four checks; a difference of the ETags is only logged.\<close>

definition heads_pass :: "partition_entry \<Rightarrow> bool" where
  "heads_pass e \<longleftrightarrow>
     truthy (pe_new_version_id e) \<and>
     pe_old_sha256 e = pe_new_sha256 e \<and>
     pe_old_content_length e = pe_new_content_length e"

definition verify_4head ::
  "'s s3 \<Rightarrow> string \<Rightarrow> string \<Rightarrow> string \<Rightarrow> 's rekey \<Rightarrow> (py_error + bool) \<times> 's rekey" where
  "verify_4head c old_key new_key pid w =
     (case head_object c old_key (rk_store w) of
        (Inl e, s1) \<Rightarrow>
          (if e = ClientError ''404'' then (Inr False, w\<lparr>rk_store := s1\<rparr>) else (Inl e, w\<lparr>rk_store := s1\<rparr>))
      | (Inr src, s1) \<Rightarrow>
          (case head_object c new_key s1 of
             (Inl (ClientError code), s2) \<Rightarrow> (Inr False, w\<lparr>rk_store := s2\<rparr>)
           | (Inl e, s2) \<Rightarrow> (Inl e, w\<lparr>rk_store := s2\<rparr>)
           | (Inr dst, s2) \<Rightarrow>
               (let w1 = change_entry pid (record_heads src dst) (w\<lparr>rk_store := s2\<rparr>)
                in (Inr (heads_pass (get_entry pid w1)), w1))))"

subsection \<open>One partition\<close>

text \<open>A step yields \<open>Some\<close> status when the handler returns there and \<open>None\<close> when it goes on.\<close>

definition finish_as :: "rekey_status \<Rightarrow> (py_error + unit) \<times> 's rekey \<Rightarrow> (py_error + rekey_status option) \<times> 's rekey" where
  "finish_as st r = and_then r (\<lambda>_ w. (Inr (Some st), w))"

definition go_on :: "(py_error + unit) \<times> 's rekey \<Rightarrow> (py_error + rekey_status option) \<times> 's rekey" where
  "go_on r = and_then r (\<lambda>_ w. (Inr None, w))"

definition unless_finished ::
  "(py_error + rekey_status option) \<times> 's rekey \<Rightarrow> ('s rekey \<Rightarrow> (py_error + rekey_status option) \<times> 's rekey)
   \<Rightarrow> (py_error + rekey_status option) \<times> 's rekey" where
  "unless_finished r f = and_then r (\<lambda>o' w. case o' of Some st \<Rightarrow> (Inr (Some st), w) | None \<Rightarrow> f w)"

definition fail_partition :: "string \<Rightarrow> string \<Rightarrow> 's rekey \<Rightarrow> (py_error + rekey_status option) \<times> 's rekey" where
  "fail_partition pid msg w =
     finish_as Failed (mark pid Failed
       (\<lambda>e. e\<lparr>pe_error_message := Some msg, pe_retry_count := pe_retry_count e + 1\<rparr>) w)"

text \<open>\<^verbatim>\<open>type(exc).__name__\<close>\<close>

fun error_name :: "py_error \<Rightarrow> string" where
  "error_name (ClientError code) = ''ClientError''"
| "error_name EndpointConnectionError = ''EndpointConnectionError''"
| "error_name OSError = ''OSError''"
| "error_name ValueError = ''ValueError''"
| "error_name KeyError = ''KeyError''"
| "error_name ZeroDivisionError = ''ZeroDivisionError''"
| "error_name RuntimeError = ''RuntimeError''"
| "error_name AssertionError = ''AssertionError''"
| "error_name FileNotFoundError = ''FileNotFoundError''"
| "error_name WalBufferOverflowError = ''WalBufferOverflowError''"
| "error_name IntegrityError = ''IntegrityError''"
| "error_name ConditionalWriteConflict = ''ConditionalWriteConflict''"
| "error_name PromotionVerifyError = ''PromotionVerifyError''"
| "error_name AttributeError = ''AttributeError''"
| "error_name TypeError = ''TypeError''"
| "error_name (NASOperationalAlert code reason) = ''NASOperationalAlert''"

definition source_gone ::
  "'s s3 \<Rightarrow> (string \<Rightarrow> string) \<Rightarrow> string \<Rightarrow> string \<Rightarrow> 's rekey \<Rightarrow> (py_error + rekey_status option) \<times> 's rekey" where
  "source_gone c hash pid new_key w =
     (case head_object c new_key (rk_store w) of
        (Inr dst, s) \<Rightarrow>
          (if truthy (h_sha256 dst)
           then finish_as Done
                  (and_then (mark pid Done
                     (\<lambda>e. e\<lparr>pe_new_etag := h_etag dst, pe_new_version_id := h_version dst\<rparr>) (w\<lparr>rk_store := s\<rparr>))
                   (\<lambda>_ w1. write_sentinel hash pid w1))
           else fail_partition pid ''source_404+target_200 dst sha256 absent'' (w\<lparr>rk_store := s\<rparr>))
      | (Inl e, s) \<Rightarrow>
          (if e = ClientError ''404''
           then fail_partition pid ''both_head_404: source deleted + dst absent'' (w\<lparr>rk_store := s\<rparr>)
           else (Inl e, w\<lparr>rk_store := s\<rparr>)))"

definition after_copy ::
  "'s s3 \<Rightarrow> (string \<Rightarrow> string) \<Rightarrow> rekey_env \<Rightarrow> string \<Rightarrow> string \<Rightarrow> py_error + copy_result \<Rightarrow> 's rekey
   \<Rightarrow> (py_error + rekey_status option) \<times> 's rekey" where
  "after_copy c hash env pid new_key copied w =
     (case copied of
        Inl e \<Rightarrow> fail_partition pid (error_name e) w
      | Inr cr \<Rightarrow>
          (case cr_status cr of
             SourceNotFound \<Rightarrow> source_gone c hash pid new_key w
           | DstConflict \<Rightarrow> fail_partition pid ''dst_conflict: dst sha256 mismatch'' w
           | _ \<Rightarrow> go_on (mark pid CopiedSt
                     (\<lambda>e. e\<lparr>pe_new_etag := cr_dst_etag cr, pe_new_version_id := cr_dst_version cr,
                            pe_timestamp_copied := Some (re_now env pid ''copied'')\<rparr>) w)))"

definition step_a ::
  "'s s3 \<Rightarrow> (string \<Rightarrow> string) \<Rightarrow> rekey_env \<Rightarrow> string \<Rightarrow> string \<Rightarrow> string \<Rightarrow> 's rekey
   \<Rightarrow> (py_error + rekey_status option) \<times> 's rekey" where
  "step_a c hash env pid old_key new_key w =
     and_then (mark pid Copying id w) (\<lambda>_ w1.
       let (copied, s) = copy_object c old_key new_key (rk_store w1)
       in after_copy c hash env pid new_key copied (w1\<lparr>rk_store := s\<rparr>))"

definition step_b ::
  "'s s3 \<Rightarrow> rekey_env \<Rightarrow> string \<Rightarrow> string \<Rightarrow> string \<Rightarrow> 's rekey
   \<Rightarrow> (py_error + rekey_status option) \<times> 's rekey" where
  "step_b c env pid old_key new_key w =
     and_then (mark pid Verifying id w) (\<lambda>_ w1.
       and_then (verify_4head c old_key new_key pid w1) (\<lambda>ok w2.
         if \<not> ok then fail_partition pid ''4-HEAD verify FAIL'' w2
         else if pe_old_sha256 (get_entry pid w2) = None \<and> pe_new_sha256 (get_entry pid w2) = None
         then finish_as LegacyNoSha256 (mark pid LegacyNoSha256 id w2)
         else go_on (mark pid Verified
                (\<lambda>e. e\<lparr>pe_timestamp_verified := Some (re_now env pid ''verified'')\<rparr>) w2)))"

definition step_c ::
  "'s s3 \<Rightarrow> (string \<Rightarrow> string) \<Rightarrow> rekey_cfg \<Rightarrow> rekey_env \<Rightarrow> string \<Rightarrow> string \<Rightarrow> 's rekey
   \<Rightarrow> (py_error + rekey_status option) \<times> 's rekey" where
  "step_c c hash cfg env pid old_key w =
     and_then (mark pid Deleting (\<lambda>e. e\<lparr>pe_pre_delete_version_id := pe_old_version_id e\<rparr>) w) (\<lambda>_ w1.
       let w2 = w1\<lparr>rk_partial := rk_partial w1 + 1\<rparr>;
           (r, s) = (if rx_dry_run cfg then (Inr (), rk_store w2) else delete_object c old_key (rk_store w2));
           w3 = w2\<lparr>rk_store := s\<rparr>
       in case r of
            Inl e \<Rightarrow> fail_partition pid (''delete failed: '' @ error_name e) w3
          | Inr _ \<Rightarrow>
              and_then (write_sentinel hash pid w3) (\<lambda>_ w4.
                and_then (mark pid Done
                   (\<lambda>e. e\<lparr>pe_timestamp_deleted := Some (re_now env pid ''deleted'')\<rparr>) w4) (\<lambda>_ w5.
                  (Inr (Some Done), w5\<lparr>rk_partial := rk_partial w5 - 1\<rparr>))))"

definition process_partition ::
  "'s s3 \<Rightarrow> (string \<Rightarrow> string) \<Rightarrow> rekey_cfg \<Rightarrow> rekey_env \<Rightarrow> string \<Rightarrow> 's rekey
   \<Rightarrow> (py_error + rekey_status option) \<times> 's rekey" where
  "process_partition c hash cfg env pid w =
     (let entry = get_entry pid w; old_key = pe_old_key entry; new_key = pe_new_key entry;
          skip_step_a = pe_status entry \<in> {CopiedSt, Verifying, Verified, Deleting};
          skip_step_b = pe_status entry \<in> {Verified, Deleting}
      in unless_finished
           (if skip_step_a then (Inr None, w) else step_a c hash env pid old_key new_key w) (\<lambda>w1.
         unless_finished
           (if skip_step_b then (Inr None, w1) else step_b c env pid old_key new_key w1) (\<lambda>w2.
         step_c c hash cfg env pid old_key w2)))"

subsection \<open>A run\<close>

record rekey_result =
  rr_partitions_total :: nat
  rr_copied :: nat
  rr_verified :: nat
  rr_deleted :: nat
  rr_skipped_already_migrated :: nat
  rr_failed :: nat
  rr_legacy_no_sha256 :: nat

datatype rekey_exit = SystemExit int | Raised py_error

definition populate_one ::
  "(string \<Rightarrow> string) \<Rightarrow> string \<Rightarrow> 's rekey \<times> nat \<Rightarrow> 's rekey \<times> nat" where
  "populate_one hash old_key = (\<lambda>(w, skipped).
     let pid = build_partition_id old_key in
     if sentinel_exists hash pid w then (update_status pid Done id w, skipped + 1)
     else (upsert_pending pid old_key (build_new_key old_key) w, skipped))"

definition populate :: "(string \<Rightarrow> string) \<Rightarrow> string list \<Rightarrow> 's rekey \<Rightarrow> 's rekey \<times> nat" where
  "populate hash keys w =
     (let (w1, skipped) = fold (populate_one hash) keys (w, 0);
          ids = map build_partition_id keys
      in (w1, skipped + length (filter (\<lambda>e. pe_partition_id e \<notin> set ids) (iter_done w1))))"

definition stopped :: "rekey_cfg \<Rightarrow> rekey_env \<Rightarrow> nat \<Rightarrow> bool" where
  "stopped cfg env processed \<longleftrightarrow>
     (case re_stop_at env of None \<Rightarrow> False | Some n \<Rightarrow> n \<le> processed) \<or>
     rx_batch_size cfg \<le> int processed \<or>
     (case rx_max_partitions cfg of None \<Rightarrow> False | Some m \<Rightarrow> m \<le> int processed)"

definition too_many_failures :: "rekey_cfg \<Rightarrow> nat \<Rightarrow> nat \<Rightarrow> bool" where
  "too_many_failures cfg failed_in_batch total_done \<longleftrightarrow>
     (if rx_threshold cfg = 0 \<and> 0 < failed_in_batch then True
      else 0 < total_done \<and> rx_threshold cfg < of_nat failed_in_batch / of_nat total_done)"

definition resumable_at :: "string \<Rightarrow> 's rekey \<Rightarrow> bool" where
  "resumable_at pid w = (case map_of (rk_entries w) pid of None \<Rightarrow> False | Some e \<Rightarrow> resumable (pe_status e))"

fun rekey_loop ::
  "'s s3 \<Rightarrow> (string \<Rightarrow> string) \<Rightarrow> rekey_cfg \<Rightarrow> rekey_env \<Rightarrow> string list \<Rightarrow> nat \<Rightarrow> nat \<Rightarrow> rekey_result \<Rightarrow> 's rekey
   \<Rightarrow> (py_error + rekey_result) \<times> 's rekey" where
  "rekey_loop c hash cfg env [] n failed res w = (Inr res, w)"
| "rekey_loop c hash cfg env (pid # pids) n failed res w =
     (if \<not> resumable_at pid w then rekey_loop c hash cfg env pids n failed res w
      else if stopped cfg env n then (Inr res, w)
      else case process_partition c hash cfg env pid w of
             (Inl e, w1) \<Rightarrow> (Inl e, w1)
           | (Inr st, w1) \<Rightarrow>
               (if st = Some Done
                then rekey_loop c hash cfg env pids (n + 1) failed
                       (res\<lparr>rr_deleted := rr_deleted res + (if rx_dry_run cfg then 0 else 1),
                            rr_copied := rr_copied res + 1, rr_verified := rr_verified res + 1\<rparr>) w1
                else if st = Some LegacyNoSha256
                then rekey_loop c hash cfg env pids (n + 1) failed
                       (res\<lparr>rr_legacy_no_sha256 := rr_legacy_no_sha256 res + 1\<rparr>) w1
                else if st = Some Failed
                then (let res1 = res\<lparr>rr_failed := rr_failed res + 1\<rparr> in
                      if too_many_failures cfg (failed + 1) (n + 1) then (Inr res1, w1)
                      else rekey_loop c hash cfg env pids (n + 1) (failed + 1) res1 w1)
                else rekey_loop c hash cfg env pids (n + 1) failed res w1))"

definition empty_result :: rekey_result where
  "empty_result =
     \<lparr>rr_partitions_total = 0, rr_copied = 0, rr_verified = 0, rr_deleted = 0,
      rr_skipped_already_migrated = 0, rr_failed = 0, rr_legacy_no_sha256 = 0\<rparr>"

definition raised :: "(py_error + 'a) \<times> 's rekey \<Rightarrow> (rekey_exit + 'a) \<times> 's rekey" where
  "raised r = (case r of (Inl e, w) \<Rightarrow> (Inl (Raised e), w) | (Inr x, w) \<Rightarrow> (Inr x, w))"

definition migrate ::
  "'s s3 \<Rightarrow> (string \<Rightarrow> string) \<Rightarrow> rekey_cfg \<Rightarrow> rekey_env \<Rightarrow> string list \<Rightarrow> 's rekey
   \<Rightarrow> (py_error + rekey_result) \<times> 's rekey" where
  "migrate c hash cfg env keys w =
     (let (w1, skipped) = populate hash keys ((load_manifest w)\<lparr>rk_total := length keys\<rparr>) in
      and_then (write_atomic w1) (\<lambda>_ w2.
        rekey_loop c hash cfg env (map fst (rk_entries w2)) 0 0
          (empty_result\<lparr>rr_partitions_total := length keys, rr_skipped_already_migrated := skipped\<rparr>) w2))"

definition rekey_run ::
  "'s s3 \<Rightarrow> (string \<Rightarrow> string) \<Rightarrow> rekey_cfg \<Rightarrow> rekey_env \<Rightarrow> 's rekey \<Rightarrow> (rekey_exit + rekey_result) \<times> 's rekey" where
  "rekey_run c hash cfg env w =
     (if \<not> rx_dry_run cfg \<and> \<not> rx_i_understand cfg then (Inl (SystemExit 3), w)
      else if re_locked env then (Inl (SystemExit 2), w)
      else case re_versioning env of
        Inl e \<Rightarrow> (Inl (Raised e), w)
      | Inr versioning \<Rightarrow>
          (if versioning \<noteq> ''Enabled'' then (Inl (SystemExit 2), w)
           else if re_free_gb env < 1 then (Inl (SystemExit 1), w)
           else and_then (raised (discover_l1_objects c cfg w)) (\<lambda>keys w1.
             if \<not> rx_dry_run cfg \<and> keys = [] then
               (let done = length (iter_done (load_manifest w1)) in
                if rk_file w1 \<noteq> NoFile \<and> 0 < done
                then (Inr (empty_result\<lparr>rr_skipped_already_migrated := done\<rparr>), w1)
                else (Inl (SystemExit 4), w1))
             else raised (migrate c hash cfg env keys w1))))"

section \<open>What a run may do to the bucket\<close>

definition legacy_key :: "string \<Rightarrow> bool" where
  "legacy_key k \<longleftrightarrow> starts_with k ''l1/market/''"

text \<open>Same digest, which is there, and same length: what the verification establishes.\<close>

definition same_object :: "s3_object \<Rightarrow> s3_object \<Rightarrow> bool" where
  "same_object ob ob' \<longleftrightarrow>
     ob_sha256 ob' = ob_sha256 ob \<and> ob_sha256 ob \<noteq> None \<and> length (ob_body ob') = length (ob_body ob)"

definition verified_pair :: "bucket \<Rightarrow> string \<Rightarrow> bool" where
  "verified_pair b k \<longleftrightarrow>
     b k = None \<or>
     (\<exists>ob ob'. b k = Some ob \<and> b (legacy_key_to_canonical k) = Some ob' \<and> same_object ob ob')"

text \<open>The effects a run has on the bucket: a copy to the flat key, and a deletion after verification.\<close>

inductive rekey_effect :: "bool \<Rightarrow> string set \<Rightarrow> bucket \<Rightarrow> bucket \<Rightarrow> bool" for dry K where
  copies: "k \<in> K \<Longrightarrow> legacy_key k \<Longrightarrow> b k = Some ob \<Longrightarrow> writes b (legacy_key_to_canonical k) (ob_body ob) (ob_sha256 ob) b' \<Longrightarrow>
    rekey_effect dry K b b'"
| deletes: "k \<in> K \<Longrightarrow> legacy_key k \<Longrightarrow> verified_pair b k \<Longrightarrow> \<not> dry \<Longrightarrow> rekey_effect dry K b (b(k := None))"

definition kept_or_moved :: "bool \<Rightarrow> bucket \<Rightarrow> string \<Rightarrow> s3_object \<Rightarrow> bool" where
  "kept_or_moved dry b' k ob \<longleftrightarrow>
     b' k = Some ob \<or>
     \<not> dry \<and> b' k = None \<and> (\<exists>ob'. b' (legacy_key_to_canonical k) = Some ob' \<and> same_object ob ob')"

lemma legacy_key_shape:
  assumes "legacy_key k"
  shows "\<exists>t. k = ''l1/market/'' @ t \<and> legacy_key_to_canonical k = ''market/'' @ t"
proof -
  from assms obtain t where t: "k = ''l1/market/'' @ t" unfolding legacy_key_def starts_with_iff by blast
  then have "k = ''l1/'' @ (''market/'' @ t)" by simp
  then have "legacy_key_to_canonical k = ''market/'' @ t"
    unfolding legacy_key_to_canonical_def by (metis removeprefix_append)
  with t show ?thesis by blast
qed

lemma canonical_not_legacy:
  assumes "legacy_key k" "legacy_key j"
  shows "legacy_key_to_canonical k \<noteq> j"
proof -
  from assms [THEN legacy_key_shape] obtain t u where "legacy_key_to_canonical k = ''market/'' @ t" "j = ''l1/market/'' @ u" by blast
  then show ?thesis by simp
qed

lemma canonical_inj:
  assumes "legacy_key k" "legacy_key j"
  shows "legacy_key_to_canonical k = legacy_key_to_canonical j \<longleftrightarrow> k = j"
proof -
  from assms(1) [THEN legacy_key_shape] obtain t where t: "k = ''l1/market/'' @ t" "legacy_key_to_canonical k = ''market/'' @ t" by blast
  from assms(2) [THEN legacy_key_shape] obtain u where u: "j = ''l1/market/'' @ u" "legacy_key_to_canonical j = ''market/'' @ u" by blast
  show ?thesis unfolding t(2) u(2) unfolding t(1) u(1) by simp
qed

lemma same_object_copy: "same_object ob ob' \<Longrightarrow> ob_body ob'' = ob_body ob \<Longrightarrow> ob_sha256 ob'' = ob_sha256 ob \<Longrightarrow> same_object ob ob''"
  by (simp add: same_object_def)

lemma effect_keeps_pair:
  assumes "rekey_effect dry K b b'" "legacy_key k" "verified_pair b k"
  shows "verified_pair b' k"
  using assms(1)
proof cases
  case (copies j ob)
  then obtain ob' where ob': "ob_body ob' = ob_body ob" "ob_sha256 ob' = ob_sha256 ob"
    "b' = b(legacy_key_to_canonical j \<mapsto> ob')" unfolding writes_def by blast
  have self: "b' k = b k" using ob'(3) canonical_not_legacy [OF copies(2) assms(2)] by simp
  show ?thesis
  proof (cases "j = k")
    case True
    then have "same_object ob ob'" using assms(3) copies(3) ob'(1,2) by (auto simp: verified_pair_def same_object_def)
    then show ?thesis using self True copies(3) ob'(3) by (simp add: verified_pair_def)
  next
    case False
    then have "b' (legacy_key_to_canonical k) = b (legacy_key_to_canonical k)"
      using ob'(3) canonical_inj [OF copies(2) assms(2)] by simp
    then show ?thesis using self assms(3) by (simp add: verified_pair_def)
  qed
next
  case (deletes j)
  then show ?thesis using assms(3) canonical_not_legacy [OF assms(2) deletes(3)] by (simp add: verified_pair_def)
qed

lemma effect_kept_or_moved:
  assumes "rekey_effect dry K b b'" "legacy_key k" "kept_or_moved dry b k ob"
  shows "kept_or_moved dry b' k ob"
  using assms(1)
proof cases
  case (copies j ob2)
  then obtain ob' where ob': "b' = b(legacy_key_to_canonical j \<mapsto> ob')" unfolding writes_def by blast
  have self: "b' k = b k" using ob' canonical_not_legacy [OF copies(2) assms(2)] by simp
  show ?thesis
  proof (cases "j = k")
    case True
    then show ?thesis using self assms(3) copies(3) by (simp add: kept_or_moved_def)
  next
    case False
    then have "b' (legacy_key_to_canonical k) = b (legacy_key_to_canonical k)"
      using ob' canonical_inj [OF copies(2) assms(2)] by simp
    then show ?thesis using self assms(3) by (simp add: kept_or_moved_def)
  qed
next
  case (deletes j)
  have other: "legacy_key_to_canonical k \<noteq> j" by (rule canonical_not_legacy [OF assms(2) deletes(3)])
  show ?thesis
  proof (cases "j = k")
    case True
    have "\<exists>ob'. b (legacy_key_to_canonical k) = Some ob' \<and> same_object ob ob'"
      using assms(3) deletes(4) True by (cases "b k") (simp_all add: kept_or_moved_def verified_pair_def)
    then show ?thesis using True other deletes(1,5) by (simp add: kept_or_moved_def)
  next
    case False
    with deletes(1) other assms(3) show ?thesis by (simp add: kept_or_moved_def)
  qed
qed

abbreviation rekey_effects :: "bool \<Rightarrow> string set \<Rightarrow> bucket \<Rightarrow> bucket \<Rightarrow> bool" where
  "rekey_effects dry K \<equiv> (rekey_effect dry K)\<^sup>*\<^sup>*"

lemma effects_kept_or_moved:
  assumes "rekey_effects dry K b b'" "legacy_key k" "b k = Some ob"
  shows "kept_or_moved dry b' k ob"
  using assms(1)
proof (induction rule: rtranclp_induct)
  case base
  then show ?case using assms(3) by (simp add: kept_or_moved_def)
next
  case (step b' b'')
  show ?case by (rule effect_kept_or_moved [OF step(2) assms(2) step(3)])
qed

lemma effects_keep_pair:
  assumes "rekey_effects dry K b b'" "legacy_key k" "verified_pair b k"
  shows "verified_pair b' k"
  using assms(1)
proof (induction rule: rtranclp_induct)
  case (step b' b'')
  show ?case by (rule effect_keeps_pair [OF step(2) assms(2) step(3)])
qed (rule assms(3))

lemma effect_digests:
  assumes "rekey_effect dry K b b'" "digests_true hash b"
  shows "digests_true hash b'"
  using assms(1)
proof cases
  case (copies k ob)
  then obtain ob' where ob': "ob_body ob' = ob_body ob" "ob_sha256 ob' = ob_sha256 ob"
    "b' = b(legacy_key_to_canonical k \<mapsto> ob')" unfolding writes_def by blast
  have "h = hash (ob_body ob')" if "ob_sha256 ob' = Some h" for h
    using that assms(2) copies(3) ob' by (simp add: digests_true_def)
  then show ?thesis using assms(2) ob'(3) by (simp add: digests_true_def)
next
  case (deletes k)
  then show ?thesis using assms(2) by (simp add: digests_true_def)
qed

lemma effects_digests:
  assumes "rekey_effects dry K b b'" "digests_true hash b"
  shows "digests_true hash b'"
  using assms(1)
proof (induction rule: rtranclp_induct)
  case (step b' b'')
  show ?case by (rule effect_digests [OF step(2,3)])
qed (rule assms(2))

section \<open>The manifest invariant\<close>

text \<open>
  An entry that is past verification vouches for its object: deleting it is safe as long as the
  invariant holds, for the entries in memory and for those a restarted process would read.
\<close>

definition entry_ok :: "bucket \<Rightarrow> string \<Rightarrow> partition_entry \<Rightarrow> bool" where
  "entry_ok b pid e \<longleftrightarrow>
     pe_partition_id e = pid \<and> pid = build_partition_id (pe_old_key e) \<and> legacy_key (pe_old_key e) \<and>
     pe_new_key e = legacy_key_to_canonical (pe_old_key e) \<and>
     (pe_status e \<in> {Verified, Deleting} \<longrightarrow> verified_pair b (pe_old_key e))"

definition entries_ok :: "bucket \<Rightarrow> partitions \<Rightarrow> bool" where
  "entries_ok b m \<longleftrightarrow> (\<forall>pid e. map_of m pid = Some e \<longrightarrow> entry_ok b pid e)"

definition rekey_ok :: "('s \<Rightarrow> bucket) \<Rightarrow> 's rekey \<Rightarrow> bool" where
  "rekey_ok v w \<longleftrightarrow>
     entries_ok (v (rk_store w)) (rk_entries w) \<and>
     (\<forall>m t. rk_file w = Saved m t \<longrightarrow> entries_ok (v (rk_store w)) m)"

definition keeps_identity :: "(partition_entry \<Rightarrow> partition_entry) \<Rightarrow> bool" where
  "keeps_identity f \<longleftrightarrow>
     (\<forall>e. pe_partition_id (f e) = pe_partition_id e \<and> pe_old_key (f e) = pe_old_key e \<and>
          pe_new_key (f e) = pe_new_key e \<and> pe_status (f e) = pe_status e)"

definition reach :: "('s \<Rightarrow> bucket) \<Rightarrow> bool \<Rightarrow> 's rekey \<Rightarrow> string \<Rightarrow> string \<Rightarrow> 's rekey \<Rightarrow> bool" where
  "reach v dry w0 pid k w \<longleftrightarrow>
     rekey_effects dry {k} (v (rk_store w0)) (v (rk_store w)) \<and> rekey_ok v w \<and> legacy_key k \<and>
     (\<forall>j. j \<noteq> pid \<longrightarrow> map_of (rk_entries w) j = map_of (rk_entries w0) j) \<and>
     (\<exists>e. map_of (rk_entries w) pid = Some e \<and> pe_old_key e = k)"

lemma entries_ok_effects:
  assumes "rekey_effects dry K b b'" "entries_ok b m"
  shows "entries_ok b' m"
  using assms(2) effects_keep_pair [OF assms(1)] by (auto simp: entries_ok_def entry_ok_def)

lemma rekey_ok_effects:
  assumes "rekey_ok v w" "rekey_effects dry K (v (rk_store w)) (v s)"
  shows "rekey_ok v (w\<lparr>rk_store := s\<rparr>)"
  using assms(1) entries_ok_effects [OF assms(2)] by (auto simp: rekey_ok_def)

lemma reach_store:
  assumes "reach v dry w0 pid k w" "rekey_effects dry {k} (v (rk_store w)) (v s)"
  shows "reach v dry w0 pid k (w\<lparr>rk_store := s\<rparr>)"
proof -
  have "rekey_effects dry {k} (v (rk_store w0)) (v s)"
    using assms by (auto simp: reach_def intro: rtranclp_trans)
  then show ?thesis using assms(1) rekey_ok_effects [OF _ assms(2)] by (simp add: reach_def)
qed

lemma reach_view: "reach v dry w0 pid k w \<Longrightarrow> v s = v (rk_store w) \<Longrightarrow> reach v dry w0 pid k (w\<lparr>rk_store := s\<rparr>)"
  by (rule reach_store) simp_all

lemma reach_partial [simp]: "reach v dry w0 pid k (w\<lparr>rk_partial := n\<rparr>) = reach v dry w0 pid k w"
  by (simp add: reach_def rekey_ok_def)

lemma next_io_fields:
  assumes "next_io w = (b, w')"
  shows "rk_store w' = rk_store w" "rk_entries w' = rk_entries w" "rk_file w' = rk_file w"
    "rk_sentinels w' = rk_sentinels w" "rk_total w' = rk_total w"
  using assms by (auto simp: next_io_def split: list.splits)

lemma write_atomic_fields:
  assumes "write_atomic w = (r, w')"
  shows "rk_store w' = rk_store w" "rk_entries w' = rk_entries w" "rk_sentinels w' = rk_sentinels w"
    "r = Inr () \<Longrightarrow> rk_file w' = Saved (rk_entries w) (rk_total w)"
    "rk_file w' = rk_file w \<or> rk_file w' = Saved (rk_entries w) (rk_total w)"
  using assms next_io_fields [of w] by (auto simp: write_atomic_def split: prod.splits bool.splits)

lemma write_atomic_ok: "rekey_ok v w \<Longrightarrow> rekey_ok v (snd (write_atomic w))"
  using write_atomic_fields [of w "fst (write_atomic w)" "snd (write_atomic w)"] by (auto simp: rekey_ok_def)

lemma write_atomic_reach: "reach v dry w0 pid k w \<Longrightarrow> reach v dry w0 pid k (snd (write_atomic w))"
  using write_atomic_fields [of w "fst (write_atomic w)" "snd (write_atomic w)"] write_atomic_ok [of v w]
  by (simp add: reach_def)

lemma change_entry_store [simp]: "rk_store (change_entry pid f w) = rk_store w"
  by (simp add: change_entry_def split: option.splits)

lemma change_entry_lookup:
  "map_of (rk_entries (change_entry pid f w)) j =
     (if j = pid then map_option f (map_of (rk_entries w) pid) else map_of (rk_entries w) j)"
  by (simp add: change_entry_def map_of_update_Some split: option.splits)

lemma change_entry_file [simp]: "rk_file (change_entry pid f w) = rk_file w"
  by (simp add: change_entry_def split: option.splits)

lemma change_entry_reach:
  assumes "reach v dry w0 pid k w"
    "\<And>e. entry_ok (v (rk_store w)) pid e \<Longrightarrow> pe_old_key e = k \<Longrightarrow> entry_ok (v (rk_store w)) pid (f e) \<and> pe_old_key (f e) = k"
  shows "reach v dry w0 pid k (change_entry pid f w)"
proof -
  from assms(1) obtain e where e: "map_of (rk_entries w) pid = Some e" "pe_old_key e = k" by (auto simp: reach_def)
  then have "entry_ok (v (rk_store w)) pid e" using assms(1) by (auto simp: reach_def rekey_ok_def entries_ok_def)
  from assms(2) [OF this e(2)] show ?thesis
    using assms(1) e by (auto simp: reach_def rekey_ok_def entries_ok_def change_entry_lookup)
qed

lemma mark_store [simp]: "rk_store (snd (mark pid st f w)) = rk_store w"
  using write_atomic_fields(1) [of "update_status pid st f w" _ "snd (mark pid st f w)"]
  by (metis change_entry_store mark_def prod.collapse update_status_def)

lemma mark_reach:
  assumes "reach v dry w0 pid k w" "keeps_identity f"
    "st \<in> {Verified, Deleting} \<Longrightarrow> verified_pair (v (rk_store w)) k"
  shows "reach v dry w0 pid k (snd (mark pid st f w))"
  unfolding mark_def update_status_def
proof (rule write_atomic_reach, rule change_entry_reach [OF assms(1)])
  fix e assume "entry_ok (v (rk_store w)) pid e" "pe_old_key e = k"
  then show "entry_ok (v (rk_store w)) pid (f (e\<lparr>pe_status := st\<rparr>)) \<and> pe_old_key (f (e\<lparr>pe_status := st\<rparr>)) = k"
    using assms(2,3) by (auto simp: entry_ok_def keeps_identity_def)
qed

lemma write_sentinel_fields:
  assumes "write_sentinel hash pid w = (r, w')"
  shows "rk_store w' = rk_store w" "rk_entries w' = rk_entries w" "rk_file w' = rk_file w"
    "r = Inr () \<Longrightarrow> sentinel_exists hash pid w'" "set (rk_sentinels w) \<subseteq> set (rk_sentinels w')"
proof -
  obtain b w1 where n: "next_io w = (b, w1)" by fastforce
  note f = next_io_fields [OF n]
  have "w' = w \<and> sentinel_exists hash pid w \<or> w' = w1 \<and> r = Inl OSError \<or>
      w' = w1\<lparr>rk_sentinels := sentinel_name hash pid # rk_sentinels w1\<rparr>"
    using assms n by (cases "sentinel_exists hash pid w"; cases b) (simp_all add: write_sentinel_def)
  then show "rk_store w' = rk_store w" "rk_entries w' = rk_entries w" "rk_file w' = rk_file w"
    "r = Inr () \<Longrightarrow> sentinel_exists hash pid w'" "set (rk_sentinels w) \<subseteq> set (rk_sentinels w')"
    using f by (auto simp: sentinel_exists_def)
qed

lemma write_sentinel_reach:
  assumes "reach v dry w0 pid k w"
  shows "reach v dry w0 pid k (snd (write_sentinel hash j w))"
proof -
  obtain r w' where ws: "write_sentinel hash j w = (r, w')" by fastforce
  show ?thesis using assms write_sentinel_fields(1-3) [OF ws] ws by (simp add: reach_def rekey_ok_def)
qed

lemma finish_as_state [simp]: "snd (finish_as st r) = snd r"
  by (cases r; cases "fst r") (auto simp: finish_as_def)

lemma go_on_state [simp]: "snd (go_on r) = snd r"
  by (cases r; cases "fst r") (auto simp: go_on_def)

lemma finish_as_result: "fst (finish_as st r) \<noteq> Inr None"
  by (cases r; cases "fst r") (auto simp: finish_as_def)

lemma fail_partition_result: "fst (fail_partition pid msg w) \<noteq> Inr None"
  unfolding fail_partition_def by (rule finish_as_result)

lemma fail_partition_reach: "reach v dry w0 pid k w \<Longrightarrow> reach v dry w0 pid k (snd (fail_partition pid msg w))"
  unfolding fail_partition_def finish_as_state by (rule mark_reach) (simp_all add: keeps_identity_def)

section \<open>One partition keeps the invariant\<close>

lemma source_gone_reach:
  assumes "s3_laws c v" "reach v dry w0 pid k w"
  shows "reach v dry w0 pid k (snd (source_gone c hash pid new w))"
proof -
  obtain r s where h: "head_object c new (rk_store w) = (r, s)" by fastforce
  then have "v s = v (rk_store w)" using head_view [OF assms(1)] by (simp add: head_object_def)
  with assms(2) have w: "reach v dry w0 pid k (w\<lparr>rk_store := s\<rparr>)" by (rule reach_view)
  have "reach v dry w0 pid k (snd (and_then (mark pid Done f (w\<lparr>rk_store := s\<rparr>)) (\<lambda>_ w1. write_sentinel hash pid w1)))"
    if "keeps_identity f" for f
    by (rule and_then_keeps [where P = "reach v dry w0 pid k"])
      (use mark_reach [OF w that, of Done] write_sentinel_reach in simp_all)
  then show ?thesis using fail_partition_reach [OF w] w h
    by (cases r) (simp_all add: source_gone_def keeps_identity_def)
qed

lemma copy_effects:
  assumes "s3_laws c v" "copy_object c k (legacy_key_to_canonical k) s = (r, s')" "legacy_key k"
  shows "rekey_effects dry {k} (v s) (v s')"
proof -
  have "v s' = v s \<or> (\<exists>ob. v s k = Some ob \<and> writes (v s) (legacy_key_to_canonical k) (ob_body ob) (ob_sha256 ob) (v s'))"
    by (rule copy_object_writes [OF assms(1,2)])
  then show ?thesis using rekey_effect.copies [OF singletonI assms(3)] by (auto intro: r_into_rtranclp)
qed

lemma after_copy_reach:
  assumes "s3_laws c v" "reach v dry w0 pid k w"
  shows "reach v dry w0 pid k (snd (after_copy c hash env pid new r w))"
proof (cases r)
  case (Inl e)
  then show ?thesis using fail_partition_reach [OF assms(2)] by (simp add: after_copy_def)
next
  case (Inr cr)
  have ok: "reach v dry w0 pid k (snd (mark pid CopiedSt f w))" if "keeps_identity f" for f
    by (rule mark_reach [OF assms(2) that]) simp
  show ?thesis
    using Inr source_gone_reach [OF assms] fail_partition_reach [OF assms(2)] ok
    by (cases "cr_status cr") (simp_all add: after_copy_def keeps_identity_def)
qed

lemma step_a_reach:
  assumes "s3_laws c v" "reach v dry w0 pid k w"
  shows "reach v dry w0 pid k (snd (step_a c hash env pid k (legacy_key_to_canonical k) w))"
  unfolding step_a_def
proof (rule and_then_keeps [where P = "reach v dry w0 pid k"])
  show m: "reach v dry w0 pid k (snd (mark pid Copying id w))"
    by (rule mark_reach [OF assms(2)]) (simp_all add: keeps_identity_def)
  let ?w = "snd (mark pid Copying id w)"
  obtain r s where cp: "copy_object c k (legacy_key_to_canonical k) (rk_store ?w) = (r, s)" by fastforce
  have "legacy_key k" using assms(2) by (simp add: reach_def)
  from reach_store [OF m copy_effects [OF assms(1) cp this]]
  have "reach v dry w0 pid k (?w\<lparr>rk_store := s\<rparr>)" .
  from after_copy_reach [OF assms(1) this]
  show "reach v dry w0 pid k (snd (let (copied, s) = copy_object c k (legacy_key_to_canonical k) (rk_store ?w)
      in after_copy c hash env pid (legacy_key_to_canonical k) copied (?w\<lparr>rk_store := s\<rparr>)))"
    unfolding cp Let_def prod.case .
qed

lemma reach_entry:
  assumes "reach v dry w0 pid k w"
  shows "map_of (rk_entries w) pid = Some (get_entry pid w)" "pe_old_key (get_entry pid w) = k"
    "pe_new_key (get_entry pid w) = legacy_key_to_canonical k" "entry_ok (v (rk_store w)) pid (get_entry pid w)"
proof -
  from assms obtain e where e: "map_of (rk_entries w) pid = Some e" "pe_old_key e = k" by (auto simp: reach_def)
  then have g: "get_entry pid w = e" by (simp add: get_entry_def)
  have "entry_ok (v (rk_store w)) pid e" using e assms by (simp add: reach_def rekey_ok_def entries_ok_def)
  then show "map_of (rk_entries w) pid = Some (get_entry pid w)" "pe_old_key (get_entry pid w) = k"
    "pe_new_key (get_entry pid w) = legacy_key_to_canonical k" "entry_ok (v (rk_store w)) pid (get_entry pid w)"
    using e g by (simp_all add: entry_ok_def)
qed

lemma record_heads_entry:
  "map_of (rk_entries w) pid = Some e \<Longrightarrow> get_entry pid (change_entry pid (record_heads a b) (w\<lparr>rk_store := s\<rparr>)) = record_heads a b e"
  by (simp add: get_entry_def change_entry_lookup)

lemma heads_pair:
  assumes "heads_pass (record_heads (head_of ob) (head_of ob') e)" "b k = Some ob" "b (legacy_key_to_canonical k) = Some ob'"
    "\<not> (ob_sha256 ob = None \<and> ob_sha256 ob' = None)"
  shows "verified_pair b k"
  using assms by (auto simp: heads_pass_def record_heads_def head_of_def verified_pair_def same_object_def)

lemma verify_4head_reach:
  assumes "s3_laws c v" "reach v dry w0 pid k w" "verify_4head c k (legacy_key_to_canonical k) pid w = (r, w')"
  shows "reach v dry w0 pid k w'"
    "r = Inr True \<Longrightarrow> \<not> (pe_old_sha256 (get_entry pid w') = None \<and> pe_new_sha256 (get_entry pid w') = None) \<Longrightarrow>
       verified_pair (v (rk_store w')) k"
proof -
  obtain r1 s1 where h1: "s3_head c k (rk_store w) = (r1, s1)" by fastforce
  obtain r2 s2 where h2: "s3_head c (legacy_key_to_canonical k) s1 = (r2, s2)" by fastforce
  have v1: "v s1 = v (rk_store w)" by (rule head_view [OF assms(1) h1])
  have v2: "v s2 = v (rk_store w)" using head_view [OF assms(1) h2] v1 by simp
  have w1: "reach v dry w0 pid k (w\<lparr>rk_store := s1\<rparr>)" by (rule reach_view [OF assms(2) v1])
  have w2: "reach v dry w0 pid k (w\<lparr>rk_store := s2\<rparr>)" by (rule reach_view [OF assms(2) v2])
  have w3: "reach v dry w0 pid k (change_entry pid (record_heads a b) (w\<lparr>rk_store := s2\<rparr>))" for a b
    by (rule change_entry_reach [OF w2]) (simp add: entry_ok_def record_heads_def)
  show "reach v dry w0 pid k w'"
  proof (cases r1)
    case (Inl e)
    then show ?thesis using assms(3) h1 w1 by (auto simp: verify_4head_def head_object_def split: if_splits)
  next
    case r1: (Inr src)
    show ?thesis
    proof (cases r2)
      case (Inl e)
      then show ?thesis using assms(3) h1 h2 r1 w2 by (cases e) (auto simp: verify_4head_def head_object_def)
    next
      case (Inr dst)
      then show ?thesis using assms(3) h1 h2 r1 w3 by (auto simp: verify_4head_def head_object_def Let_def)
    qed
  qed
  assume pass: "r = Inr True" and some: "\<not> (pe_old_sha256 (get_entry pid w') = None \<and> pe_new_sha256 (get_entry pid w') = None)"
  obtain src where src: "r1 = Inr src"
    using assms(3) h1 pass by (cases r1) (auto simp: verify_4head_def head_object_def split: if_splits)
  obtain dst where dst: "r2 = Inr dst"
  proof (cases r2)
    case (Inl e)
    then show ?thesis using assms(3) h1 h2 pass src by (cases e) (auto simp: verify_4head_def head_object_def)
  qed
  obtain ob where ob: "v (rk_store w) k = Some ob" "src = head_of ob" using head_found [OF assms(1)] h1 src by blast
  obtain ob' where ob': "v (rk_store w) (legacy_key_to_canonical k) = Some ob'" "dst = head_of ob'"
    using head_found [OF assms(1)] h2 dst v1 by metis
  have w': "w' = change_entry pid (record_heads src dst) (w\<lparr>rk_store := s2\<rparr>)" "heads_pass (get_entry pid w')"
    using assms(3) h1 h2 src dst pass by (auto simp: verify_4head_def head_object_def Let_def)
  have e: "get_entry pid w' = record_heads src dst (get_entry pid w)"
    unfolding w'(1) by (rule record_heads_entry [OF reach_entry(1) [OF assms(2)]])
  have "\<not> (ob_sha256 ob = None \<and> ob_sha256 ob' = None)"
    using some unfolding e ob(2) ob'(2) by (simp add: record_heads_def head_of_def)
  from heads_pair [OF w'(2) [unfolded e ob(2) ob'(2)] ob(1) ob'(1) this]
  show "verified_pair (v (rk_store w')) k" using w'(1) v2 by simp
qed

lemma step_b_reach:
  assumes "s3_laws c v" "reach v dry w0 pid k w" "step_b c env pid k (legacy_key_to_canonical k) w = (r, w')"
  shows "reach v dry w0 pid k w'" "r = Inr None \<Longrightarrow> verified_pair (v (rk_store w')) k"
proof -
  obtain r1 w1 where m: "mark pid Verifying id w = (r1, w1)" by fastforce
  have w1: "reach v dry w0 pid k w1"
    using mark_reach [OF assms(2), of id Verifying] m by (simp add: keeps_identity_def)
  obtain r2 w2 where ver: "verify_4head c k (legacy_key_to_canonical k) pid w1 = (r2, w2)" by fastforce
  note w2 = verify_4head_reach [OF assms(1) w1 ver]
  have legacy: "reach v dry w0 pid k (snd (mark pid LegacyNoSha256 id w2))"
    by (rule mark_reach [OF w2(1)]) (simp_all add: keeps_identity_def)
  have "reach v dry w0 pid k w' \<and> (r = Inr None \<longrightarrow> verified_pair (v (rk_store w')) k)"
  proof (cases r1)
    case (Inl e)
    then show ?thesis using assms(3) m w1 by (auto simp: step_b_def)
  next
    case r1: (Inr u)
    show ?thesis
    proof (cases r2)
      case (Inl e)
      then show ?thesis using assms(3) m r1 ver w2(1) by (auto simp: step_b_def)
    next
      case r2: (Inr ok)
      let ?both = "pe_old_sha256 (get_entry pid w2) = None \<and> pe_new_sha256 (get_entry pid w2) = None"
      consider "\<not> ok" | "ok" "?both" | "ok" "\<not> ?both" by blast
      then show ?thesis
      proof cases
        case 1
        then have "(r, w') = fail_partition pid ''4-HEAD verify FAIL'' w2" using assms(3) m r1 r2 ver by (simp add: step_b_def)
        then show ?thesis using fail_partition_reach [OF w2(1)] fail_partition_result by (metis prod.sel(1,2))
      next
        case 2
        then have "(r, w') = finish_as LegacyNoSha256 (mark pid LegacyNoSha256 id w2)"
          using assms(3) m r1 r2 ver by (simp add: step_b_def)
        then show ?thesis using legacy finish_as_result finish_as_state by (metis prod.sel(1,2))
      next
        case 3
        have pair: "verified_pair (v (rk_store w2)) k" using w2(2) 3 r2 by simp
        let ?f = "\<lambda>e. e\<lparr>pe_timestamp_verified := Some (re_now env pid ''verified'')\<rparr>"
        have "(r, w') = go_on (mark pid Verified ?f w2)" using 3 assms(3) m r1 r2 ver by (auto simp: step_b_def)
        then have "w' = snd (mark pid Verified ?f w2)" using go_on_state by (metis prod.sel(2))
        then show ?thesis using mark_reach [OF w2(1), of ?f Verified] pair by (simp add: keeps_identity_def)
      qed
    qed
  qed
  then show "reach v dry w0 pid k w'" "r = Inr None \<Longrightarrow> verified_pair (v (rk_store w')) k" by auto
qed

lemma delete_effects:
  assumes "s3_laws c v" "delete_object c k s = (r, s')" "legacy_key k" "verified_pair (v s) k" "\<not> dry"
  shows "rekey_effects dry {k} (v s) (v s')"
proof -
  obtain r1 s1 where d: "s3_delete c k s = (r1, s1)" by fastforce
  have "s' = s1" using assms(2) d by (cases r1) (auto simp: delete_object_def split: if_splits)
  then have "v s' = v s \<or> v s' = (v s)(k := None)" using delete_view(2) [OF assms(1) d] by simp
  then show ?thesis using rekey_effect.deletes [OF singletonI assms(3-5)] by (metis r_into_rtranclp rtranclp.rtrancl_refl)
qed

lemma step_c_reach:
  assumes "s3_laws c v" "reach v (rx_dry_run cfg) w0 pid k w" "verified_pair (v (rk_store w)) k"
  shows "reach v (rx_dry_run cfg) w0 pid k (snd (step_c c hash cfg env pid k w))"
  unfolding step_c_def
proof (rule and_then_keeps [where P = "reach v (rx_dry_run cfg) w0 pid k"])
  let ?f = "\<lambda>e. e\<lparr>pe_pre_delete_version_id := pe_old_version_id e\<rparr>"
  let ?w1 = "snd (mark pid Deleting ?f w)"
  show m: "reach v (rx_dry_run cfg) w0 pid k ?w1"
    by (rule mark_reach [OF assms(2)]) (simp_all add: keeps_identity_def assms(3))
  let ?w2 = "?w1\<lparr>rk_partial := rk_partial ?w1 + 1\<rparr>"
  obtain r s where d: "(if rx_dry_run cfg then (Inr (), rk_store ?w2) else delete_object c k (rk_store ?w2)) = (r, s)" by fastforce
  have k: "legacy_key k" using assms(2) by (simp add: reach_def)
  have "rekey_effects (rx_dry_run cfg) {k} (v (rk_store ?w2)) (v s)"
  proof (cases "rx_dry_run cfg")
    case True
    then show ?thesis using d by simp
  next
    case False
    then show ?thesis using d assms(3) k delete_effects [OF assms(1), of k "rk_store ?w2" r s "rx_dry_run cfg"] by simp
  qed
  then have w3: "reach v (rx_dry_run cfg) w0 pid k (?w2\<lparr>rk_store := s\<rparr>)" using m reach_store [of v _ w0 pid k ?w2] by simp
  have fin: "reach v (rx_dry_run cfg) w0 pid k (snd (and_then (write_sentinel hash pid (?w2\<lparr>rk_store := s\<rparr>)) (\<lambda>_ w4.
      and_then (mark pid Done (\<lambda>e. e\<lparr>pe_timestamp_deleted := t\<rparr>) w4) (\<lambda>_ w5. (Inr (Some Done), w5\<lparr>rk_partial := rk_partial w5 - 1\<rparr>)))))" for t
  proof (rule and_then_keeps [where P = "reach v (rx_dry_run cfg) w0 pid k"])
    show ws: "reach v (rx_dry_run cfg) w0 pid k (snd (write_sentinel hash pid (?w2\<lparr>rk_store := s\<rparr>)))"
      by (rule write_sentinel_reach [OF w3])
    show "reach v (rx_dry_run cfg) w0 pid k (snd (and_then (mark pid Done (\<lambda>e. e\<lparr>pe_timestamp_deleted := t\<rparr>)
       (snd (write_sentinel hash pid (?w2\<lparr>rk_store := s\<rparr>)))) (\<lambda>_ w5. (Inr (Some Done), w5\<lparr>rk_partial := rk_partial w5 - 1\<rparr>))))"
      by (rule and_then_keeps [where P = "reach v (rx_dry_run cfg) w0 pid k"])
        (use mark_reach [OF ws, of "\<lambda>e. e\<lparr>pe_timestamp_deleted := t\<rparr>" Done] in \<open>simp_all add: keeps_identity_def\<close>)
  qed
  show "reach v (rx_dry_run cfg) w0 pid k (snd (let w2 = ?w2;
      (r, s) = if rx_dry_run cfg then (Inr (), rk_store w2) else delete_object c k (rk_store w2);
      w3 = w2\<lparr>rk_store := s\<rparr>
      in case r of Inl e \<Rightarrow> fail_partition pid (''delete failed: '' @ error_name e) w3
         | Inr _ \<Rightarrow> and_then (write_sentinel hash pid w3) (\<lambda>_ w4.
                and_then (mark pid Done (\<lambda>e. e\<lparr>pe_timestamp_deleted := Some (re_now env pid ''deleted'')\<rparr>) w4)
                 (\<lambda>_ w5. (Inr (Some Done), w5\<lparr>rk_partial := rk_partial w5 - 1\<rparr>)))))"
    unfolding Let_def d prod.case using fail_partition_reach [OF w3] fin by (cases r) (simp_all only: sum.case)
qed

lemma unless_finished_keeps:
  assumes "P (snd r)" "\<And>w. r = (Inr None, w) \<Longrightarrow> P w \<Longrightarrow> P (snd (f w))"
  shows "P (snd (unless_finished r f))"
  using assms by (cases r; cases "fst r"; cases "projr (fst r)") (auto simp: unless_finished_def)

lemma process_partition_reach:
  assumes "s3_laws c v" "reach v (rx_dry_run cfg) w0 pid k w"
  shows "reach v (rx_dry_run cfg) w0 pid k (snd (process_partition c hash cfg env pid w))"
proof -
  let ?R = "reach v (rx_dry_run cfg) w0 pid k"
  let ?n = "legacy_key_to_canonical k"
  note e = reach_entry [OF assms(2)]
  let ?st = "pe_status (get_entry pid w)"
  let ?a = "if ?st \<in> {CopiedSt, Verifying, Verified, Deleting} then (Inr None, w) else step_a c hash env pid k ?n w"
  have "?R (snd (unless_finished ?a (\<lambda>w1. unless_finished
      (if ?st \<in> {Verified, Deleting} then (Inr None, w1) else step_b c env pid k ?n w1) (step_c c hash cfg env pid k))))"
  proof (rule unless_finished_keeps [where P = ?R])
    show "?R (snd ?a)" using assms(2) step_a_reach [OF assms] by simp
    fix w1 assume a: "?a = (Inr None, w1)" and w1: "?R w1"
    let ?b = "if ?st \<in> {Verified, Deleting} then (Inr None, w1) else step_b c env pid k ?n w1"
    obtain rb wb where b: "?b = (rb, wb)" by fastforce
    have wb: "?R wb \<and> (rb = Inr None \<longrightarrow> verified_pair (v (rk_store wb)) k)"
    proof (cases "?st \<in> {Verified, Deleting}")
      case True
      then have "wb = w" using a b by auto
      then show ?thesis using True e(2,4) assms(2) by (simp add: entry_ok_def)
    next
      case False
      then show ?thesis using b step_b_reach [OF assms(1) w1, of env rb wb] by simp
    qed
    show "?R (snd (unless_finished ?b (step_c c hash cfg env pid k)))"
      unfolding b by (rule unless_finished_keeps [where P = ?R]) (use wb step_c_reach [OF assms(1)] in auto)
  qed
  then show ?thesis unfolding process_partition_def Let_def e(2,3) .
qed

section \<open>A whole run\<close>

lemma effects_mono:
  assumes "rekey_effects dry K b b'" "K \<subseteq> L"
  shows "rekey_effects dry L b b'"
  using assms(1)
proof (induction rule: rtranclp_induct)
  case (step b' b'')
  from step(2) have "rekey_effect dry L b' b''"
    by cases (use assms(2) in \<open>auto intro: rekey_effect.intros\<close>)
  from rtranclp.rtrancl_into_rtrancl [where r = "rekey_effect dry L", OF step(3) this] show ?case .
qed simp

lemma effects_untouched:
  assumes "rekey_effects dry K b b'" "legacy_key k" "k \<notin> K \<or> dry"
  shows "b' k = b k"
  using assms(1)
proof (induction rule: rtranclp_induct)
  case (step b' b'')
  from step(2) have "b'' k = b' k"
  proof cases
    case (copies j ob)
    then show ?thesis using canonical_not_legacy [OF copies(2) assms(2)] by (auto simp: writes_def)
  next
    case (deletes j)
    then show ?thesis using assms(3) by auto
  qed
  with step(3) show ?case by simp
qed simp

text \<open>The keys of the entries a sweep may still work on.\<close>

definition open_keys :: "'s rekey \<Rightarrow> string set" where
  "open_keys w = {pe_old_key e | pid e. map_of (rk_entries w) pid = Some e \<and> resumable (pe_status e)}"

definition run_ok :: "('s \<Rightarrow> bucket) \<Rightarrow> bool \<Rightarrow> string set \<Rightarrow> 's rekey \<Rightarrow> 's rekey \<Rightarrow> bool" where
  "run_ok v dry K w0 w \<longleftrightarrow> rekey_effects dry K (v (rk_store w0)) (v (rk_store w)) \<and> rekey_ok v w"

lemma run_ok_trans: "run_ok v dry K w0 w1 \<Longrightarrow> run_ok v dry K w1 w2 \<Longrightarrow> run_ok v dry K w0 w2"
  unfolding run_ok_def by (blast intro: rtranclp_trans)

lemma reach_start:
  assumes "rekey_ok v w" "map_of (rk_entries w) pid = Some e"
  shows "reach v dry w pid (pe_old_key e) w"
  using assms by (auto simp: reach_def rekey_ok_def entries_ok_def entry_ok_def)

lemma process_partition_run:
  assumes "s3_laws c v" "rekey_ok v w" "resumable_at pid w" "open_keys w \<subseteq> K"
    "process_partition c hash cfg env pid w = (r, w')"
  shows "run_ok v (rx_dry_run cfg) K w w'" "open_keys w' \<subseteq> K"
proof -
  from assms(3) obtain e where e: "map_of (rk_entries w) pid = Some e" "resumable (pe_status e)"
    by (auto simp: resumable_at_def split: option.splits)
  let ?k = "pe_old_key e"
  have k: "?k \<in> K" using e assms(4) by (auto simp: open_keys_def)
  have re: "reach v (rx_dry_run cfg) w pid ?k w'"
    using process_partition_reach [OF assms(1) reach_start [OF assms(2) e(1)]] assms(5) by (metis snd_conv)
  then show "run_ok v (rx_dry_run cfg) K w w'"
    using effects_mono [of _ "{?k}"] k by (auto simp: reach_def run_ok_def)
  show "open_keys w' \<subseteq> K"
  proof
    fix x assume "x \<in> open_keys w'"
    then obtain j e' where e': "map_of (rk_entries w') j = Some e'" "resumable (pe_status e')" "x = pe_old_key e'"
      by (auto simp: open_keys_def)
    show "x \<in> K"
    proof (cases "j = pid")
      case True
      then show ?thesis using e' re k by (auto simp: reach_def)
    next
      case False
      then have "map_of (rk_entries w) j = Some e'" using re e'(1) by (simp add: reach_def)
      then show ?thesis using e' assms(4) by (auto simp: open_keys_def)
    qed
  qed
qed

lemma rekey_loop_run:
  assumes "s3_laws c v"
  shows "rekey_ok v w \<Longrightarrow> open_keys w \<subseteq> K \<Longrightarrow>
    run_ok v (rx_dry_run cfg) K w (snd (rekey_loop c hash cfg env pids n failed res w))"
proof (induction pids arbitrary: n failed res w)
  case Nil
  then show ?case by (simp add: run_ok_def)
next
  case (Cons pid pids)
  show ?case
  proof (cases "resumable_at pid w \<and> \<not> stopped cfg env n")
    case False
    then show ?thesis using Cons by (auto simp: run_ok_def)
  next
    case True
    obtain r w1 where p: "process_partition c hash cfg env pid w = (r, w1)" by fastforce
    note step = process_partition_run [OF assms Cons.prems(1) _ Cons.prems(2) p]
    have w1: "run_ok v (rx_dry_run cfg) K w w1" "rekey_ok v w1" "open_keys w1 \<subseteq> K"
      using step True by (simp_all add: run_ok_def)
    note ih = run_ok_trans [OF w1(1) Cons.IH [OF w1(2,3)]]
    show ?thesis
    proof (cases r)
      case (Inl x)
      then show ?thesis using True p w1(1) by simp
    next
      case (Inr st)
      then show ?thesis using True p w1(1) ih by (simp add: Let_def)
    qed
  qed
qed

subsection \<open>Filling the manifest\<close>

text \<open>The keys whose entry in the manifest file is not marked done.\<close>

definition not_done_keys :: "manifest_file \<Rightarrow> string set" where
  "not_done_keys f = {k. \<forall>m t e. f = Saved m t \<longrightarrow> map_of m (build_partition_id k) = Some e \<longrightarrow> pe_status e \<noteq> Done}"

definition done_kept :: "partitions \<Rightarrow> partitions \<Rightarrow> bool" where
  "done_kept m m' \<longleftrightarrow>
     (\<forall>pid e. map_of m pid = Some e \<longrightarrow> pe_status e = Done \<longrightarrow> (\<exists>e'. map_of m' pid = Some e' \<and> pe_status e' = Done))"

lemma populate_one_ok:
  assumes "rekey_ok v w" "legacy_key k" "populate_one hash k (w, n) = (w', n')"
  shows "rekey_ok v w'" "rk_store w' = rk_store w" "rk_file w' = rk_file w"
    "done_kept (rk_entries w) (rk_entries w')"
proof -
  let ?pid = "build_partition_id k"
  have w': "w' = (if sentinel_exists hash ?pid w then update_status ?pid Done id w
                  else upsert_pending ?pid k (legacy_key_to_canonical k) w)"
    using assms(3) by (auto simp: populate_one_def Let_def build_new_key_def split: if_splits)
  show "rk_store w' = rk_store w" "rk_file w' = rk_file w"
    unfolding w' by (simp_all add: update_status_def upsert_pending_def)
  then show "rekey_ok v w'"
    using assms(1,2) unfolding w'
    by (auto simp: rekey_ok_def entries_ok_def update_status_def change_entry_lookup upsert_pending_def
        map_of_update_Some entry_ok_def PartitionEntry_def split: if_splits)
  show "done_kept (rk_entries w) (rk_entries w')"
    unfolding w' by (auto simp: done_kept_def update_status_def change_entry_lookup upsert_pending_def map_of_update_Some)
qed

lemma done_kept_trans: "done_kept m1 m2 \<Longrightarrow> done_kept m2 m3 \<Longrightarrow> done_kept m1 m3"
  by (fastforce simp: done_kept_def)

lemma populate_fold_ok:
  assumes "rekey_ok v w" "list_all legacy_key ks" "fold (populate_one hash) ks (w, n) = (w', n')"
  shows "rekey_ok v w' \<and> rk_store w' = rk_store w \<and> rk_file w' = rk_file w \<and>
    done_kept (rk_entries w) (rk_entries w')"
  using assms
proof (induction ks arbitrary: w n)
  case Nil
  then show ?case by (simp add: done_kept_def)
next
  case (Cons k ks)
  obtain w1 n1 where p: "populate_one hash k (w, n) = (w1, n1)" by fastforce
  have k: "legacy_key k" using Cons.prems(2) by simp
  note one = populate_one_ok [OF Cons.prems(1) k p]
  from Cons.IH [OF one(1), of n1] Cons.prems(2,3) p one done_kept_trans show ?case by auto
qed

lemma load_manifest_ok:
  assumes "rekey_ok v w"
  shows "rekey_ok v ((load_manifest w)\<lparr>rk_total := n\<rparr>)"
  using assms by (auto simp: load_manifest_def rekey_ok_def entries_ok_def split: manifest_file.splits)

lemma load_manifest_fields [simp]:
  "rk_store (load_manifest w) = rk_store w" "rk_file (load_manifest w) = rk_file w"
  by (simp_all add: load_manifest_def split: manifest_file.splits)

lemma open_keys_not_done:
  assumes "rekey_ok v w" "done_kept (rk_entries (load_manifest w0)) (rk_entries w)"
  shows "open_keys w \<subseteq> not_done_keys (rk_file w0)"
proof
  fix x assume "x \<in> open_keys w"
  then obtain pid e where e: "map_of (rk_entries w) pid = Some e" "resumable (pe_status e)" "x = pe_old_key e"
    by (auto simp: open_keys_def)
  then have pid: "pid = build_partition_id x" using assms(1) by (simp add: rekey_ok_def entries_ok_def entry_ok_def)
  show "x \<in> not_done_keys (rk_file w0)"
    unfolding not_done_keys_def
  proof (intro CollectI allI impI notI)
    fix m t e' assume f: "rk_file w0 = Saved m t" "map_of m (build_partition_id x) = Some e'" "pe_status e' = Done"
    then have "map_of (rk_entries (load_manifest w0)) pid = Some e'" using pid by (simp add: load_manifest_def)
    then have "\<exists>e'. map_of (rk_entries w) pid = Some e' \<and> pe_status e' = Done"
      using assms(2) f(3) unfolding done_kept_def by blast
    then have "pe_status e = Done" using e(1) by simp
    with e(2) show False by (simp add: resumable_def)
  qed
qed

lemma migrate_run:
  assumes "s3_laws c v" "rekey_ok v w" "list_all legacy_key keys"
  shows "run_ok v (rx_dry_run cfg) (not_done_keys (rk_file w)) w (snd (migrate c hash cfg env keys w))"
proof -
  let ?w0 = "(load_manifest w)\<lparr>rk_total := length keys\<rparr>"
  let ?K = "not_done_keys (rk_file w)"
  obtain w1 n1 where f: "fold (populate_one hash) keys (?w0, 0) = (w1, n1)" by fastforce
  note pop = populate_fold_ok [OF load_manifest_ok [OF assms(2)] assms(3) f]
  obtain r2 w2 where wr: "write_atomic w1 = (r2, w2)" by fastforce
  note wf = write_atomic_fields [OF wr]
  have ok2: "rekey_ok v w2" using write_atomic_ok [of v w1] pop wr by simp
  have "open_keys w2 \<subseteq> ?K"
    using open_keys_not_done [of v w1 w] pop wf(2) by (simp add: open_keys_def)
  note loop = rekey_loop_run [OF assms(1) ok2 this]
  have start: "run_ok v (rx_dry_run cfg) ?K w w2" using pop wf(1) ok2 by (simp add: run_ok_def)
  show ?thesis
    using start run_ok_trans [OF start loop] wr f
    by (cases r2) (simp_all add: migrate_def populate_def)
qed

lemma candidates_legacy:
  assumes "list_all legacy_key ks"
  shows "list_all legacy_key (rekey_candidates x ks)"
  using assms by (auto simp: rekey_candidates_def Let_def list_all_iff)

lemma discover_run:
  assumes "s3_laws c v" "rekey_ok v w" "discover_l1_objects c cfg w = (r, w')"
  shows "v (rk_store w') = v (rk_store w)" "rk_file w' = rk_file w" "rekey_ok v w'"
    "r = Inr keys \<Longrightarrow> list_all legacy_key keys"
proof -
  have *: "v (rk_store w') = v (rk_store w) \<and> rk_file w' = rk_file w \<and> rekey_ok v w' \<and>
      (r = Inr keys \<longrightarrow> list_all legacy_key keys)"
  proof (cases "rx_channel cfg = []")
    case True
    then show ?thesis using assms by (auto simp: discover_l1_objects_def build_legacy_l1_discovery_prefix_def)
  next
    case False
    let ?pre = "''l1/market/'' @ rx_channel cfg @ ''/''"
    obtain r1 s where l: "s3_list c ?pre (rk_store w) = (r1, s)" by fastforce
    have view: "v s = v (rk_store w)" by (rule list_view [OF assms(1) l])
    have ok: "rekey_ok v (w\<lparr>rk_store := s\<rparr>)" using assms(2) view by (simp add: rekey_ok_def)
    show ?thesis
    proof (cases r1)
      case (Inl e)
      then show ?thesis using assms(3) l False view ok
        by (auto simp: discover_l1_objects_def build_legacy_l1_discovery_prefix_def list_objects_def)
    next
      case (Inr ks)
      have "starts_with k ?pre" if "k \<in> set ks" for k
        using that list_keys [OF assms(1) l [unfolded Inr]] by blast
      then have "list_all legacy_key (sort ks)"
        by (auto simp: list_all_iff legacy_key_def starts_with_iff)
      then show ?thesis using assms(3) l False view ok Inr candidates_legacy
        by (auto simp: discover_l1_objects_def build_legacy_l1_discovery_prefix_def list_objects_def)
    qed
  qed
  then show "v (rk_store w') = v (rk_store w)" "rk_file w' = rk_file w" "rekey_ok v w'"
    "r = Inr keys \<Longrightarrow> list_all legacy_key keys" by auto
qed

lemma raised_state [simp]: "snd (raised r) = snd r"
  by (cases r; cases "fst r") (auto simp: raised_def)

lemma rekey_run_ok:
  assumes "s3_laws c v" "rekey_ok v w" "rekey_run c hash cfg env w = (r, w')"
  shows "run_ok v (rx_dry_run cfg) (not_done_keys (rk_file w)) w w'"
proof -
  let ?K = "not_done_keys (rk_file w)"
  obtain rd wd where d: "discover_l1_objects c cfg w = (rd, wd)" by fastforce
  note disc = discover_run [OF assms(1,2) d]
  have same: "run_ok v (rx_dry_run cfg) ?K w w" "run_ok v (rx_dry_run cfg) ?K w wd"
    using assms(2) disc by (simp_all add: run_ok_def)
  have mig: "run_ok v (rx_dry_run cfg) ?K w (snd (migrate c hash cfg env keys wd))" if "rd = Inr keys" for keys
    using run_ok_trans [OF same(2) migrate_run [OF assms(1) disc(3) disc(4) [OF that], unfolded disc(2)]] .
  have "w' = w \<or> w' = wd \<or> (\<exists>keys. rd = Inr keys \<and> w' = snd (migrate c hash cfg env keys wd))"
    using assms(3) d
    by (cases "re_versioning env"; cases rd)
      (auto simp: rekey_run_def raised_def Let_def split: if_splits sum.splits prod.splits)
  then show ?thesis using same mig by auto
qed

section \<open>A finished partition stays finished\<close>

definition saved_done :: "string \<Rightarrow> 's rekey \<Rightarrow> bool" where
  "saved_done pid w \<longleftrightarrow> (\<exists>m t e. rk_file w = Saved m t \<and> map_of m pid = Some e \<and> pe_status e = Done)"

lemma mark_saved_done:
  assumes "mark pid Done f w = (Inr u, w')" "keeps_identity f" "map_of (rk_entries w) pid \<noteq> None"
  shows "saved_done pid w'"
proof -
  from assms(3) obtain e where e: "map_of (rk_entries w) pid = Some e" by blast
  have "rk_file w' = Saved (rk_entries (update_status pid Done f w)) (rk_total (update_status pid Done f w))"
    using write_atomic_fields(4) [of "update_status pid Done f w"] assms(1) by (simp add: mark_def)
  moreover have "map_of (rk_entries (update_status pid Done f w)) pid = Some (f (e\<lparr>pe_status := Done\<rparr>))"
    using e by (simp add: update_status_def change_entry_lookup)
  ultimately show ?thesis using assms(2) unfolding saved_done_def keeps_identity_def
    by (metis partition_entry.select_convs(4) partition_entry.surjective partition_entry.update_convs(4))
qed

lemma finish_as_Inr: "finish_as st r = (Inr x, w) \<longleftrightarrow> x = Some st \<and> (\<exists>u. r = (Inr u, w))"
  by (cases r; cases "fst r") (auto simp: finish_as_def)

lemma go_on_Inr: "go_on r = (Inr x, w) \<longleftrightarrow> x = None \<and> (\<exists>u. r = (Inr u, w))"
  by (cases r; cases "fst r") (auto simp: go_on_def)

lemma fail_partition_not_done: "fail_partition pid msg w \<noteq> (Inr (Some Done), w')"
  by (simp add: fail_partition_def finish_as_Inr)

lemma source_gone_done:
  assumes "source_gone c hash pid new w = (Inr (Some Done), w')" "map_of (rk_entries w) pid \<noteq> None"
  shows "saved_done pid w'"
proof -
  obtain r s where h: "head_object c new (rk_store w) = (r, s)" by fastforce
  obtain dst where dst: "r = Inr dst" "truthy (h_sha256 dst)"
    using assms(1) h fail_partition_not_done by (cases r) (auto simp: source_gone_def split: if_splits)
  let ?f = "\<lambda>e. e\<lparr>pe_new_etag := h_etag dst, pe_new_version_id := h_version dst\<rparr>"
  obtain u w1 u' where "mark pid Done ?f (w\<lparr>rk_store := s\<rparr>) = (Inr u, w1)" "write_sentinel hash pid w1 = (Inr u', w')"
    using assms(1) h dst by (auto simp: source_gone_def finish_as_Inr and_then_Inr)
  then show ?thesis
    using mark_saved_done [of pid ?f "w\<lparr>rk_store := s\<rparr>" u w1] assms(2) write_sentinel_fields(3) [of hash pid w1]
    by (simp add: keeps_identity_def saved_done_def)
qed

lemma step_c_done:
  assumes "step_c c hash cfg env pid k w = (Inr (Some Done), w')" "map_of (rk_entries w) pid \<noteq> None"
  shows "saved_done pid w'" "sentinel_exists hash pid w'"
proof -
  let ?f = "\<lambda>e. e\<lparr>pe_pre_delete_version_id := pe_old_version_id e\<rparr>"
  let ?g = "\<lambda>e. e\<lparr>pe_timestamp_deleted := Some (re_now env pid ''deleted'')\<rparr>"
  obtain u w1 where m: "mark pid Deleting ?f w = (Inr u, w1)"
    using assms(1) by (auto simp: step_c_def and_then_Inr)
  let ?w2 = "w1\<lparr>rk_partial := rk_partial w1 + 1\<rparr>"
  obtain r s where d: "(if rx_dry_run cfg then (Inr (), rk_store ?w2) else delete_object c k (rk_store ?w2)) = (r, s)" by fastforce
  obtain y where r: "r = Inr y"
    using assms(1) m d fail_partition_not_done by (cases r) (auto simp: step_c_def Let_def)
  obtain u4 w4 u5 w5 where ws: "write_sentinel hash pid (?w2\<lparr>rk_store := s\<rparr>) = (Inr u4, w4)"
    and md: "mark pid Done ?g w4 = (Inr u5, w5)" and w': "w' = w5\<lparr>rk_partial := rk_partial w5 - 1\<rparr>"
    using assms(1) m d r by (auto simp: step_c_def Let_def and_then_Inr)
  have "map_of (rk_entries w1) pid \<noteq> None"
    using write_atomic_fields(2) [of "update_status pid Deleting ?f w" "Inr u" w1] m assms(2)
    by (simp add: mark_def update_status_def change_entry_lookup)
  then have "map_of (rk_entries w4) pid \<noteq> None" using write_sentinel_fields(2) [OF ws] by simp
  then show "saved_done pid w'" using mark_saved_done [OF md] w' by (simp add: keeps_identity_def saved_done_def)
  have "rk_sentinels w5 = rk_sentinels w4"
    using write_atomic_fields(3) [of "update_status pid Done ?g w4" "Inr u5" w5] md
    by (simp add: mark_def update_status_def change_entry_def split: option.splits)
  then show "sentinel_exists hash pid w'" using write_sentinel_fields(4) [OF ws] w' by (simp add: sentinel_exists_def)
qed

lemma unless_finished_Some:
  "unless_finished r f = (Inr (Some st), w') \<longleftrightarrow>
     r = (Inr (Some st), w') \<or> (\<exists>w. r = (Inr None, w) \<and> f w = (Inr (Some st), w'))"
  by (cases r; cases "fst r"; cases "projr (fst r)") (auto simp: unless_finished_def)

lemma step_a_done:
  assumes "step_a c hash env pid old new w = (Inr (Some Done), w')" "map_of (rk_entries w) pid \<noteq> None"
  shows "saved_done pid w'"
proof -
  obtain u w1 where m: "mark pid Copying id w = (Inr u, w1)" using assms(1) by (auto simp: step_a_def and_then_Inr)
  obtain r s where cp: "copy_object c old new (rk_store w1) = (r, s)" by fastforce
  have a: "after_copy c hash env pid new r (w1\<lparr>rk_store := s\<rparr>) = (Inr (Some Done), w')"
    using assms(1) m cp by (simp add: step_a_def)
  have w1: "map_of (rk_entries w1) pid \<noteq> None"
    using write_atomic_fields(2) [of "update_status pid Copying id w" "Inr u" w1] m assms(2)
    by (simp add: mark_def update_status_def change_entry_lookup)
  obtain cr where r: "r = Inr cr" using a fail_partition_not_done by (cases r) (auto simp: after_copy_def)
  have "source_gone c hash pid new (w1\<lparr>rk_store := s\<rparr>) = (Inr (Some Done), w')"
    using a r fail_partition_not_done by (cases "cr_status cr") (auto simp: after_copy_def go_on_Inr)
  from source_gone_done [OF this] w1 show ?thesis by simp
qed

lemma step_b_not_done: "step_b c env pid old new w \<noteq> (Inr (Some Done), w')"
  by (auto simp: step_b_def and_then_Inr fail_partition_not_done finish_as_Inr go_on_Inr split: if_splits)

lemma process_partition_done:
  assumes "s3_laws c v" "rekey_ok v w" "map_of (rk_entries w) pid = Some e"
    "process_partition c hash cfg env pid w = (Inr (Some Done), w')"
  shows "saved_done pid w'"
proof -
  let ?k = "pe_old_key e"
  have st: "reach v (rx_dry_run cfg) w pid ?k w" by (rule reach_start [OF assms(2,3)])
  note en = reach_entry [OF st]
  let ?st = "pe_status (get_entry pid w)"
  define a where "a = (if ?st \<in> {CopiedSt, Verifying, Verified, Deleting} then (Inr None, w) else step_a c hash env pid ?k (legacy_key_to_canonical ?k) w)"
  have "reach v (rx_dry_run cfg) w pid ?k (snd a)" using st step_a_reach [OF assms(1) st] by (simp add: a_def)
  then have ra: "reach v (rx_dry_run cfg) w pid ?k w1" if "a = (x, w1)" for x w1 using that by simp
  define b where "b = (\<lambda>w1. if ?st \<in> {Verified, Deleting} then (Inr None, w1) else step_b c env pid ?k (legacy_key_to_canonical ?k) w1)"
  have b: "b w1 \<noteq> (Inr (Some Done), w')" for w1 by (simp add: b_def step_b_not_done)
  have rb: "reach v (rx_dry_run cfg) w pid ?k w2" if "b w1 = (x, w2)" "reach v (rx_dry_run cfg) w pid ?k w1" for x w1 w2
    using that step_b_reach(1) [OF assms(1) that(2)] by (auto simp: b_def split: if_splits)
  have "unless_finished a (\<lambda>w1. unless_finished (b w1) (step_c c hash cfg env pid ?k)) = (Inr (Some Done), w')"
    using assms(4) unfolding process_partition_def Let_def en(2,3) a_def b_def .
  then consider "a = (Inr (Some Done), w')"
    | w1 w2 where "a = (Inr None, w1)" "b w1 = (Inr None, w2)" "step_c c hash cfg env pid ?k w2 = (Inr (Some Done), w')"
    using b unfolding unless_finished_Some by blast
  then show ?thesis
  proof cases
    case 1
    then show ?thesis using step_a_done [of c hash env pid ?k _ w w'] en(1) by (auto simp: a_def split: if_splits)
  next
    case 2
    have "reach v (rx_dry_run cfg) w pid ?k w2" by (rule rb [OF 2(2) ra [OF 2(1)]])
    then have "map_of (rk_entries w2) pid \<noteq> None" by (auto simp: reach_def)
    then show ?thesis by (rule step_c_done(1) [OF 2(3)])
  qed
qed

section \<open>Progress on a healthy store\<close>

text \<open>An available store of a bucket with versioning: requests are answered and written objects have a version.\<close>

definition s3_healthy :: "'s s3 \<Rightarrow> ('s \<Rightarrow> bucket) \<Rightarrow> ('s \<Rightarrow> bool) \<Rightarrow> bool" where
  "s3_healthy c v up \<longleftrightarrow> (\<forall>s. up s \<longrightarrow>
     (\<forall>k. \<exists>s'. s3_head c k s = (case v s k of None \<Rightarrow> Inl (ClientError ''404'') | Some ob \<Rightarrow> Inr (head_of ob), s') \<and> up s') \<and>
     (\<forall>src dst. v s src \<noteq> None \<longrightarrow>
        (\<exists>x s' ob. s3_copy c src dst s = (Inr x, s') \<and> up s' \<and> v s' dst = Some ob \<and> truthy (ob_version ob))) \<and>
     (\<forall>k. \<exists>s'. s3_delete c k s = (Inr (), s') \<and> up s'))"

lemma healthy_head:
  assumes "s3_laws c v" "s3_healthy c v up" "up s"
  obtains s' where "s3_head c k s = (case v s k of None \<Rightarrow> Inl (ClientError ''404'') | Some ob \<Rightarrow> Inr (head_of ob), s')"
    "up s'" "v s' = v s"
proof -
  from assms(2,3) obtain s' where "s3_head c k s = (case v s k of None \<Rightarrow> Inl (ClientError ''404'') | Some ob \<Rightarrow> Inr (head_of ob), s')"
    "up s'" unfolding s3_healthy_def by blast
  with head_view [OF assms(1) this(1)] that show ?thesis by blast
qed

lemma healthy_copy:
  assumes "s3_laws c v" "s3_healthy c v up" "up s" "v s src = Some ob" "v s dst = None"
  obtains cr s' ob' where "copy_object c src dst s = (Inr cr, s')" "cr_status cr = Copied" "up s'"
    "v s' = (v s)(dst \<mapsto> ob')" "ob_body ob' = ob_body ob" "ob_sha256 ob' = ob_sha256 ob" "truthy (ob_version ob')"
proof -
  from healthy_head [OF assms(1-3), of src] obtain s1 where h1: "s3_head c src s = (Inr (head_of ob), s1)" "up s1" "v s1 = v s"
    using assms(4) by auto
  from healthy_head [OF assms(1,2) h1(2), of dst] obtain s2 where h2: "s3_head c dst s1 = (Inl (ClientError ''404''), s2)" "up s2" "v s2 = v s"
    using assms(5) h1(3) by auto
  from assms(2) h2 assms(4) obtain x s3 o3 where cp: "s3_copy c src dst s2 = (Inr x, s3)" "up s3" "v s3 dst = Some o3" "truthy (ob_version o3)"
    unfolding s3_healthy_def by (metis option.discI)
  from copy_writes(1) [OF assms(1) cp(1) refl] obtain ob' where w: "v s3 = (v s)(dst \<mapsto> ob')" "ob_body ob' = ob_body ob" "ob_sha256 ob' = ob_sha256 ob"
    using assms(4) h2(3) unfolding writes_def by auto
  obtain etag ver where x: "x = (etag, ver)" by fastforce
  have "copy_object c src dst s = (Inr \<lparr>cr_status = Copied, cr_src_etag = h_etag (head_of ob), cr_dst_etag = etag,
      cr_src_version = h_version (head_of ob), cr_dst_version = ver\<rparr>, s3)"
    using h1(1) h2(1) cp(1) x by (simp add: copy_object_def)
  from that [OF this _ cp(2) w] w(1) cp(3,4) show ?thesis by simp
qed

definition tracks :: "string \<Rightarrow> 's rekey \<Rightarrow> 's rekey \<Rightarrow> bool" where
  "tracks pid w w' \<longleftrightarrow> rk_io w' = [] \<and> rk_partial w' = rk_partial w \<and> map_of (rk_entries w') pid \<noteq> None"

lemma mark_up:
  assumes "rk_io w = []" "map_of (rk_entries w) pid \<noteq> None"
  obtains w' where "mark pid st f w = (Inr (), w')" "tracks pid w w'" "rk_store w' = rk_store w"
  using assms that by (auto simp: mark_def write_atomic_def next_io_def update_status_def change_entry_def
      tracks_def map_of_update_Some)

lemma write_sentinel_up:
  assumes "rk_io w = []"
  obtains w' where "write_sentinel hash pid w = (Inr (), w')" "rk_io w' = []" "rk_entries w' = rk_entries w"
    "rk_partial w' = rk_partial w" "rk_store w' = rk_store w"
  using assms that by (cases "sentinel_exists hash pid w") (auto simp: write_sentinel_def next_io_def)

lemma step_a_up:
  assumes "s3_laws c v" "s3_healthy c v up" "up (rk_store w)" "rk_io w = []" "map_of (rk_entries w) pid \<noteq> None"
    "v (rk_store w) k = Some ob" "v (rk_store w) n = None"
  obtains w' ob' where "step_a c hash env pid k n w = (Inr None, w')" "tracks pid w w'" "up (rk_store w')"
    "v (rk_store w') = (v (rk_store w))(n \<mapsto> ob')" "ob_body ob' = ob_body ob" "ob_sha256 ob' = ob_sha256 ob" "truthy (ob_version ob')"
proof -
  obtain w1 where w1: "mark pid Copying id w = (Inr (), w1)" "tracks pid w w1" "rk_store w1 = rk_store w" by (rule mark_up [OF assms(4,5)])
  obtain cr s ob' where cp: "copy_object c k n (rk_store w1) = (Inr cr, s)" "cr_status cr = Copied" "up s"
    "v s = (v (rk_store w1))(n \<mapsto> ob')" "ob_body ob' = ob_body ob" "ob_sha256 ob' = ob_sha256 ob" "truthy (ob_version ob')"
    by (rule healthy_copy [OF assms(1,2), of "rk_store w1" k ob n]) (use assms w1 in auto)
  let ?f = "\<lambda>e. e\<lparr>pe_new_etag := cr_dst_etag cr, pe_new_version_id := cr_dst_version cr,
                 pe_timestamp_copied := Some (re_now env pid ''copied'')\<rparr>"
  obtain w2 where w2: "mark pid CopiedSt ?f (w1\<lparr>rk_store := s\<rparr>) = (Inr (), w2)" "tracks pid (w1\<lparr>rk_store := s\<rparr>) w2" "rk_store w2 = s"
    by (rule mark_up [of "w1\<lparr>rk_store := s\<rparr>" pid CopiedSt ?f]) (use w1(2) in \<open>auto simp: tracks_def\<close>)
  have "step_a c hash env pid k n w = (Inr None, w2)"
    using w1(1) cp(1,2) w2(1) by (simp add: step_a_def after_copy_def go_on_def)
  from that [OF this] show ?thesis using w1 w2 cp by (simp add: tracks_def)
qed

lemma step_b_up:
  assumes "s3_laws c v" "s3_healthy c v up" "up (rk_store w)" "rk_io w = []" "map_of (rk_entries w) pid \<noteq> None"
    "v (rk_store w) k = Some ob" "v (rk_store w) n = Some ob'" "same_object ob ob'" "truthy (ob_version ob')"
  obtains w' where "step_b c env pid k n w = (Inr None, w')" "tracks pid w w'" "up (rk_store w')"
    "v (rk_store w') = v (rk_store w)"
proof -
  obtain w1 where w1: "mark pid Verifying id w = (Inr (), w1)" "tracks pid w w1" "rk_store w1 = rk_store w" by (rule mark_up [OF assms(4,5)])
  from healthy_head [OF assms(1-3), of k] obtain s1 where h1: "s3_head c k (rk_store w) = (Inr (head_of ob), s1)" "up s1" "v s1 = v (rk_store w)"
    using assms(6) by auto
  from healthy_head [OF assms(1,2) h1(2), of n] obtain s2 where h2: "s3_head c n s1 = (Inr (head_of ob'), s2)" "up s2" "v s2 = v (rk_store w)"
    using assms(7) h1(3) by auto
  let ?w2 = "change_entry pid (record_heads (head_of ob) (head_of ob')) (w1\<lparr>rk_store := s2\<rparr>)"
  from w1(2) obtain e where e: "map_of (rk_entries w1) pid = Some e" by (auto simp: tracks_def)
  have g: "get_entry pid ?w2 = record_heads (head_of ob) (head_of ob') e" by (rule record_heads_entry [OF e])
  have pass: "heads_pass (get_entry pid ?w2)" "pe_old_sha256 (get_entry pid ?w2) \<noteq> None"
    unfolding g using assms(8,9) by (auto simp: heads_pass_def record_heads_def head_of_def same_object_def)
  have ver: "verify_4head c k n pid w1 = (Inr True, ?w2)"
    using h1(1) h2(1) w1(3) pass(1) by (simp add: verify_4head_def head_object_def Let_def)
  let ?f = "\<lambda>e. e\<lparr>pe_timestamp_verified := Some (re_now env pid ''verified'')\<rparr>"
  have tr: "tracks pid w ?w2" using w1(2) e by (simp add: tracks_def change_entry_def map_of_update_Some)
  obtain w3 where w3: "mark pid Verified ?f ?w2 = (Inr (), w3)" "tracks pid ?w2 w3" "rk_store w3 = rk_store ?w2"
    by (rule mark_up [of ?w2 pid Verified ?f]) (use tr in \<open>auto simp: tracks_def\<close>)
  have "step_b c env pid k n w = (Inr None, w3)"
    using w1(1) ver pass(2) w3(1) by (auto simp: step_b_def go_on_def)
  from that [OF this] show ?thesis using w3 tr h2(2,3) by (simp add: tracks_def)
qed

lemma step_c_up:
  assumes "s3_laws c v" "s3_healthy c v up" "up (rk_store w)" "rk_io w = []" "map_of (rk_entries w) pid \<noteq> None" "\<not> rx_dry_run cfg"
  obtains w' where "step_c c hash cfg env pid k w = (Inr (Some Done), w')" "rk_partial w' = rk_partial w"
    "v (rk_store w') = (v (rk_store w))(k := None)"
proof -
  let ?f = "\<lambda>e. e\<lparr>pe_pre_delete_version_id := pe_old_version_id e\<rparr>"
  let ?g = "\<lambda>e. e\<lparr>pe_timestamp_deleted := Some (re_now env pid ''deleted'')\<rparr>"
  obtain w1 where w1: "mark pid Deleting ?f w = (Inr (), w1)" "tracks pid w w1" "rk_store w1 = rk_store w" by (rule mark_up [OF assms(4,5)])
  obtain s where d: "s3_delete c k (rk_store w) = (Inr (), s)" "up s" using assms(2,3) unfolding s3_healthy_def by blast
  let ?w3 = "w1\<lparr>rk_partial := rk_partial w1 + 1, rk_store := s\<rparr>"
  obtain w4 where w4: "write_sentinel hash pid ?w3 = (Inr (), w4)" "rk_io w4 = []" "rk_entries w4 = rk_entries w1"
    "rk_partial w4 = rk_partial w1 + 1" "rk_store w4 = s"
    by (rule write_sentinel_up [of ?w3 hash pid]) (use w1(2) in \<open>auto simp: tracks_def\<close>)
  obtain w5 where w5: "mark pid Done ?g w4 = (Inr (), w5)" "tracks pid w4 w5" "rk_store w5 = rk_store w4"
    by (rule mark_up [of w4 pid Done ?g]) (use w1(2) w4 in \<open>auto simp: tracks_def\<close>)
  have "step_c c hash cfg env pid k w = (Inr (Some Done), w5\<lparr>rk_partial := rk_partial w5 - 1\<rparr>)"
    using w1 d w4 w5 assms(6) by (simp add: step_c_def delete_object_def Let_def)
  from that [OF this] show ?thesis
    using w1(2) w4 w5 delete_view(1) [OF assms(1) d(1)] by (simp add: tracks_def)
qed

section \<open>Properties\<close>

text \<open>
  C24. No run loses an object below \<^verbatim>\<open>l1/market/\<close>, whatever the store answers, whichever file
  write fails and wherever the process stops: each such object is still in place, or, in a live run, it was
  deleted and an object with the same recorded digest and length is at the flat key. Recorded
  digests stay true, and the manifest in memory and on disk stays fit for resuming.
\<close>

theorem rekey_no_loss:
  assumes "s3_laws c v" "rekey_ok v w" "rekey_run c hash cfg env w = (r, w')"
  shows "rekey_ok v w' \<and>
         (\<forall>k ob. legacy_key k \<longrightarrow> v (rk_store w) k = Some ob \<longrightarrow>
            kept_or_moved (rx_dry_run cfg) (v (rk_store w')) k ob) \<and>
         (\<forall>h. digests_true h (v (rk_store w)) \<longrightarrow> digests_true h (v (rk_store w')))"
proof -
  have "run_ok v (rx_dry_run cfg) (not_done_keys (rk_file w)) w w'" by (rule rekey_run_ok [OF assms])
  then show ?thesis using effects_kept_or_moved effects_digests unfolding run_ok_def by blast
qed

definition example_key :: string where
  "example_key = ''l1/market/t/schema_version=v/tier=L1/exchange=x/symbol=s/date=d/p.parquet''"

definition example_rekey :: "mem rekey" where
  "example_rekey =
     \<lparr>rk_store = \<lparr>m_up = True,
        m_objects = [(example_key, example_object), (example_key @ ''.compacted'', example_object)]\<rparr>,
      rk_entries = [], rk_total = 0, rk_file = NoFile, rk_sentinels = [], rk_partial = 0, rk_io = []\<rparr>"

definition example_cfg :: "bool \<Rightarrow> rekey_cfg" where
  "example_cfg dry =
     \<lparr>rx_exchange = ''x'', rx_channel = ''t'', rx_batch_size = 500, rx_dry_run = dry, rx_threshold = 0,
      rx_max_partitions = None, rx_i_understand = True\<rparr>"

definition example_env :: rekey_env where
  "example_env = \<lparr>re_locked = False, re_versioning = Inr ''Enabled'', re_free_gb = 2, re_stop_at = None,
                  re_now = (\<lambda>_ _. ''now'')\<rparr>"

definition example_result :: rekey_result where
  "example_result =
     \<lparr>rr_partitions_total = 1, rr_copied = 1, rr_verified = 1, rr_deleted = 1,
      rr_skipped_already_migrated = 0, rr_failed = 0, rr_legacy_no_sha256 = 0\<rparr>"

lemma example_rekey_ok: "rekey_ok v example_rekey"
  by (simp add: rekey_ok_def entries_ok_def example_rekey_def)

lemma example_key_legacy: "legacy_key example_key"
  by (simp add: legacy_key_def example_key_def starts_with_def)

theorem rekey_no_loss_witness:
  "\<exists>w'. rekey_run mem_s3 (\<lambda>x. x) (example_cfg False) example_env example_rekey = (Inr example_result, w') \<and>
     mem_view (rk_store w') example_key = None \<and> kept_or_moved False (mem_view (rk_store w')) example_key example_object"
proof -
  obtain r w' where run: "rekey_run mem_s3 (\<lambda>x. x) (example_cfg False) example_env example_rekey = (r, w')" by fastforce
  have "fst (rekey_run mem_s3 (\<lambda>x. x) (example_cfg False) example_env example_rekey) = Inr example_result" by code_simp
  moreover have "mem_view (rk_store (snd (rekey_run mem_s3 (\<lambda>x. x) (example_cfg False) example_env example_rekey))) example_key = None"
    by code_simp
  moreover have "mem_view (rk_store example_rekey) example_key = Some example_object"
    by (simp add: mem_view_def example_rekey_def)
  ultimately show ?thesis
    using rekey_no_loss [OF mem_laws example_rekey_ok run] example_key_legacy run by (simp add: example_cfg_def)
qed

text \<open>
  A dry run marks what it would have deleted as done, in the manifest and by a sentinel, so no
  later run deletes it: once a dry run has finished a partition, every run that follows leaves its
  object below \<^verbatim>\<open>l1/\<close> in place.
\<close>

lemma dry_run_blocks_migration:
  assumes "s3_laws c v" "rekey_ok v w" "map_of (rk_entries w) pid = Some e" "rx_dry_run cfg"
    "process_partition c hash cfg env pid w = (Inr (Some Done), w1)"
    "rekey_run c hash cfg' env' w1 = (r, w2)"
  shows "v (rk_store w2) (pe_old_key e) = v (rk_store w) (pe_old_key e)"
proof -
  let ?k = "pe_old_key e"
  have re: "reach v True w pid ?k w1"
    using process_partition_reach [OF assms(1) reach_start [OF assms(2,3)], where cfg = cfg and hash = hash and env = env] assms(4,5) by simp
  have k: "legacy_key ?k" "pid = build_partition_id ?k"
    using assms(2,3) by (simp_all add: rekey_ok_def entries_ok_def entry_ok_def)
  have dry: "v (rk_store w1) ?k = v (rk_store w) ?k"
    using effects_untouched [of True "{?k}"] re k(1) by (simp add: reach_def)
  have "?k \<notin> not_done_keys (rk_file w1)"
    using process_partition_done [OF assms(1-3,5)] k(2) by (auto simp: saved_done_def not_done_keys_def)
  moreover have "run_ok v (rx_dry_run cfg') (not_done_keys (rk_file w1)) w1 w2"
    using rekey_run_ok [OF assms(1) _ assms(6)] re by (simp add: reach_def)
  ultimately have "v (rk_store w2) ?k = v (rk_store w1) ?k"
    using effects_untouched [OF _ k(1)] by (auto simp: run_ok_def)
  with dry show ?thesis by simp
qed

definition example_loaded :: "mem rekey" where
  "example_loaded = fst (populate (\<lambda>x. x) [example_key] example_rekey)"

lemma example_loaded_ok:
  "rekey_ok v example_loaded"
  "map_of (rk_entries example_loaded) (build_partition_id example_key) =
     Some (PartitionEntry (build_partition_id example_key) example_key (legacy_key_to_canonical example_key))"
proof -
  have "populate_one (\<lambda>x. x) example_key (example_rekey, 0) = (example_loaded, 0)"
    by (simp add: populate_one_def example_loaded_def populate_def Let_def sentinel_exists_def example_rekey_def split: prod.splits)
  from populate_one_ok(1) [OF example_rekey_ok example_key_legacy this] show "rekey_ok v example_loaded" .
  show "map_of (rk_entries example_loaded) (build_partition_id example_key) =
     Some (PartitionEntry (build_partition_id example_key) example_key (legacy_key_to_canonical example_key))"
    by (simp add: populate_one_def example_loaded_def populate_def Let_def sentinel_exists_def example_rekey_def
        upsert_pending_def map_of_update_Some build_new_key_def split: prod.splits)
qed

text \<open>
  On an available, versioned store with working files, a live run brings a waiting partition whose object
  carries a digest and whose flat key is free to the end: the object is at the flat key with its
  content and digest, the old key is gone, the sentinel and the manifest say done, and the gauge
  of half-finished partitions is back where it was.
\<close>

lemma rekey_completes:
  assumes "s3_laws c v" "s3_healthy c v up" "up (rk_store w)" "rk_io w = []" "rekey_ok v w" "\<not> rx_dry_run cfg"
    "map_of (rk_entries w) pid = Some e" "pe_status e \<in> {Pending, Copying}"
    "v (rk_store w) (pe_old_key e) = Some ob" "ob_sha256 ob \<noteq> None" "v (rk_store w) (pe_new_key e) = None"
  shows "\<exists>w' ob'. process_partition c hash cfg env pid w = (Inr (Some Done), w') \<and>
     v (rk_store w') = (v (rk_store w))(pe_new_key e \<mapsto> ob', pe_old_key e := None) \<and>
     ob_body ob' = ob_body ob \<and> ob_sha256 ob' = ob_sha256 ob \<and>
     saved_done pid w' \<and> sentinel_exists hash pid w' \<and> rk_partial w' = rk_partial w"
proof -
  let ?k = "pe_old_key e"
  let ?n = "pe_new_key e"
  have e: "get_entry pid w = e" "legacy_key ?k" "?n = legacy_key_to_canonical ?k"
    using assms(5,7) by (simp_all add: get_entry_def rekey_ok_def entries_ok_def entry_ok_def)
  have kn: "?k \<noteq> ?n" using canonical_not_legacy [OF e(2) e(2)] e(3) by auto
  have en: "map_of (rk_entries w) pid \<noteq> None" using assms(7) by simp
  obtain w1 ob' where a: "step_a c hash env pid ?k ?n w = (Inr None, w1)" "tracks pid w w1" "up (rk_store w1)"
    "v (rk_store w1) = (v (rk_store w))(?n \<mapsto> ob')" "ob_body ob' = ob_body ob" "ob_sha256 ob' = ob_sha256 ob" "truthy (ob_version ob')"
    by (rule step_a_up [OF assms(1-4) en assms(9,11)])
  have same: "same_object ob ob'" using a(5,6) assms(10) by (simp add: same_object_def)
  have k1: "v (rk_store w1) ?k = Some ob" "v (rk_store w1) ?n = Some ob'" using a(4) kn assms(9) by simp_all
  have io1: "rk_io w1 = []" "map_of (rk_entries w1) pid \<noteq> None" using a(2) by (simp_all add: tracks_def)
  obtain w2 where b: "step_b c env pid ?k ?n w1 = (Inr None, w2)" "tracks pid w1 w2" "up (rk_store w2)" "v (rk_store w2) = v (rk_store w1)"
    by (rule step_b_up [OF assms(1,2) a(3) io1 k1 same a(7)])
  have io2: "rk_io w2 = []" "map_of (rk_entries w2) pid \<noteq> None" using b(2) by (simp_all add: tracks_def)
  obtain w3 where c: "step_c c hash cfg env pid ?k w2 = (Inr (Some Done), w3)" "rk_partial w3 = rk_partial w2"
    "v (rk_store w3) = (v (rk_store w2))(?k := None)"
    by (rule step_c_up [OF assms(1,2) b(3) io2 assms(6)])
  have "process_partition c hash cfg env pid w = (Inr (Some Done), w3)"
    using a(1) b(1) c(1) assms(8) by (auto simp: process_partition_def Let_def e(1) unless_finished_def)
  then show ?thesis using step_c_done [OF c(1) io2(2)] c(2,3) b(2,4) a(2,4-6) by (auto simp: tracks_def)
qed

lemma mem_healthy: "s3_healthy mem_s3 mem_view m_up"
  unfolding s3_healthy_def
  by (auto simp: mem_s3_def when_up_def mem_store_def mem_view_def map_of_update_Some truthy_def split: option.splits)

end
