(* ===== verification/OrderbookReplay.thy ===== *)
theory OrderbookReplay
  imports Dedup NasKey "HOL-Library.Product_Lexorder"
begin

text \<open>
  \<^verbatim>\<open>orderbook_replay.py\<close> and \<^verbatim>\<open>storage.scan_orderbook_snapshots\<close>: reading ticks and order-book events back
  from the Hive partitions, rebuilding the book at a moment from a baseline and the
  deltas after it, and the report on gaps.

  \<^item> A Parquet file is the list of its rows; decoding it is library code. A stored row is the row
    and the time it was received. The snapshot scan skips files it cannot read: their content is
    \<open>None\<close>.
  \<^item> Prices and quantities of the rebuilt book are numeric values, as Python compares and hashes
    decimals by value; a side of the book is a dictionary from price to quantity.
  \<^item> Directories hold no symbolic links, so \<^verbatim>\<open>resolve()\<close> changes nothing.

  The lemmas show what a scan returns, that the book is the last write to every price level, when
  rebuilding refuses, and three ways in which the baseline handling gives a wrong book.
\<close>

section \<open>Partitions\<close>

definition day_us :: int where "day_us = 86400000000"

text \<open>\<^verbatim>\<open>date().isoformat()\<close> of a day number\<close>

definition date_str :: "int \<Rightarrow> string" where
  "date_str d = strftime_date (d * 86400)"

definition date_range :: "timestamp \<Rightarrow> timestamp \<Rightarrow> string list" where
  "date_range start end' = map date_str [start div day_us .. end' div day_us]"

definition allowed_char :: "char \<Rightarrow> bool" where
  "allowed_char c \<longleftrightarrow>
     CHR ''A'' \<le> c \<and> c \<le> CHR ''Z'' \<or> CHR ''a'' \<le> c \<and> c \<le> CHR ''z'' \<or>
     CHR ''0'' \<le> c \<and> c \<le> CHR ''9'' \<or> c \<in> set ''_.=-''"

text \<open>The pattern's \<^verbatim>\<open>$\<close> also matches before a final line break.\<close>

definition matches_component :: "string \<Rightarrow> bool" where
  "matches_component value \<longleftrightarrow>
     (let body = (if value \<noteq> [] \<and> last value = CHR 0x0A then butlast value else value)
      in body \<noteq> [] \<and> list_all allowed_char body)"

definition safe_path_component :: "string \<Rightarrow> py_error + string" where
  "safe_path_component value =
     (if has_sub ''..'' value \<or> starts_with value ''/'' \<or> starts_with value [CHR 0x5C] then Inl ValueError
      else if \<not> matches_component value then Inl ValueError
      else Inr value)"

definition assert_within_root :: "path \<Rightarrow> path \<Rightarrow> py_error + path" where
  "assert_within_root base candidate =
     (case relative_to candidate base of Inl e \<Rightarrow> Inl ValueError | Inr rel \<Rightarrow> Inr candidate)"

definition partition_dir_of :: "string \<Rightarrow> string \<Rightarrow> path \<Rightarrow> string \<Rightarrow> string \<Rightarrow> string \<Rightarrow> py_error + path" where
  "partition_dir_of table schema_version base exchange symbol dstr =
     (case (safe_path_component exchange, safe_path_component symbol, safe_path_component dstr) of
        (Inr _, Inr _, Inr _) \<Rightarrow>
          assert_within_root base
            (base @ [''market'', table, ''schema_version='' @ schema_version, ''exchange='' @ exchange,
                     ''symbol='' @ symbol, ''date='' @ dstr])
      | _ \<Rightarrow> Inl ValueError)"

definition tick_partition_dir :: "path \<Rightarrow> string \<Rightarrow> string \<Rightarrow> string \<Rightarrow> py_error + path" where
  "tick_partition_dir = partition_dir_of ''ticks'' ''tick.v1''"

definition orderbook_partition_dir :: "path \<Rightarrow> string \<Rightarrow> string \<Rightarrow> string \<Rightarrow> py_error + path" where
  "orderbook_partition_dir = partition_dir_of ''orderbook'' ''orderbook.v1''"

section \<open>Scanning\<close>

text \<open>The columns of a \<^verbatim>\<open>TickRecord\<close> and of an \<^verbatim>\<open>OrderbookEventRecord\<close>.\<close>

definition row_to_tick :: "tick \<Rightarrow> tick" where
  "row_to_tick row = row\<lparr>t_node_id := None, t_payload_hash := None, t_ingest_seq := None\<rparr>"

definition row_to_event :: "ob_event \<Rightarrow> ob_event" where
  "row_to_event row = row\<lparr>o_node_id := None\<rparr>"

type_synonym 'r stored = "timestamp \<times> 'r"

text \<open>Rows with the number of their file in the sorted listing, their position in it and its path.\<close>

definition read_parquet_rows :: "path \<Rightarrow> 'r stored list fsys \<Rightarrow> (nat \<times> nat \<times> 'r stored \<times> path) list" where
  "read_parquet_rows part_dir fs =
     concat (map (\<lambda>(file_offset, fp).
         map (\<lambda>(row_idx, row). (file_offset, row_idx, row, fp))
           (enumerate 0 (case fs_get fs fp of None \<Rightarrow> [] | Some rows \<Rightarrow> rows)))
       (enumerate 0 (fs_rglob part_dir ''.parquet'' fs)))"

text \<open>\<^verbatim>\<open>re.compile("/node=([^/]+)/").search\<close>\<close>

fun node_search :: "string \<Rightarrow> string option" where
  "node_search [] = None"
| "node_search (c # s) =
     (let rest = drop 6 (c # s); name = takeWhile (\<lambda>x. x \<noteq> CHR ''/'') rest in
      if starts_with (c # s) ''/node='' \<and> name \<noteq> [] \<and> length name < length rest then Some name
      else node_search s)"

definition node_of :: "path \<Rightarrow> string" where
  "node_of fp = (case node_search (as_posix fp) of Some n \<Rightarrow> n | None \<Rightarrow> NODE_PRIORITY_DEFAULT_SENTINEL)"

type_synonym 'r scanned = "timestamp \<times> timestamp \<times> nat \<times> nat \<times> 'r \<times> path"

definition visible ::
  "('r \<Rightarrow> timestamp) \<Rightarrow> timestamp \<Rightarrow> timestamp \<Rightarrow> timestamp option \<Rightarrow> 'r stored \<Rightarrow> bool" where
  "visible ts start end' simulated_clock row \<longleftrightarrow>
     start \<le> ts (snd row) \<and> ts (snd row) < end' \<and>
     (case simulated_clock of None \<Rightarrow> True | Some c \<Rightarrow> fst row \<le> c)"

definition scan_day ::
  "('r \<Rightarrow> timestamp) \<Rightarrow> timestamp \<Rightarrow> timestamp \<Rightarrow> timestamp option \<Rightarrow> path \<Rightarrow> 'r stored list fsys \<Rightarrow> 'r scanned list" where
  "scan_day ts start end' simulated_clock part_dir fs =
     map (\<lambda>(off, idx, row, fp). (ts (snd row), fst row, off, idx, snd row, fp))
       (filter (\<lambda>(off, idx, row, fp). visible ts start end' simulated_clock row) (read_parquet_rows part_dir fs))"

fun scan_days ::
  "(string \<Rightarrow> py_error + path) \<Rightarrow> ('r \<Rightarrow> timestamp) \<Rightarrow> timestamp \<Rightarrow> timestamp \<Rightarrow> timestamp option \<Rightarrow> 'r stored list fsys
     \<Rightarrow> string list \<Rightarrow> py_error + 'r scanned list" where
  "scan_days dir ts start end' clock fs [] = Inr []"
| "scan_days dir ts start end' clock fs (d # ds) =
     (case dir d of
        Inl e \<Rightarrow> Inl e
      | Inr part_dir \<Rightarrow>
          (case scan_days dir ts start end' clock fs ds of
             Inl e \<Rightarrow> Inl e
           | Inr rows \<Rightarrow> Inr (scan_day ts start end' clock part_dir fs @ rows)))"

definition scan_sort :: "'r scanned list \<Rightarrow> 'r scanned list" where
  "scan_sort rows = sort_key (\<lambda>(t, r, off, idx, row, fp). (t, r, off, idx)) rows"

definition multi_node :: "'r scanned list \<Rightarrow> bool" where
  "multi_node rows \<longleftrightarrow> 2 \<le> card (set (map (\<lambda>(t, r, off, idx, row, fp). node_of fp) rows))"

text \<open>The two scans have the same text after reading, up to the row type and the deduplication.\<close>

definition scan_result :: "('r \<Rightarrow> 'r) \<Rightarrow> (string \<Rightarrow> 'r \<Rightarrow> 'r) \<Rightarrow> ('r list \<Rightarrow> 'r list) \<Rightarrow> 'r scanned list \<Rightarrow> 'r list" where
  "scan_result convert wrap dd found =
     (let rows = scan_sort found in
      if \<not> multi_node rows then map (\<lambda>(t, r, off, idx, row, fp). convert row) rows
      else map convert (dd (map (\<lambda>(t, r, off, idx, row, fp). wrap (node_of fp) row) rows)))"

definition scan_ticks ::
  "(nat \<Rightarrow> seconds) \<Rightarrow> timestamp \<Rightarrow> tick stored list fsys \<Rightarrow> path \<Rightarrow> string \<Rightarrow> string \<Rightarrow> timestamp \<Rightarrow> timestamp
     \<Rightarrow> timestamp option \<Rightarrow> py_error + tick list" where
  "scan_ticks clk now fs base exchange symbol start end' simulated_clock =
     (case scan_days (tick_partition_dir base exchange symbol) t_ts_utc start end' simulated_clock fs (date_range start end') of
        Inl e \<Rightarrow> Inl e
      | Inr found \<Rightarrow>
          Inr (scan_result row_to_tick (\<lambda>n row. row\<lparr>t_node_id := Some n\<rparr>)
                 (\<lambda>wrapped. emitted (fst (deduplicate_ticks clk now wrapped True None))) found))"

definition scan_orderbook_events ::
  "(nat \<Rightarrow> seconds) \<Rightarrow> timestamp \<Rightarrow> ob_event stored list fsys \<Rightarrow> path \<Rightarrow> string \<Rightarrow> string \<Rightarrow> timestamp \<Rightarrow> timestamp
     \<Rightarrow> timestamp option \<Rightarrow> py_error + ob_event list" where
  "scan_orderbook_events clk now fs base exchange symbol start end' simulated_clock =
     (case scan_days (orderbook_partition_dir base exchange symbol) o_ts_utc start end' simulated_clock fs (date_range start end') of
        Inl e \<Rightarrow> Inl e
      | Inr found \<Rightarrow>
          Inr (scan_result row_to_event (\<lambda>n row. row\<lparr>o_node_id := Some n\<rparr>)
                 (\<lambda>wrapped. emitted (fst (deduplicate_orderbook_events clk now wrapped True None))) found))"

section \<open>Snapshots\<close>

record snapshot_row =
  sn_ts_utc :: timestamp
  sn_baseline_seq :: int
  sn_side :: string
  sn_price :: rat
  sn_quantity :: rat

definition snapshot_dir :: "path \<Rightarrow> string \<Rightarrow> string \<Rightarrow> string \<Rightarrow> path" where
  "snapshot_dir base exchange symbol d =
     base @ [''market'', ''orderbook_snapshot'', ''schema_version=orderbook_snapshot.v1'',
             ''exchange='' @ exchange, ''symbol='' @ symbol, ''date='' @ d]"

definition scan_orderbook_snapshots ::
  "snapshot_row stored list option fsys \<Rightarrow> path \<Rightarrow> string \<Rightarrow> string \<Rightarrow> timestamp \<Rightarrow> timestamp \<Rightarrow> timestamp option \<Rightarrow> snapshot_row list" where
  "scan_orderbook_snapshots fs base exchange symbol start end' simulated_clock =
     sort_key (\<lambda>r. (sn_ts_utc r, sn_baseline_seq r))
       (map snd (filter (visible sn_ts_utc start end' simulated_clock)
         (concat (map (\<lambda>d. concat (map (\<lambda>fp. case fs_get fs fp of Some (Some rows) \<Rightarrow> rows | _ \<Rightarrow> [])
             (fs_rglob (snapshot_dir base exchange symbol d) ''.parquet'' fs)))
           (date_range start end')))))"

type_synonym book_side = "(rat \<times> rat) list"

definition load_level :: "snapshot_row \<Rightarrow> book_side \<times> book_side \<Rightarrow> book_side \<times> book_side" where
  "load_level r = (\<lambda>(bids, asks).
     if 0 < sn_quantity r
     then if sn_side r = ''bid'' then (AList.update (sn_price r) (sn_quantity r) bids, asks)
          else (bids, AList.update (sn_price r) (sn_quantity r) asks)
     else (bids, asks))"

definition load_baseline_from_d14 ::
  "snapshot_row list \<Rightarrow> (timestamp \<times> book_side \<times> book_side) option" where
  "load_baseline_from_d14 records =
     (if records = [] then None
      else let best_seq = Max (set (map sn_baseline_seq records));
               group = filter (\<lambda>r. sn_baseline_seq r = best_seq) records
           in Some (sn_ts_utc (hd group), fold load_level group ([], [])))"

section \<open>Rebuilding the book\<close>

datatype replay_error =
    GapDetectedError timestamp timestamp
  | ReconstructionError
  | ReplayRaised py_error

record orderbook_snapshot =
  os_symbol :: string
  os_ts_utc :: timestamp
  os_bids :: "(rat \<times> rat) list"
  os_asks :: "(rat \<times> rat) list"

definition set_level :: "rat \<Rightarrow> rat \<Rightarrow> book_side \<Rightarrow> book_side" where
  "set_level price quantity side = AList.update price quantity side"

definition apply_delta :: "ob_event \<Rightarrow> book_side \<Rightarrow> book_side" where
  "apply_delta e side =
     (if dval (o_quantity e) = 0 then AList.delete (dval (o_price e)) side
      else set_level (dval (o_price e)) (dval (o_quantity e)) side)"

definition apply_snapshot_level :: "bool \<Rightarrow> ob_event \<Rightarrow> book_side \<Rightarrow> book_side" where
  "apply_snapshot_level clear e side =
     (let base = (if clear then [] else side) in
      if 0 < dval (o_quantity e) then set_level (dval (o_price e)) (dval (o_quantity e)) base else base)"

definition on_side :: "ob_event \<Rightarrow> (book_side \<Rightarrow> book_side) \<Rightarrow> book_side \<times> book_side \<Rightarrow> book_side \<times> book_side" where
  "on_side e f = (\<lambda>(bids, asks). if o_side e = ''bid'' then (f bids, asks) else (bids, f asks))"

definition apply_event :: "timestamp \<Rightarrow> timestamp \<Rightarrow> ob_event \<Rightarrow> book_side \<times> book_side \<Rightarrow> book_side \<times> book_side" where
  "apply_event baseline_ts last_ts e book =
     (if o_event_type e = ''delta'' then on_side e (apply_delta e) book
      else if o_event_type e = ''snapshot'' \<and> o_ts_utc e \<noteq> baseline_ts
      then on_side e (apply_snapshot_level (last_ts \<noteq> o_ts_utc e) e) book
      else book)"

fun fold_events ::
  "rat \<Rightarrow> timestamp \<Rightarrow> timestamp \<Rightarrow> timestamp \<Rightarrow> ob_event list \<Rightarrow> book_side \<times> book_side
     \<Rightarrow> replay_error + book_side \<times> book_side" where
  "fold_events gap baseline_ts ts_utc last_ts [] book = Inr book"
| "fold_events gap baseline_ts ts_utc last_ts (e # es) book =
     (if ts_utc < o_ts_utc e then Inr book
      else if gap < of_int (o_ts_utc e - last_ts) / 1000000 then Inl (GapDetectedError last_ts (o_ts_utc e))
      else if o_ts_utc e < last_ts then Inl ReconstructionError
      else fold_events gap baseline_ts ts_utc (o_ts_utc e) es (apply_event baseline_ts last_ts e book))"

definition in_baseline_group :: "timestamp \<Rightarrow> ob_event \<Rightarrow> bool" where
  "in_baseline_group baseline_ts e \<longleftrightarrow> o_ts_utc e = baseline_ts \<and> o_event_type e = ''snapshot''"

definition d11_baseline :: "ob_event list \<Rightarrow> replay_error + (timestamp \<times> (book_side \<times> book_side) \<times> ob_event list)" where
  "d11_baseline events =
     (case dropWhile (\<lambda>e. o_event_type e \<noteq> ''snapshot'') events of
        [] \<Rightarrow> Inl ReconstructionError
      | e # es \<Rightarrow>
          (let baseline_ts = o_ts_utc e; group = takeWhile (in_baseline_group baseline_ts) (e # es)
           in Inr (baseline_ts, fold (\<lambda>g. on_side g (apply_snapshot_level False g)) group ([], []),
                   dropWhile (in_baseline_group baseline_ts) (e # es))))"

definition choose_baseline ::
  "(timestamp \<times> book_side \<times> book_side) option \<Rightarrow> ob_event list
     \<Rightarrow> replay_error + (timestamp \<times> (book_side \<times> book_side) \<times> ob_event list)" where
  "choose_baseline d14 events =
     (case d14 of
        Some (baseline_ts, book) \<Rightarrow>
          Inr (baseline_ts, book,
               dropWhile (\<lambda>e. \<not> (baseline_ts < o_ts_utc e \<and> o_event_type e = ''delta'')) events)
      | None \<Rightarrow> d11_baseline events)"

definition rebuild ::
  "string \<Rightarrow> timestamp \<Rightarrow> rat \<Rightarrow> (timestamp \<times> book_side \<times> book_side) option \<Rightarrow> ob_event list \<Rightarrow> replay_error + orderbook_snapshot" where
  "rebuild symbol ts_utc gap d14 events =
     (case choose_baseline d14 events of
        Inl x \<Rightarrow> Inl x
      | Inr (baseline_ts, book, rest) \<Rightarrow>
          (case fold_events gap baseline_ts ts_utc baseline_ts rest book of
             Inl x \<Rightarrow> Inl x
           | Inr (bids, asks) \<Rightarrow>
               Inr \<lparr>os_symbol = symbol, os_ts_utc = ts_utc,
                    os_bids = sort_key (\<lambda>(p, q). - p) bids, os_asks = sort_key fst asks\<rparr>))"

definition get_orderbook_at ::
  "(nat \<Rightarrow> seconds) \<Rightarrow> timestamp \<Rightarrow> ob_event stored list fsys \<Rightarrow> snapshot_row stored list option fsys \<Rightarrow> path \<Rightarrow> string \<Rightarrow> string
     \<Rightarrow> timestamp \<Rightarrow> timestamp option \<Rightarrow> rat \<Rightarrow> replay_error + orderbook_snapshot" where
  "get_orderbook_at clk now fs sfs base exchange symbol ts_utc simulated_clock gap =
     (let day_start = ts_utc div day_us * day_us; day_end = day_start + day_us;
          d14 = load_baseline_from_d14 (scan_orderbook_snapshots sfs base exchange symbol day_start day_end simulated_clock)
      in case scan_orderbook_events clk now fs base exchange symbol day_start day_end simulated_clock of
           Inl e \<Rightarrow> Inl (ReplayRaised e)
         | Inr events \<Rightarrow> rebuild symbol ts_utc gap d14 events)"

section \<open>Coverage\<close>

fun coverage_gaps :: "rat \<Rightarrow> timestamp list \<Rightarrow> (timestamp \<times> timestamp \<times> rat) list" where
  "coverage_gaps threshold (a # b # ts) =
     (let gap = of_int (b - a) / 1000000 in
      (if threshold < gap then [(a, b, gap)] else []) @ coverage_gaps threshold (b # ts))"
| "coverage_gaps threshold ts = []"

text \<open>\<^verbatim>\<open>stem.rsplit("-", 1)[0]\<close> where a dash is present\<close>

definition before_last_dash :: "string \<Rightarrow> string" where
  "before_last_dash s = rev (tl (dropWhile (\<lambda>c. c \<noteq> CHR ''-'') (rev s)))"

definition run_id_of :: "string \<Rightarrow> string" where
  "run_id_of stem =
     (if starts_with stem ''part-'' then drop 5 stem
      else if CHR ''-'' \<in> set stem then before_last_dash stem else stem)"

record coverage_report =
  cov_min :: "timestamp option"
  cov_max :: "timestamp option"
  cov_gaps :: "(timestamp \<times> timestamp \<times> rat) list"
  cov_run_ids :: "string list"

definition run_ids :: "path list \<Rightarrow> string list" where
  "run_ids files = sorted_list_of_set (set (map (\<lambda>fp. run_id_of (drop_suffix (path_name fp) ''.parquet'')) files))"

definition coverage_of :: "rat \<Rightarrow> timestamp list \<Rightarrow> path list \<Rightarrow> coverage_report" where
  "coverage_of threshold event_times files =
     (let timestamps = sort event_times
      in \<lparr>cov_min = (if timestamps = [] then None else Some (hd timestamps)),
          cov_max = (if timestamps = [] then None else Some (last timestamps)),
          cov_gaps = coverage_gaps threshold timestamps, cov_run_ids = run_ids files\<rparr>)"

fun partition_files :: "(string \<Rightarrow> py_error + path) \<Rightarrow> 'f fsys \<Rightarrow> string list \<Rightarrow> py_error + path list" where
  "partition_files dir fs [] = Inr []"
| "partition_files dir fs (d # ds) =
     (case dir d of
        Inl e \<Rightarrow> Inl e
      | Inr part_dir \<Rightarrow> (case partition_files dir fs ds of Inl e \<Rightarrow> Inl e
                         | Inr fps \<Rightarrow> Inr (fs_rglob part_dir ''.parquet'' fs @ fps)))"

definition tick_coverage ::
  "(nat \<Rightarrow> seconds) \<Rightarrow> timestamp \<Rightarrow> tick stored list fsys \<Rightarrow> path \<Rightarrow> string \<Rightarrow> string \<Rightarrow> timestamp \<Rightarrow> timestamp \<Rightarrow> rat
     \<Rightarrow> py_error + coverage_report" where
  "tick_coverage clk now fs base exchange symbol start end' threshold =
     (case scan_ticks clk now fs base exchange symbol start end' None of
        Inl e \<Rightarrow> Inl e
      | Inr ticks \<Rightarrow>
          (case partition_files (tick_partition_dir base exchange symbol) fs (date_range start end') of
             Inl e \<Rightarrow> Inl e
           | Inr files \<Rightarrow> Inr (coverage_of threshold (map t_ts_utc ticks) files)))"

definition orderbook_coverage ::
  "(nat \<Rightarrow> seconds) \<Rightarrow> timestamp \<Rightarrow> ob_event stored list fsys \<Rightarrow> path \<Rightarrow> string \<Rightarrow> string \<Rightarrow> timestamp \<Rightarrow> timestamp \<Rightarrow> rat
     \<Rightarrow> py_error + coverage_report" where
  "orderbook_coverage clk now fs base exchange symbol start end' threshold =
     (case scan_orderbook_events clk now fs base exchange symbol start end' None of
        Inl e \<Rightarrow> Inl e
      | Inr events \<Rightarrow>
          (case partition_files (orderbook_partition_dir base exchange symbol) fs (date_range start end') of
             Inl e \<Rightarrow> Inl e
           | Inr files \<Rightarrow> Inr (coverage_of threshold (map o_ts_utc events) files)))"

section \<open>Folding events\<close>

text \<open>The events up to the requested time, and what makes the fold accept them.\<close>

definition upto_ts :: "timestamp \<Rightarrow> ob_event list \<Rightarrow> ob_event list" where
  "upto_ts ts_utc es = takeWhile (\<lambda>e. o_ts_utc e \<le> ts_utc) es"

fun steady :: "rat \<Rightarrow> timestamp \<Rightarrow> ob_event list \<Rightarrow> bool" where
  "steady gap last_ts [] \<longleftrightarrow> True"
| "steady gap last_ts (e # es) \<longleftrightarrow>
     last_ts \<le> o_ts_utc e \<and> of_int (o_ts_utc e - last_ts) / 1000000 \<le> gap \<and> steady gap (o_ts_utc e) es"

fun apply_events :: "timestamp \<Rightarrow> timestamp \<Rightarrow> ob_event list \<Rightarrow> book_side \<times> book_side \<Rightarrow> book_side \<times> book_side" where
  "apply_events baseline_ts last_ts [] book = book"
| "apply_events baseline_ts last_ts (e # es) book =
     apply_events baseline_ts (o_ts_utc e) es (apply_event baseline_ts last_ts e book)"

lemma fold_events_Inr:
  "fold_events gap bt ts last_ts es book = Inr r \<longleftrightarrow>
     steady gap last_ts (upto_ts ts es) \<and> r = apply_events bt last_ts (upto_ts ts es) book"
  by (induction es arbitrary: last_ts book) (auto simp: upto_ts_def not_less not_le)

definition is_delta :: "ob_event \<Rightarrow> bool" where
  "is_delta e \<longleftrightarrow> o_event_type e = ''delta''"

text \<open>The level of a price after the deltas that touch it: the last one decides.\<close>

definition level_after :: "ob_event list \<Rightarrow> rat \<Rightarrow> rat option \<Rightarrow> rat option" where
  "level_after es p old =
     (case filter (\<lambda>e. dval (o_price e) = p) es of
        [] \<Rightarrow> old
      | fs \<Rightarrow> (let q = dval (o_quantity (last fs)) in if q = 0 then None else Some q))"

definition bid_events :: "ob_event list \<Rightarrow> ob_event list" where
  "bid_events es = filter (\<lambda>e. o_side e = ''bid'') es"

definition ask_events :: "ob_event list \<Rightarrow> ob_event list" where
  "ask_events es = filter (\<lambda>e. o_side e \<noteq> ''bid'') es"

lemma level_after_Nil [simp]: "level_after [] p old = old"
  by (simp add: level_after_def)

lemma level_after_Cons:
  "level_after (e # es) p old =
     level_after es p (if dval (o_price e) = p then if dval (o_quantity e) = 0 then None else Some (dval (o_quantity e)) else old)"
  by (simp add: level_after_def Let_def split: list.splits)

lemma apply_delta_lookup:
  "map_of (apply_delta e side) p =
     (if dval (o_price e) = p then if dval (o_quantity e) = 0 then None else Some (dval (o_quantity e)) else map_of side p)"
  by (simp add: apply_delta_def set_level_def map_of_update_Some delete_conv')

lemma apply_events_levels:
  assumes "list_all is_delta es"
  shows "map_of (fst (apply_events bt l es (bids, asks))) p = level_after (bid_events es) p (map_of bids p) \<and>
         map_of (snd (apply_events bt l es (bids, asks))) p = level_after (ask_events es) p (map_of asks p)"
  using assms
proof (induction es arbitrary: l bids asks)
  case (Cons e es)
  have d: "o_event_type e = ''delta''" using Cons.prems by (simp add: is_delta_def)
  show ?case using Cons.IH Cons.prems d
    by (cases "o_side e = ''bid''")
      (simp_all add: apply_event_def on_side_def bid_events_def ask_events_def level_after_Cons apply_delta_lookup)
qed (simp add: bid_events_def ask_events_def)

section \<open>Well-formed books\<close>

definition side_ok :: "book_side \<Rightarrow> bool" where
  "side_ok side \<longleftrightarrow> distinct (map fst side) \<and> (\<forall>(p, q)\<in>set side. 0 < q)"

definition book_ok :: "book_side \<times> book_side \<Rightarrow> bool" where
  "book_ok book \<longleftrightarrow> side_ok (fst book) \<and> side_ok (snd book)"

lemma side_ok_Nil [simp]: "side_ok []"
  by (simp add: side_ok_def)

lemma side_ok_update:
  assumes "side_ok side" "0 < q"
  shows "side_ok (AList.update p q side)"
proof -
  have "set (AList.update p q side) \<subseteq> insert (p, q) (set side)" by (induction side) auto
  then show ?thesis using assms by (auto simp: side_ok_def distinct_update)
qed

lemma side_ok_delete: "side_ok side \<Longrightarrow> side_ok (AList.delete p side)"
  unfolding side_ok_def using set_mp [OF filter_is_subset]
  by (auto simp: AList.delete_eq distinct_map_filter)

definition quantity_ok :: "ob_event \<Rightarrow> bool" where
  "quantity_ok e \<longleftrightarrow> 0 \<le> dval (o_quantity e)"

lemma apply_event_ok:
  assumes "book_ok book" "quantity_ok e"
  shows "book_ok (apply_event bt l e book)"
proof -
  have delta: "side_ok (apply_delta e side)" if "side_ok side" for side
    using that assms(2) by (simp add: apply_delta_def set_level_def side_ok_update side_ok_delete quantity_ok_def)
  have snap: "side_ok (apply_snapshot_level b e side)" if "side_ok side" for b side
    using that by (simp add: apply_snapshot_level_def set_level_def side_ok_update Let_def)
  show ?thesis using assms(1) delta snap
    by (cases book) (auto simp: apply_event_def on_side_def book_ok_def)
qed

lemma apply_events_ok: "book_ok book \<Longrightarrow> list_all quantity_ok es \<Longrightarrow> book_ok (apply_events bt l es book)"
  by (induction es arbitrary: l book) (simp_all add: apply_event_ok)

lemma load_levels_ok: "book_ok book \<Longrightarrow> book_ok (fold load_level rs book)"
proof (induction rs arbitrary: book)
  case (Cons r rs)
  have "book_ok (load_level r book)" using Cons.prems
    by (cases book) (simp add: load_level_def book_ok_def side_ok_update)
  then show ?case by (simp add: Cons.IH)
qed simp

lemma group_ok: "book_ok book \<Longrightarrow> book_ok (fold (\<lambda>g. on_side g (apply_snapshot_level False g)) gs book)"
proof (induction gs arbitrary: book)
  case (Cons g gs)
  have "book_ok (on_side g (apply_snapshot_level False g) book)" using Cons.prems
    by (cases book) (simp add: on_side_def apply_snapshot_level_def set_level_def book_ok_def side_ok_update)
  then show ?case by (simp add: Cons.IH)
qed simp

lemma choose_baseline_ok:
  assumes "choose_baseline (load_baseline_from_d14 records) events = Inr (bt, book, rest)"
  shows "book_ok book" "set rest \<subseteq> set events"
proof -
  have empty: "book_ok ([], [])" by (simp add: book_ok_def)
  have "book_ok book \<and> set rest \<subseteq> set events"
  proof (cases "load_baseline_from_d14 records")
    case (Some x)
    then obtain t b where x: "load_baseline_from_d14 records = Some (t, b)" by (cases x) blast
    then have "book_ok b"
      using load_levels_ok [OF empty] by (auto simp: load_baseline_from_d14_def Let_def split: if_splits)
    then show ?thesis using assms x set_dropWhileD by (fastforce simp: choose_baseline_def)
  next
    case None
    then obtain e es where d: "dropWhile (\<lambda>e. o_event_type e \<noteq> ''snapshot'') events = e # es"
      and r: "book = fold (\<lambda>g. on_side g (apply_snapshot_level False g)) (takeWhile (in_baseline_group (o_ts_utc e)) (e # es)) ([], [])"
        "rest = dropWhile (in_baseline_group (o_ts_utc e)) (e # es)"
      using assms by (auto simp: choose_baseline_def d11_baseline_def Let_def split: list.splits)
    have "set rest \<subseteq> set (e # es)" unfolding r(2) by (meson set_dropWhileD subsetI)
    also have "\<dots> \<subseteq> set events" unfolding d [symmetric] by (meson set_dropWhileD subsetI)
    finally show ?thesis using group_ok [OF empty] r(1) by simp
  qed
  then show "book_ok book" "set rest \<subseteq> set events" by auto
qed

section \<open>What a scan returns\<close>

definition stored_in :: "path \<Rightarrow> 'r stored list fsys \<Rightarrow> 'r stored \<Rightarrow> bool" where
  "stored_in part_dir fs x \<longleftrightarrow> (\<exists>fp rows. fp \<in> set (fs_rglob part_dir ''.parquet'' fs) \<and> fs_get fs fp = Some rows \<and> x \<in> set rows)"

lemma enumerate_member: "(\<exists>i. (i, y) \<in> set (enumerate n ys)) \<longleftrightarrow> y \<in> set ys"
proof -
  have "snd ` set (enumerate n ys) = set ys" by (metis list.set_map map_snd_enumerate)
  then show ?thesis by force
qed

lemma read_parquet_rows_iff:
  "(\<exists>off idx fp. (off, idx, x, fp) \<in> set (read_parquet_rows part_dir fs)) \<longleftrightarrow> stored_in part_dir fs x"
proof -
  have "(\<exists>off idx fp. (off, idx, x, fp) \<in> set (read_parquet_rows part_dir fs)) \<longleftrightarrow>
      (\<exists>fp. (\<exists>off. (off, fp) \<in> set (enumerate 0 (fs_rglob part_dir ''.parquet'' fs))) \<and>
         (\<exists>idx. (idx, x) \<in> set (enumerate 0 (case fs_get fs fp of None \<Rightarrow> [] | Some rows \<Rightarrow> rows))))"
    (is "?l \<longleftrightarrow> ?r")
  proof
    assume ?l
    then show ?r unfolding read_parquet_rows_def by auto
  next
    assume ?r
    then obtain fp off idx where "(off, fp) \<in> set (enumerate 0 (fs_rglob part_dir ''.parquet'' fs))"
      "(idx, x) \<in> set (enumerate 0 (case fs_get fs fp of None \<Rightarrow> [] | Some rows \<Rightarrow> rows))" by blast
    then have "(off, idx, x, fp) \<in> set (read_parquet_rows part_dir fs)"
      unfolding read_parquet_rows_def by (auto intro!: bexI [of _ "(off, fp)"] image_eqI [of _ _ "(idx, x)"])
    then show ?l by blast
  qed
  also have "\<dots> \<longleftrightarrow> stored_in part_dir fs x"
    unfolding enumerate_member stored_in_def
    by (rule ex_cong1) (metis empty_iff list.set(1) option.case_eq_if option.collapse option.simps(5))
  finally show ?thesis .
qed

definition found_row :: "'r scanned \<Rightarrow> 'r stored" where
  "found_row = (\<lambda>(t, r, off, idx, row, fp). (r, row))"

lemma scan_day_iff:
  "x \<in> found_row ` set (scan_day ts start end' clock part_dir fs) \<longleftrightarrow>
     stored_in part_dir fs x \<and> visible ts start end' clock x"
  unfolding read_parquet_rows_iff [symmetric] scan_day_def found_row_def by force

lemma scan_day_time: "(t, r, off, idx, row, fp) \<in> set (scan_day ts start end' clock part_dir fs) \<Longrightarrow> t = ts row"
  by (auto simp: scan_day_def)

lemma scan_days_found:
  assumes "scan_days dir ts start end' clock fs ds = Inr found"
  shows "x \<in> found_row ` set found \<longleftrightarrow>
           (\<exists>d\<in>set ds. \<exists>part_dir. dir d = Inr part_dir \<and> stored_in part_dir fs x \<and> visible ts start end' clock x)"
    "(t, r, off, idx, row, fp) \<in> set found \<Longrightarrow> t = ts row"
  using assms
proof (induction ds arbitrary: found)
  case (Cons d ds)
  {
    case 1
    then obtain pd rest where d: "dir d = Inr pd" "scan_days dir ts start end' clock fs ds = Inr rest"
      "found = scan_day ts start end' clock pd fs @ rest"
      by (auto split: sum.splits)
    then show ?case using Cons.IH(1) [OF d(2)] scan_day_iff [of x ts start end' clock pd fs] by (auto simp: image_Un)
  next
    case 2
    then show ?case using Cons.IH(2) scan_day_time by (fastforce split: sum.splits)
  }
qed auto

lemma sorted_times: "sorted (map (\<lambda>(t, r, off, idx, row, fp). t) (scan_sort found))"
proof -
  have "sorted (map (\<lambda>(t, r, off, idx, row, fp). (t, r, off, idx)) (scan_sort found))"
    unfolding scan_sort_def by (rule sorted_map_sort_key)
  then show ?thesis unfolding sorted_map by (rule sorted_wrt_mono_rel [rotated]) (auto simp: less_eq_prod_def)
qed

locale row_scan = keyed_dedup key ts dd
  for key :: "'r \<Rightarrow> 'k" and ts :: "'r \<Rightarrow> timestamp" and dd :: "'r list \<Rightarrow> 'r list" +
  fixes convert :: "'r \<Rightarrow> 'r" and wrap :: "string \<Rightarrow> 'r \<Rightarrow> 'r"
  assumes key_convert: "key (convert r) = key r" and ts_convert: "ts (convert r) = ts r"
    and key_wrap: "key (wrap n r) = key r" and convert_wrap: "convert (wrap n r) = convert r"
begin

abbreviation result :: "'r scanned list \<Rightarrow> 'r list" where
  "result \<equiv> scan_result convert wrap dd"

lemma result_member: "y \<in> set (result found) \<Longrightarrow> \<exists>x\<in>found_row ` set found. y = convert (snd x)"
proof -
  assume y: "y \<in> set (result found)"
  have "y \<in> convert ` snd ` found_row ` set found"
  proof (cases "multi_node (scan_sort found)")
    case False
    then show ?thesis using y by (auto simp: scan_result_def scan_sort_def found_row_def image_iff case_prod_unfold)
  next
    case True
    then obtain z where z: "z \<in> set (dd (map (\<lambda>(t, r, off, idx, row, fp). wrap (node_of fp) row) (scan_sort found)))" "y = convert z"
      using y by (auto simp: scan_result_def)
    then have "z \<in> set (map (\<lambda>(t, r, off, idx, row, fp). wrap (node_of fp) row) (scan_sort found))" using dd_subset by blast
    then show ?thesis using z(2) convert_wrap by (auto simp: scan_sort_def found_row_def image_iff case_prod_unfold)
  qed
  then show ?thesis by blast
qed

lemma result_complete: "x \<in> found_row ` set found \<Longrightarrow> \<exists>y\<in>set (result found). key y = key (snd x)"
proof -
  assume x: "x \<in> found_row ` set found"
  show ?thesis
  proof (cases "multi_node (scan_sort found)")
    case False
    then show ?thesis using x key_convert by (force simp: scan_result_def scan_sort_def found_row_def)
  next
    case True
    let ?w = "map (\<lambda>(t, r, off, idx, row, fp). wrap (node_of fp) row) (scan_sort found)"
    from x obtain t r off idx row fp where f: "(t, r, off, idx, row, fp) \<in> set found" "x = (r, row)"
      by (auto simp: found_row_def)
    then have "wrap (node_of fp) row \<in> set ?w" by (force simp: scan_sort_def)
    then have "key (snd x) \<in> key ` set ?w" using f(2) key_wrap by (metis imageI snd_conv)
    then have "key (snd x) \<in> key ` set (dd ?w)" by (simp add: dd_keys)
    then show ?thesis using True key_convert by (auto simp: scan_result_def)
  qed
qed

lemma result_sorted:
  assumes "\<And>t r off idx row fp. (t, r, off, idx, row, fp) \<in> set found \<Longrightarrow> t = ts row"
  shows "sorted (map ts (result found))"
proof (cases "multi_node (scan_sort found)")
  case True
  then show ?thesis using dd_sorted by (simp add: scan_result_def comp_def ts_convert)
next
  case False
  have "map ts (result found) = map (\<lambda>(t, r, off, idx, row, fp). t) (scan_sort found)"
    using False assms by (auto simp: scan_result_def scan_sort_def ts_convert)
  then show ?thesis using sorted_times [of found] by simp
qed

end

interpretation tick_scan: row_scan tick_logical_key t_ts_utc
  "\<lambda>rows. emitted (fst (deduplicate_ticks clk now rows True None))" row_to_tick "\<lambda>n row. row\<lparr>t_node_id := Some n\<rparr>" for clk now
  by unfold_locales (simp_all add: row_to_tick_def tick_logical_key_def)

interpretation event_scan: row_scan orderbook_logical_key o_ts_utc
  "\<lambda>rows. emitted (fst (deduplicate_orderbook_events clk now rows True None))" row_to_event "\<lambda>n row. row\<lparr>o_node_id := Some n\<rparr>" for clk now
  by unfold_locales (simp_all add: row_to_event_def orderbook_logical_key_def)

lemma map_of_sort_key:
  assumes "distinct (map fst xs)"
  shows "map_of (sort_key f xs) = map_of xs"
proof (rule map_of_eqI)
  show "set (map fst (sort_key f xs)) = set (map fst xs)" by simp
  have d: "distinct (map fst (sort_key f xs))" by (rule distinct_map_sort_key [OF assms])
  show "\<forall>k\<in>set (map fst (sort_key f xs)). map_of (sort_key f xs) k = map_of xs k"
  proof
    fix k assume "k \<in> set (map fst (sort_key f xs))"
    then obtain v where "(k, v) \<in> set (sort_key f xs)" by auto
    then show "map_of (sort_key f xs) k = map_of xs k" using d assms by (metis map_of_is_SomeI set_sort)
  qed
qed

lemma rebuild_Inr:
  assumes "choose_baseline d14 events = Inr (bt, book, rest)"
  shows "rebuild symbol ts gap d14 events = Inr snap \<longleftrightarrow>
     steady gap bt (upto_ts ts rest) \<and>
     (case apply_events bt bt (upto_ts ts rest) book of (bids, asks) \<Rightarrow>
        snap = \<lparr>os_symbol = symbol, os_ts_utc = ts,
                os_bids = sort_key (\<lambda>(p, q). - p) bids, os_asks = sort_key fst asks\<rparr>)"
proof (cases "fold_events gap bt ts bt rest book")
  case (Inl x)
  then have "\<not> steady gap bt (upto_ts ts rest)" using fold_events_Inr [of gap bt ts bt rest book] by fastforce
  then show ?thesis using assms Inl by (simp add: rebuild_def)
next
  case (Inr r)
  then show ?thesis using assms fold_events_Inr [of gap bt ts bt rest book r] by (auto simp: rebuild_def split: prod.splits)
qed

lemma strict_sorted_keys:
  fixes side :: "(rat \<times> rat) list"
  assumes "distinct (map fst side)"
  shows "sorted_wrt (<) (map fst (sort_key fst side))" "sorted_wrt (>) (map fst (sort_key (\<lambda>(p, q). - p) side))"
proof -
  have d: "distinct (map fst (sort_key f side))" for f :: "rat \<times> rat \<Rightarrow> rat" by (rule distinct_map_sort_key [OF assms])
  have "sorted (map fst (sort_key fst side))" by (rule sorted_map_sort_key)
  with d show "sorted_wrt (<) (map fst (sort_key fst side))" by (simp add: strict_sorted_iff)
  have "sorted (map (\<lambda>(p, q). - p) (sort_key (\<lambda>(p, q). - p) side))" by (rule sorted_map_sort_key)
  moreover have "map (\<lambda>(p, q). - p) xs = map uminus (map fst xs)" for xs :: "(rat \<times> rat) list" by auto
  ultimately have "sorted (map uminus (map fst (sort_key (\<lambda>(p, q). - p) side)))" by metis
  moreover have "distinct (map uminus (map fst (sort_key (\<lambda>(p, q). - p) side)))"
    using d by (simp add: distinct_map inj_on_def)
  ultimately have "sorted_wrt (<) (map uminus (map fst (sort_key (\<lambda>(p, q). - p) side)))" by (simp add: strict_sorted_iff)
  then show "sorted_wrt (>) (map fst (sort_key (\<lambda>(p, q). - p) side))" by (simp add: sorted_wrt_map)
qed

section \<open>Examples\<close>

definition book_event :: "timestamp \<Rightarrow> string \<Rightarrow> string \<Rightarrow> int \<Rightarrow> int \<Rightarrow> ob_event" where
  "book_event t kind side price quantity =
     \<lparr>o_exchange = ''x'', o_symbol = ''s'', o_ts_utc = t, o_event_type = kind, o_side = side, o_level = 0,
      o_price = Dec price 0, o_quantity = Dec quantity 0, o_raw_json = None, o_node_id = None\<rparr>"

text \<open>Midnight of 0001-01-01, whose calendar date takes no counting.\<close>

definition day_one :: timestamp where "day_one = -719162 * 86400000000"

definition example_tick_fs :: "tick stored list fsys" where
  "example_tick_fs =
     [([''r'', ''market'', ''ticks'', ''schema_version=tick.v1'', ''exchange=x'', ''symbol=s'', ''date=0001-01-01'', ''part-a.parquet''],
       [(day_one + 5, (example_tick ''j'' ''n'' ''p'' 1)\<lparr>t_ts_utc := day_one + 4\<rparr>)])]"

definition example_book_fs :: "ob_event stored list fsys" where
  "example_book_fs =
     [([''r'', ''market'', ''orderbook'', ''schema_version=orderbook.v1'', ''exchange=x'', ''symbol=s'', ''date=0001-01-01'', ''part-a.parquet''],
       [(day_one + 5, book_event (day_one + 5) ''snapshot'' ''bid'' 10 1), (day_one + 5, book_event (day_one + 5) ''snapshot'' ''ask'' 12 1),
        (day_one + 7, book_event (day_one + 7) ''delta'' ''bid'' 11 3)])]"

section \<open>Properties\<close>

text \<open>
  C25. What a tick scan returns: in time order, only stored rows of the requested partitions inside the half-open
  interval that had been received by the simulated clock, and for every such row one with its
  logical key.
\<close>

theorem scan_ticks_faithful:
  assumes "scan_ticks clk now fs base exchange symbol start end' clock = Inr out"
  shows "sorted (map t_ts_utc out) \<and>
         (\<forall>y\<in>set out. \<exists>d\<in>set (date_range start end'). \<exists>part_dir x. tick_partition_dir base exchange symbol d = Inr part_dir \<and>
            stored_in part_dir fs x \<and> visible t_ts_utc start end' clock x \<and> y = row_to_tick (snd x)) \<and>
         (\<forall>d\<in>set (date_range start end'). \<forall>part_dir x. tick_partition_dir base exchange symbol d = Inr part_dir \<longrightarrow>
            stored_in part_dir fs x \<longrightarrow> visible t_ts_utc start end' clock x \<longrightarrow>
            (\<exists>y\<in>set out. tick_logical_key y = tick_logical_key (snd x)))"
proof -
  from assms obtain found where f: "scan_days (tick_partition_dir base exchange symbol) t_ts_utc start end' clock fs (date_range start end') = Inr found"
    and out: "out = scan_result row_to_tick (\<lambda>n row. row\<lparr>t_node_id := Some n\<rparr>)
                 (\<lambda>wrapped. emitted (fst (deduplicate_ticks clk now wrapped True None))) found"
    by (auto simp: scan_ticks_def split: sum.splits)
  note found = scan_days_found(1) [OF f]
  have "sorted (map t_ts_utc out)" unfolding out
    by (rule tick_scan.result_sorted) (rule scan_days_found(2) [OF f])
  moreover have "\<exists>d\<in>set (date_range start end'). \<exists>part_dir x. tick_partition_dir base exchange symbol d = Inr part_dir \<and>
      stored_in part_dir fs x \<and> visible t_ts_utc start end' clock x \<and> y = row_to_tick (snd x)" if "y \<in> set out" for y
  proof -
    from tick_scan.result_member [OF that [unfolded out]] obtain x where x: "x \<in> found_row ` set found" "y = row_to_tick (snd x)"
      by (rule bexE)
    from x(1) [unfolded found] obtain d part_dir where "d \<in> set (date_range start end')"
      "tick_partition_dir base exchange symbol d = Inr part_dir" "stored_in part_dir fs x" "visible t_ts_utc start end' clock x"
      by (elim bexE exE conjE)
    with x(2) show ?thesis by blast
  qed
  moreover have "\<exists>y\<in>set out. tick_logical_key y = tick_logical_key (snd x)"
    if "d \<in> set (date_range start end')" "tick_partition_dir base exchange symbol d = Inr part_dir"
      "stored_in part_dir fs x" "visible t_ts_utc start end' clock x" for d part_dir x
  proof -
    have "x \<in> found_row ` set found" unfolding found using that by blast
    then show ?thesis unfolding out by (rule tick_scan.result_complete)
  qed
  ultimately show ?thesis by (intro conjI ballI allI impI)
qed

theorem scan_ticks_faithful_witness:
  "\<exists>y. scan_ticks (\<lambda>_. 0) 0 example_tick_fs [''r''] ''x'' ''s'' day_one (day_one + 9) None = Inr [y] \<and>
     (\<exists>d part_dir x. tick_partition_dir [''r''] ''x'' ''s'' d = Inr part_dir \<and> stored_in part_dir example_tick_fs x \<and> y = row_to_tick (snd x))"
proof -
  let ?y = "row_to_tick ((example_tick ''j'' ''n'' ''p'' 1)\<lparr>t_ts_utc := day_one + 4\<rparr>)"
  have run: "scan_ticks (\<lambda>_. 0) 0 example_tick_fs [''r''] ''x'' ''s'' day_one (day_one + 9) None = Inr [?y]" by code_simp
  have "?y \<in> set [?y]" by simp
  with scan_ticks_faithful [OF run, THEN conjunct2, THEN conjunct1] run show ?thesis by blast
qed

text \<open>
  C26. Rebuilding with deltas returns exactly when no two events up to the requested time are further apart than the
  threshold or out of order, and then every price level holds what the last delta
  for it says, the baseline where there is none.
\<close>

theorem book_is_last_write:
  assumes "choose_baseline (load_baseline_from_d14 records) events = Inr (bt, (bids, asks), rest)"
    "list_all is_delta (upto_ts ts rest)"
  shows "((\<exists>snap. rebuild symbol ts gap (load_baseline_from_d14 records) events = Inr snap) \<longleftrightarrow> steady gap bt (upto_ts ts rest)) \<and>
         (\<forall>snap p. rebuild symbol ts gap (load_baseline_from_d14 records) events = Inr snap \<longrightarrow>
            map_of (os_bids snap) p = level_after (bid_events (upto_ts ts rest)) p (map_of bids p) \<and>
            map_of (os_asks snap) p = level_after (ask_events (upto_ts ts rest)) p (map_of asks p))"
proof -
  obtain b a where r: "apply_events bt bt (upto_ts ts rest) (bids, asks) = (b, a)" by fastforce
  note lv = apply_events_levels [OF assms(2), of bt bt bids asks, unfolded r]
  note rb = rebuild_Inr [OF assms(1), of symbol ts gap, unfolded r prod.case]
  have "distinct (map fst b) \<and> distinct (map fst a)"
  proof -
    have "distinct (map fst (fst (apply_events bt l es (x, y)))) \<and> distinct (map fst (snd (apply_events bt l es (x, y))))"
      if "distinct (map fst x)" "distinct (map fst y)" "list_all is_delta es" for l es x y
      using that
    proof (induction es arbitrary: l x y)
      case (Cons e es)
      have "distinct (map fst (apply_delta e z))" if "distinct (map fst z)" for z
        using that by (simp add: apply_delta_def set_level_def distinct_update distinct_delete)
      then show ?case using Cons by (simp add: apply_event_def is_delta_def on_side_def)
    qed simp
    then show ?thesis using choose_baseline_ok(1) [OF assms(1)] assms(2) r
      by (metis book_ok_def fst_conv side_ok_def snd_conv)
  qed
  then show ?thesis using rb lv by (simp add: map_of_sort_key)
qed

theorem book_is_last_write_witness:
  "\<exists>snap. rebuild ''s'' 9 300 (load_baseline_from_d14 []) [book_event 5 ''snapshot'' ''bid'' 10 1, book_event 7 ''delta'' ''bid'' 11 3] = Inr snap \<and>
     map_of (os_bids snap) 11 = Some 3"
proof -
  let ?es = "[book_event 5 ''snapshot'' ''bid'' 10 1, book_event 7 ''delta'' ''bid'' 11 3]"
  have base: "choose_baseline (load_baseline_from_d14 []) ?es = Inr (5, ([(10, 1)], []), [book_event 7 ''delta'' ''bid'' 11 3])"
    by code_simp
  have "list_all is_delta (upto_ts 9 [book_event 7 ''delta'' ''bid'' 11 3])"
    "steady 300 5 (upto_ts 9 [book_event 7 ''delta'' ''bid'' 11 3])"
    "level_after (bid_events (upto_ts 9 [book_event 7 ''delta'' ''bid'' 11 3])) 11 (map_of [(10 :: rat, 1)] 11) = Some 3" by code_simp+
  then show ?thesis using book_is_last_write [OF base, of 9 "''s''" 300] by auto
qed



lemma snapshot_group_keeps_ask:
  assumes "t \<noteq> bt" "\<forall>e\<in>set es. o_event_type e = ''snapshot'' \<and> o_ts_utc e = t \<and> (o_side e \<noteq> ''bid'' \<longrightarrow> dval (o_price e) \<noteq> p)"
  shows "map_of (snd (apply_events bt t es (bids, asks))) p = map_of asks p"
  using assms(2)
proof (induction es arbitrary: bids asks)
  case (Cons e es)
  have e: "o_event_type e = ''snapshot''" "o_ts_utc e = t" using Cons.prems by auto
  show ?case
  proof (cases "o_side e = ''bid''")
    case True
    then show ?thesis using Cons e assms(1) by (simp add: apply_event_def on_side_def)
  next
    case False
    then have "map_of (apply_snapshot_level False e asks) p = map_of asks p"
      using Cons.prems by (simp add: apply_snapshot_level_def set_level_def map_of_update_Some)
    then show ?thesis using Cons e assms(1) False by (simp add: apply_event_def on_side_def)
  qed
qed simp

text \<open>
  A snapshot in the middle of the day replaces only the side its first row is on. When a bid row opens the
  group, an ask level of the old book whose price the group does not mention is still there
  after the group, next to the new levels.
\<close>

lemma rebaseline_keeps_old_asks:
  assumes "choose_baseline d14 events = Inr (bt, (bids, asks), e # es)" "t \<noteq> bt" "t \<le> ts"
    "o_side e = ''bid''"
    "\<forall>x\<in>set (e # es). o_event_type x = ''snapshot'' \<and> o_ts_utc x = t \<and> (o_side x \<noteq> ''bid'' \<longrightarrow> dval (o_price x) \<noteq> p)"
    "map_of asks p = Some q" "distinct (map fst asks)" "rebuild symbol ts gap d14 events = Inr snap"
  shows "(p, q) \<in> set (os_asks snap)"
proof -
  have e: "o_event_type e = ''snapshot''" "o_ts_utc e = t" using assms(5) by auto
  have up: "upto_ts ts (e # es) = e # es" using assms(3,5) by (simp add: upto_ts_def)
  obtain b where b: "apply_event bt bt e (bids, asks) = (b, asks)"
    using e assms(2,4) by (simp add: apply_event_def on_side_def)
  obtain b' a' where r: "apply_events bt t es (b, asks) = (b', a')" by fastforce
  have "map_of a' p = Some q"
    using snapshot_group_keeps_ask [OF assms(2), of es p b asks] assms(5,6) r by simp
  then have "(p, q) \<in> set a'" by (rule map_of_SomeD)
  moreover have "os_asks snap = sort_key fst a'"
    using rebuild_Inr [OF assms(1), of symbol ts gap snap] assms(8) up e(2) b r by simp
  ultimately show ?thesis by simp
qed

text \<open>
  The stored baseline is the last of the whole day, not the last one before the requested time: asked for a moment
  before it, rebuilding returns that later book unchanged, whatever events are stored.
\<close>

lemma baseline_from_the_future:
  assumes "load_baseline_from_d14 records = Some (bt, bids, asks)" "ts < bt"
  shows "rebuild symbol ts gap (load_baseline_from_d14 records) events =
     Inr \<lparr>os_symbol = symbol, os_ts_utc = ts, os_bids = sort_key (\<lambda>(p, q). - p) bids, os_asks = sort_key fst asks\<rparr>"
proof -
  let ?late = "\<lambda>e. bt < o_ts_utc e \<and> o_event_type e = ''delta''"
  have "upto_ts ts (dropWhile (\<lambda>e. \<not> ?late e) events) = []"
    using assms(2) by (induction events) (auto simp: upto_ts_def)
  then show ?thesis using rebuild_Inr [of "load_baseline_from_d14 records" events bt "(bids, asks)"] assms(1)
    by (simp add: choose_baseline_def)
qed

end
