(* ===== verification/IngestBlocker.thy ===== *)
theory IngestBlocker
  imports Prelude
begin

text \<open>
  \<^verbatim>\<open>capacity_probe.py\<close> and \<^verbatim>\<open>ingest_blocker.py\<close>: measuring how full the four storage layers are, and
  blocking ingestion with hysteresis when one of them is nearly full.

  Ratios and thresholds are exact rationals; the rounding of floats is not modelled. What the file
  system and the bucket report is an input: a directory is the list of the sizes of the files
  the walk reached, with \<open>None\<close> where \<^verbatim>\<open>stat\<close> failed. Of the metrics only the counter of
  blocked ingestion is kept, as the list of its reasons; \<open>b_metrics\<close> says that there is an exporter and that it
  accepts the increment. The gauges are not modelled. The lock is the atomicity of a call.

  The lemmas give the blocker's answer as a function of the whole history of reports, and show
  that a forced block is never lifted.
\<close>

section \<open>Capacity\<close>

record capacity_thresholds =
  th_wal_local_hard_gib :: int
  th_l1_local_hard_gib :: int
  th_nas_bucket_target_gib :: int
  th_nas_bucket_hard_gib :: int
  th_host_disk_hard_gib :: int
  th_warn_ratio :: rat
  th_critical_ratio :: rat

definition CapacityThresholds :: capacity_thresholds where
  "CapacityThresholds =
     \<lparr>th_wal_local_hard_gib = 30, th_l1_local_hard_gib = 20, th_nas_bucket_target_gib = 500,
      th_nas_bucket_hard_gib = 1024, th_host_disk_hard_gib = 200, th_warn_ratio = 80 / 100, th_critical_ratio = 95 / 100\<rparr>"

definition gib :: int where "gib = 1024 ^ 3"

definition wal_hard_bytes :: "capacity_thresholds \<Rightarrow> int" where
  "wal_hard_bytes th = th_wal_local_hard_gib th * gib"

definition l1_hard_bytes :: "capacity_thresholds \<Rightarrow> int" where
  "l1_hard_bytes th = th_l1_local_hard_gib th * gib"

definition nas_hard_bytes :: "capacity_thresholds \<Rightarrow> int" where
  "nas_hard_bytes th = th_nas_bucket_hard_gib th * gib"

definition host_hard_bytes :: "capacity_thresholds \<Rightarrow> int" where
  "host_hard_bytes th = th_host_disk_hard_gib th * gib"

record capacity_report =
  wal_usage :: int
  l1_usage :: int
  nas_usage :: int
  host_usage :: int
  wal_hard :: int
  l1_hard :: int
  nas_hard :: int
  host_hard :: int

definition usage_ratio :: "int \<Rightarrow> int \<Rightarrow> rat" where
  "usage_ratio usage hard = (if 0 < hard then of_int usage / of_int hard else 0)"

definition wal_ratio :: "capacity_report \<Rightarrow> rat" where
  "wal_ratio r = usage_ratio (wal_usage r) (wal_hard r)"

definition l1_ratio :: "capacity_report \<Rightarrow> rat" where
  "l1_ratio r = usage_ratio (l1_usage r) (l1_hard r)"

definition nas_ratio :: "capacity_report \<Rightarrow> rat" where
  "nas_ratio r = usage_ratio (nas_usage r) (nas_hard r)"

definition host_ratio :: "capacity_report \<Rightarrow> rat" where
  "host_ratio r = usage_ratio (host_usage r) (host_hard r)"

definition max_ratio :: "capacity_report \<Rightarrow> rat" where
  "max_ratio r = max (max (max (wal_ratio r) (l1_ratio r)) (nas_ratio r)) (host_ratio r)"

definition layer_ratios :: "capacity_report \<Rightarrow> (string \<times> rat) list" where
  "layer_ratios r =
     [(''WAL_local'', wal_ratio r), (''L1_local'', l1_ratio r), (''NAS_bucket'', nas_ratio r), (''Host_disk'', host_ratio r)]"

definition layer_ratio :: "string \<Rightarrow> capacity_report \<Rightarrow> rat" where
  "layer_ratio layer r = (case map_of (layer_ratios r) layer of None \<Rightarrow> 0 | Some x \<Rightarrow> x)"

record probe_env =
  pr_wal_dir :: "int option list option"
  pr_l1_dir :: "int option list option"
  pr_nas_pages :: "py_error + int list list"
  pr_host_used :: "py_error + int"

text \<open>A missing directory, a failing listing and a failing \<^verbatim>\<open>disk_usage\<close> count as zero bytes.\<close>

definition probe_dir_bytes :: "int option list option \<Rightarrow> int" where
  "probe_dir_bytes dir =
     (case dir of None \<Rightarrow> 0 | Some files \<Rightarrow> sum_list (map (\<lambda>f. case f of None \<Rightarrow> 0 | Some n \<Rightarrow> n) files))"

definition probe_nas_bytes :: "py_error + int list list \<Rightarrow> int" where
  "probe_nas_bytes pages = (case pages of Inl e \<Rightarrow> 0 | Inr ps \<Rightarrow> sum_list (concat ps))"

definition probe_host_bytes :: "py_error + int \<Rightarrow> int" where
  "probe_host_bytes used = (case used of Inl e \<Rightarrow> 0 | Inr n \<Rightarrow> n)"

definition probe_once :: "capacity_thresholds \<Rightarrow> probe_env \<Rightarrow> capacity_report" where
  "probe_once th env =
     \<lparr>wal_usage = probe_dir_bytes (pr_wal_dir env), l1_usage = probe_dir_bytes (pr_l1_dir env),
      nas_usage = probe_nas_bytes (pr_nas_pages env), host_usage = probe_host_bytes (pr_host_used env),
      wal_hard = wal_hard_bytes th, l1_hard = l1_hard_bytes th, nas_hard = nas_hard_bytes th, host_hard = host_hard_bytes th\<rparr>"

definition measure_wal_bytes :: "probe_env \<Rightarrow> int" where
  "measure_wal_bytes env = probe_dir_bytes (pr_wal_dir env)"

definition next_interval :: "py_error + capacity_report \<Rightarrow> seconds" where
  "next_interval r =
     (case r of Inl e \<Rightarrow> 300 | Inr report \<Rightarrow> if 80 / 100 \<le> max_ratio report then 15 else 300)"

text \<open>The waits of the loop, one per round until the stop event is set.\<close>

definition probe_loop :: "(py_error + capacity_report) list \<Rightarrow> seconds list" where
  "probe_loop rounds = map next_interval rounds"

section \<open>The blocker\<close>

datatype blocker_state = NORMAL | WARN_DRAIN | BLOCKED

record blocker =
  b_thresholds :: capacity_thresholds
  b_hysteresis_gap :: rat
  b_state :: blocker_state
  b_force_blocked :: bool
  b_metrics :: bool
  b_reasons :: "string list"

definition blocker_init :: "capacity_thresholds \<Rightarrow> bool \<Rightarrow> rat \<Rightarrow> blocker" where
  "blocker_init th metrics gap =
     \<lparr>b_thresholds = th, b_hysteresis_gap = gap, b_state = NORMAL, b_force_blocked = False,
      b_metrics = metrics, b_reasons = []\<rparr>"

definition ALLOWED_BLOCK_REASONS :: "string set" where
  "ALLOWED_BLOCK_REASONS = {''wal_full'', ''l1_full'', ''nas_unreachable''}"

definition reason_of :: "string \<Rightarrow> string" where
  "reason_of layer =
     (case map_of [(''WAL_local'', ''wal_full''), (''L1_local'', ''l1_full''), (''NAS_bucket'', ''nas_unreachable''),
                   (''Host_disk'', ''wal_full'')] layer of
        None \<Rightarrow> ''wal_full'' | Some r \<Rightarrow> r)"

definition emit_blocked :: "string \<Rightarrow> blocker \<Rightarrow> blocker" where
  "emit_blocked layer b = (if b_metrics b then b\<lparr>b_reasons := b_reasons b @ [reason_of layer]\<rparr> else b)"

definition should_block :: "capacity_report \<Rightarrow> blocker \<Rightarrow> bool \<times> blocker" where
  "should_block report b =
     (let critical = th_critical_ratio (b_thresholds b); warn = th_warn_ratio (b_thresholds b);
          unblock = critical - b_hysteresis_gap b; ratios = layer_ratios report
      in if b_force_blocked b then (True, b)
         else let max_r = Max (set (map snd ratios));
                  critical_layers = map fst (filter (\<lambda>(l, r). critical \<le> r) ratios);
                  warn_layers = map fst (filter (\<lambda>(l, r). warn \<le> r) ratios)
              in if critical_layers \<noteq> [] then (True, fold emit_blocked critical_layers (b\<lparr>b_state := BLOCKED\<rparr>))
                 else if b_state b = BLOCKED
                 then if unblock \<le> max_r then (True, b) else (False, b\<lparr>b_state := NORMAL\<rparr>)
                 else if warn_layers \<noteq> [] then (False, b\<lparr>b_state := WARN_DRAIN\<rparr>)
                 else (False, b\<lparr>b_state := NORMAL\<rparr>))"

definition on_capacity_warn :: "string \<Rightarrow> rat \<Rightarrow> blocker \<Rightarrow> blocker" where
  "on_capacity_warn layer ratio b = (if b_state b = NORMAL then b\<lparr>b_state := WARN_DRAIN\<rparr> else b)"

definition on_capacity_critical :: "string \<Rightarrow> rat \<Rightarrow> blocker \<Rightarrow> blocker" where
  "on_capacity_critical layer ratio b = emit_blocked layer (b\<lparr>b_force_blocked := True, b_state := BLOCKED\<rparr>)"

definition is_blocked :: "blocker \<Rightarrow> bool" where
  "is_blocked b \<longleftrightarrow> b_state b = BLOCKED \<or> b_force_blocked b"

section \<open>Histories\<close>

datatype blocker_call = ShouldBlock capacity_report | Warn string rat | Critical string rat

fun blocker_call_step :: "blocker_call \<Rightarrow> blocker \<Rightarrow> blocker" where
  "blocker_call_step (ShouldBlock r) b = snd (should_block r b)"
| "blocker_call_step (Warn l r) b = on_capacity_warn l r b"
| "blocker_call_step (Critical l r) b = on_capacity_critical l r b"

definition blocker_run :: "blocker_call list \<Rightarrow> blocker \<Rightarrow> blocker" where
  "blocker_run calls b = fold blocker_call_step calls b"

text \<open>Some report was critical and none since then was below the release level.\<close>

definition held :: "rat \<Rightarrow> rat \<Rightarrow> capacity_report list \<Rightarrow> bool" where
  "held critical unblock rs \<longleftrightarrow>
     (\<exists>ys z zs. rs = ys @ z # zs \<and> critical \<le> max_ratio z \<and> (\<forall>x\<in>set zs. unblock \<le> max_ratio x))"

lemma held_Nil [simp]: "\<not> held c u []"
  by (simp add: held_def)

lemma held_snoc: "held c u (rs @ [r]) \<longleftrightarrow> c \<le> max_ratio r \<or> held c u rs \<and> u \<le> max_ratio r"
proof
  assume "held c u (rs @ [r])"
  then obtain ys z zs where h: "rs @ [r] = ys @ z # zs" "c \<le> max_ratio z" "\<forall>x\<in>set zs. u \<le> max_ratio x"
    by (auto simp: held_def)
  show "c \<le> max_ratio r \<or> held c u rs \<and> u \<le> max_ratio r"
  proof (cases zs rule: rev_cases)
    case Nil
    then show ?thesis using h by simp
  next
    case (snoc zs' x)
    then show ?thesis using h by (auto simp: held_def)
  qed
next
  assume "c \<le> max_ratio r \<or> held c u rs \<and> u \<le> max_ratio r"
  then show "held c u (rs @ [r])"
  proof
    assume "c \<le> max_ratio r"
    then show ?thesis unfolding held_def by (intro exI [of _ rs] exI [of _ r] exI [of _ "[]"]) simp
  next
    assume a: "held c u rs \<and> u \<le> max_ratio r"
    then obtain ys z zs where "rs = ys @ z # zs" "c \<le> max_ratio z" "\<forall>x\<in>set zs. u \<le> max_ratio x" by (auto simp: held_def)
    with a show ?thesis unfolding held_def by (intro exI [of _ ys] exI [of _ z] exI [of _ "zs @ [r]"]) auto
  qed
qed

lemma max_layer: "Max (set (map snd (layer_ratios r))) = max_ratio r"
  by (simp add: layer_ratios_def max_ratio_def max.assoc max.commute max.left_commute)

lemma critical_layers_iff: "filter (\<lambda>(l, x). c \<le> x) (layer_ratios r) \<noteq> [] \<longleftrightarrow> c \<le> max_ratio r"
  by (auto simp: layer_ratios_def max_ratio_def le_max_iff_disj filter_empty_conv)

lemma emit_blocked_fields [simp]:
  "b_state (emit_blocked l b) = b_state b" "b_force_blocked (emit_blocked l b) = b_force_blocked b"
  "b_thresholds (emit_blocked l b) = b_thresholds b" "b_hysteresis_gap (emit_blocked l b) = b_hysteresis_gap b"
  "b_metrics (emit_blocked l b) = b_metrics b"
  by (simp_all add: emit_blocked_def)

lemma emit_all_fields [simp]:
  "b_state (fold emit_blocked ls b) = b_state b" "b_force_blocked (fold emit_blocked ls b) = b_force_blocked b"
  "b_thresholds (fold emit_blocked ls b) = b_thresholds b" "b_hysteresis_gap (fold emit_blocked ls b) = b_hysteresis_gap b"
  "b_metrics (fold emit_blocked ls b) = b_metrics b"
  by (induction ls arbitrary: b) simp_all

definition reasons_ok :: "blocker \<Rightarrow> bool" where
  "reasons_ok b \<longleftrightarrow> set (b_reasons b) \<subseteq> ALLOWED_BLOCK_REASONS"

lemma emit_blocked_ok: "reasons_ok b \<Longrightarrow> reasons_ok (emit_blocked l b)"
  by (auto simp: reasons_ok_def emit_blocked_def reason_of_def ALLOWED_BLOCK_REASONS_def)

lemma emit_all_ok: "reasons_ok b \<Longrightarrow> reasons_ok (fold emit_blocked ls b)"
  by (induction ls arbitrary: b) (simp_all add: emit_blocked_ok)

lemma blocker_call_ok: "reasons_ok b \<Longrightarrow> reasons_ok (blocker_call_step call b)"
proof (induction call b rule: blocker_call_step.induct)
  case (1 r b)
  have "reasons_ok (b\<lparr>b_state := x\<rparr>)" for x using 1 by (simp add: reasons_ok_def)
  with 1 show ?case by (simp add: should_block_def Let_def emit_all_ok)
next
  case (2 l r b)
  then show ?case by (simp add: on_capacity_warn_def reasons_ok_def)
next
  case (3 l r b)
  then have "reasons_ok (b\<lparr>b_force_blocked := True, b_state := BLOCKED\<rparr>)" by (simp add: reasons_ok_def)
  then show ?case by (simp add: on_capacity_critical_def emit_blocked_ok)
qed

lemma blocker_run_ok: "reasons_ok b \<Longrightarrow> reasons_ok (blocker_run calls b)"
  unfolding blocker_run_def by (induction calls arbitrary: b) (simp_all add: blocker_call_ok)

lemma should_block_unforced:
  assumes "\<not> b_force_blocked b" "should_block r b = (ans, b')"
  shows "ans \<longleftrightarrow> th_critical_ratio (b_thresholds b) \<le> max_ratio r \<or>
           b_state b = BLOCKED \<and> th_critical_ratio (b_thresholds b) - b_hysteresis_gap b \<le> max_ratio r"
    "ans \<longleftrightarrow> b_state b' = BLOCKED" "\<not> b_force_blocked b'" "b_thresholds b' = b_thresholds b"
    "b_hysteresis_gap b' = b_hysteresis_gap b"
  using assms unfolding should_block_def Let_def max_layer map_is_Nil_conv critical_layers_iff
  by (auto split: if_splits)

lemma blocker_history:
  "\<not> b_force_blocked (blocker_run (map ShouldBlock rs) (blocker_init th m gap)) \<and>
   b_thresholds (blocker_run (map ShouldBlock rs) (blocker_init th m gap)) = th \<and>
   b_hysteresis_gap (blocker_run (map ShouldBlock rs) (blocker_init th m gap)) = gap \<and>
   (b_state (blocker_run (map ShouldBlock rs) (blocker_init th m gap)) = BLOCKED \<longleftrightarrow>
      held (th_critical_ratio th) (th_critical_ratio th - gap) rs)"
proof (induction rs rule: rev_induct)
  case Nil
  then show ?case by (simp add: blocker_run_def blocker_init_def)
next
  case (snoc r rs)
  let ?b = "blocker_run (map ShouldBlock rs) (blocker_init th m gap)"
  obtain ans b' where s: "should_block r ?b = (ans, b')" by fastforce
  have run: "blocker_run (map ShouldBlock (rs @ [r])) (blocker_init th m gap) = b'"
    using s by (simp add: blocker_run_def)
  show ?case unfolding run held_snoc using should_block_unforced [OF _ s] snoc by metis
qed

lemma forced_step: "b_force_blocked b \<Longrightarrow> b_force_blocked (blocker_call_step call b)"
  by (induction call b rule: blocker_call_step.induct)
    (simp_all add: should_block_def Let_def on_capacity_warn_def on_capacity_critical_def)

lemma forced_run: "b_force_blocked b \<Longrightarrow> b_force_blocked (blocker_run calls b)"
  unfolding blocker_run_def by (induction calls arbitrary: b) (simp_all add: forced_step)

section \<open>Properties\<close>


text \<open>
  A block forced by \<^verbatim>\<open>on_capacity_critical\<close> is never lifted: after it, whatever is called and however empty
  the layers become, every report is answered with a refusal.
\<close>

lemma forced_block_is_permanent:
  "fst (should_block r (blocker_run calls (on_capacity_critical layer ratio b)))"
proof -
  have "b_force_blocked (on_capacity_critical layer ratio b)" by (simp add: on_capacity_critical_def)
  from forced_run [OF this] show ?thesis by (simp add: should_block_def Let_def)
qed

end
