(* ===== verification/EndpointRouter.thy ===== *)
theory EndpointRouter
  imports Prelude
begin

text \<open>
  \<^verbatim>\<open>io/endpoint_router.py\<close>: which NAS endpoint the readers use, the flip to a new endpoint, its rollback, and the
  grace mode that follows a flip.

  The environment variable is the field \<open>rt_env\<close>: it outlives the router, and a restarted router reads it.
  The client factory (boto3 unless the caller passes another) is a parameter of each call, since a later call may fail where
  an earlier one succeeded; \<open>host\<close> reads \<^verbatim>\<open>client._endpoint.host\<close>. A start time is kept as what
  \<^verbatim>\<open>datetime.fromisoformat\<close> makes of the string. Durations and log lines are not modelled.

  The lemmas show that the client always belongs to the current endpoint, that a refused flip
  nevertheless takes effect at the next restart, and that a masked endpoint shows nothing of the credentials.
\<close>

section \<open>Masking\<close>

text \<open>\<^verbatim>\<open>s.split("://", 1)[1]\<close> and \<^verbatim>\<open>s.rsplit("@", 1)[1]\<close>, for a separator that is present.\<close>

fun after_scheme :: "string \<Rightarrow> string" where
  "after_scheme [] = []"
| "after_scheme (c # s) = (if starts_with (c # s) ''://'' then drop 3 (c # s) else after_scheme s)"

definition after_last :: "char \<Rightarrow> string \<Rightarrow> string" where
  "after_last c s = rev (takeWhile (\<lambda>x. x \<noteq> c) (rev s))"

definition mask_endpoint :: "string \<Rightarrow> string" where
  "mask_endpoint endpoint_url =
     (if endpoint_url = [] then ''<empty>''
      else let body = (if has_sub ''://'' endpoint_url then after_scheme endpoint_url else endpoint_url);
               body = (if CHR ''@'' \<in> set body then after_last CHR ''@'' body else body)
           in if CHR ''/'' \<in> set body then hd (split_max CHR ''/'' 1 body) else body)"

section \<open>The router\<close>

datatype iso_time = NoTime | Malformed | At timestamp

record grace_mode =
  gm_active :: bool
  gm_started_at :: iso_time
  gm_grace_days :: int
  gm_last_verify :: string
  gm_last_status :: string

definition GraceModeState :: grace_mode where
  "GraceModeState = \<lparr>gm_active = False, gm_started_at = NoTime, gm_grace_days = 7, gm_last_verify = [], gm_last_status = []\<rparr>"

text \<open>The state file: absent, not a mapping with convertible values, or a mapping with any of the known keys.\<close>

record grace_yaml =
  gy_active :: "bool option"
  gy_started_at :: "iso_time option"
  gy_grace_days :: "int option"
  gy_last_verify :: "string option"
  gy_last_status :: "string option"

datatype grace_file = GraceMissing | GraceCorrupt | GraceYaml grace_yaml

definition dict_get :: "'a option \<Rightarrow> 'a \<Rightarrow> 'a" where
  "dict_get v d = (case v of None \<Rightarrow> d | Some x \<Rightarrow> x)"

definition reload_grace_state :: "grace_file \<Rightarrow> grace_mode" where
  "reload_grace_state f =
     (case f of GraceMissing \<Rightarrow> GraceModeState | GraceCorrupt \<Rightarrow> GraceModeState
      | GraceYaml y \<Rightarrow>
          \<lparr>gm_active = dict_get (gy_active y) False, gm_started_at = dict_get (gy_started_at y) NoTime,
           gm_grace_days = dict_get (gy_grace_days y) 7, gm_last_verify = dict_get (gy_last_verify y) [],
           gm_last_status = dict_get (gy_last_status y) []\<rparr>)"

record 'c router =
  rt_env :: "string option"
  rt_endpoint_url :: string
  rt_client :: "'c option"
  rt_grace :: grace_mode

type_synonym 'c factory = "string \<Rightarrow> py_error + 'c"

definition reload_endpoint :: "'c factory \<Rightarrow> 'c router \<Rightarrow> 'c router" where
  "reload_endpoint mk r =
     (let url = dict_get (rt_env r) []; r = r\<lparr>rt_endpoint_url := url\<rparr>
      in if url \<noteq> [] then (case mk url of Inl e \<Rightarrow> r\<lparr>rt_client := None\<rparr> | Inr c \<Rightarrow> r\<lparr>rt_client := Some c\<rparr>)
         else r\<lparr>rt_client := None\<rparr>)"

definition router_init :: "'c factory \<Rightarrow> grace_file \<Rightarrow> string option \<Rightarrow> 'c router" where
  "router_init mk f env =
     (let r = reload_endpoint mk \<lparr>rt_env = env, rt_endpoint_url = [], rt_client = None, rt_grace = GraceModeState\<rparr>
      in r\<lparr>rt_grace := reload_grace_state f\<rparr>)"

datatype flip_status =
  flipped | cache_flush_required | legacy_partition_detected | dual_write_grace_active | flip_blocked

record flip_result =
  fr_status :: flip_status
  fr_new_endpoint :: string
  fr_previous_endpoint :: string
  fr_grace_started_at :: iso_time
  fr_grace_remaining_days :: int

definition blocked_result :: "string \<Rightarrow> string \<Rightarrow> flip_result" where
  "blocked_result new prev =
     \<lparr>fr_status = flip_blocked, fr_new_endpoint = new, fr_previous_endpoint = prev, fr_grace_started_at = NoTime, fr_grace_remaining_days = 0\<rparr>"

text \<open>\<^verbatim>\<open>int(x)\<close> rounds toward zero.\<close>

definition trunc_int :: "rat \<Rightarrow> int" where
  "trunc_int x = (if 0 \<le> x then \<lfloor>x\<rfloor> else \<lceil>x\<rceil>)"

definition grace_remaining_days :: "timestamp \<Rightarrow> grace_mode \<Rightarrow> int" where
  "grace_remaining_days now g =
     (if \<not> gm_active g then 0
      else case gm_started_at g of
          NoTime \<Rightarrow> 0 | Malformed \<Rightarrow> 0
        | At started \<Rightarrow> max 0 (trunc_int (of_int (gm_grace_days g) - of_int (now - started) / 1000000 / 86400)))"

definition flip ::
  "'c factory \<Rightarrow> ('c \<Rightarrow> string option) \<Rightarrow> timestamp \<Rightarrow> string \<Rightarrow> bool \<Rightarrow> int \<Rightarrow> 'c router \<Rightarrow> flip_result \<times> 'c router" where
  "flip mk host now new_endpoint activate_grace grace_days r =
     (if gm_active (rt_grace r)
      then (\<lparr>fr_status = dual_write_grace_active, fr_new_endpoint = rt_endpoint_url r, fr_previous_endpoint = rt_endpoint_url r,
             fr_grace_started_at = gm_started_at (rt_grace r), fr_grace_remaining_days = grace_remaining_days now (rt_grace r)\<rparr>, r)
      else let prev = rt_endpoint_url r; r = r\<lparr>rt_env := Some new_endpoint\<rparr>
        in case mk new_endpoint of
             Inl e \<Rightarrow> (blocked_result new_endpoint prev, r)
           | Inr c \<Rightarrow>
               let r = r\<lparr>rt_client := Some c, rt_endpoint_url := new_endpoint\<rparr>
               in if dict_get (host c) [] \<noteq> [] \<and> dict_get (host c) [] \<noteq> new_endpoint
                  then (blocked_result new_endpoint prev, r)
                  else if activate_grace
                  then (\<lparr>fr_status = flipped, fr_new_endpoint = new_endpoint, fr_previous_endpoint = prev,
                         fr_grace_started_at = At now, fr_grace_remaining_days = grace_days\<rparr>,
                        r\<lparr>rt_grace := rt_grace r\<lparr>gm_active := True, gm_started_at := At now, gm_grace_days := grace_days\<rparr>\<rparr>)
                  else (\<lparr>fr_status = flipped, fr_new_endpoint = new_endpoint, fr_previous_endpoint = prev,
                         fr_grace_started_at = NoTime, fr_grace_remaining_days = 0\<rparr>, r))"

definition rollback :: "'c factory \<Rightarrow> string \<Rightarrow> 'c router \<Rightarrow> flip_result \<times> 'c router" where
  "rollback mk previous_endpoint r =
     (let prior = rt_endpoint_url r; r = r\<lparr>rt_env := Some previous_endpoint\<rparr>
      in case mk previous_endpoint of
           Inl e \<Rightarrow> (blocked_result previous_endpoint prior, r)
         | Inr c \<Rightarrow>
             (\<lparr>fr_status = flipped, fr_new_endpoint = previous_endpoint, fr_previous_endpoint = prior,
               fr_grace_started_at = NoTime, fr_grace_remaining_days = 0\<rparr>,
              r\<lparr>rt_client := Some c, rt_endpoint_url := previous_endpoint, rt_grace := rt_grace r\<lparr>gm_active := False\<rparr>\<rparr>))"

definition activate_grace_mode :: "timestamp \<Rightarrow> int \<Rightarrow> 'c router \<Rightarrow> 'c router" where
  "activate_grace_mode now grace_days r =
     (let g = rt_grace r; g = (if \<not> gm_active g then g\<lparr>gm_started_at := At now\<rparr> else g)
      in r\<lparr>rt_grace := g\<lparr>gm_active := True, gm_grace_days := grace_days\<rparr>\<rparr>)"

section \<open>Histories\<close>

datatype 'c router_call =
    Flip "'c factory" timestamp string bool int
  | Rollback "'c factory" string
  | ActivateGrace timestamp int

primrec router_step :: "('c \<Rightarrow> string option) \<Rightarrow> 'c router_call \<Rightarrow> 'c router \<Rightarrow> 'c router" where
  "router_step host (Flip mk now new act days) r = snd (flip mk host now new act days r)"
| "router_step host (Rollback mk prev) r = snd (rollback mk prev r)"
| "router_step host (ActivateGrace now days) r = activate_grace_mode now days r"

primrec call_factory :: "'c router_call \<Rightarrow> 'c factory option" where
  "call_factory (Flip mk now new act days) = Some mk"
| "call_factory (Rollback mk prev) = Some mk"
| "call_factory (ActivateGrace now days) = None"

text \<open>\<open>makes_for url_of mk\<close>: a client made for an endpoint talks to that endpoint.\<close>

definition makes_for :: "('c \<Rightarrow> string) \<Rightarrow> 'c factory \<Rightarrow> bool" where
  "makes_for url_of mk \<longleftrightarrow> (\<forall>u c. mk u = Inr c \<longrightarrow> url_of c = u)"

definition in_step :: "('c \<Rightarrow> string) \<Rightarrow> 'c router \<Rightarrow> bool" where
  "in_step url_of r \<longleftrightarrow> (\<forall>c. rt_client r = Some c \<longrightarrow> url_of c = rt_endpoint_url r)"

lemma init_in_step: "makes_for url_of mk \<Longrightarrow> in_step url_of (router_init mk f env)"
  by (auto simp: router_init_def reload_endpoint_def Let_def in_step_def makes_for_def split: sum.splits)

lemma router_step_in_step:
  assumes "in_step url_of r" "\<And>mk. call_factory call = Some mk \<Longrightarrow> makes_for url_of mk"
  shows "in_step url_of (router_step host call r)"
proof (cases call)
  case (Flip mk now new act days)
  with assms show ?thesis
    by (cases "mk new") (auto simp: flip_def Let_def in_step_def makes_for_def)
next
  case (Rollback mk prev)
  with assms show ?thesis
    by (cases "mk prev") (auto simp: rollback_def Let_def in_step_def makes_for_def)
next
  case (ActivateGrace now days)
  with assms show ?thesis by (simp add: activate_grace_mode_def Let_def in_step_def)
qed

lemma router_run_in_step:
  assumes "in_step url_of r" "\<forall>call\<in>set calls. \<forall>mk. call_factory call = Some mk \<longrightarrow> makes_for url_of mk"
  shows "in_step url_of (fold (router_step host) calls r)"
  using assms by (induction calls arbitrary: r) (simp_all add: router_step_in_step)

lemma after_scheme_suffix: "\<exists>a. s = a @ after_scheme s"
proof (induction s rule: after_scheme.induct)
  case (2 c s)
  show ?case
  proof (cases "starts_with (c # s) ''://''")
    case True
    have "c # s = take 3 (c # s) @ drop 3 (c # s)" by (rule append_take_drop_id [symmetric])
    with True show ?thesis by (metis after_scheme.simps(2))
  next
    case False
    with 2 show ?thesis by (metis after_scheme.simps(2) append_Cons)
  qed
qed simp

lemma after_last_append: "c \<notin> set post \<Longrightarrow> after_last c (pre @ c # post) = post"
  by (simp add: after_last_def takeWhile_append)

lemma suffix_with_sep:
  assumes "pre @ c # post = a @ b" "c \<notin> set post"
  shows "if c \<in> set b then after_last c b = post else (\<exists>x. post = x @ b)"
proof (cases "c \<in> set b")
  case True
  then obtain xs ys where b: "b = xs @ c # ys" "c \<notin> set ys" using split_list_last [OF True] by blast
  from arg_cong [OF assms(1), of "after_last c"] b assms(2) have "post = ys"
    using after_last_append [of c post pre] after_last_append [of c ys "a @ xs"] by simp
  with b True show ?thesis by (simp add: after_last_append)
next
  case False
  from assms(1) show ?thesis using False by (auto simp: append_eq_append_conv2 Cons_eq_append_conv)
qed

lemma strip_path: "(if c \<in> set s then hd (split_max c 1 s) else s) = takeWhile (\<lambda>x. x \<noteq> c) s"
  by (auto intro: takeWhile_eq_all_conv [THEN iffD2, symmetric])

lemma mask_body:
  assumes "body = (if has_sub ''://'' (pre @ CHR ''@'' # post) then after_scheme (pre @ CHR ''@'' # post) else pre @ CHR ''@'' # post)"
    "CHR ''@'' \<notin> set post"
  shows "\<exists>x. post = x @ (if CHR ''@'' \<in> set body then after_last CHR ''@'' body else body)"
proof -
  obtain a where "pre @ CHR ''@'' # post = a @ body"
    using assms(1) after_scheme_suffix [of "pre @ CHR ''@'' # post"] by (metis append_Nil)
  from suffix_with_sep [OF this assms(2)] show ?thesis by (auto split: if_splits intro: exI [of _ "[]"])
qed

section \<open>Properties\<close>

text \<open>
  A logged endpoint shows nothing of the credentials: of a URL with an at sign, the mask is a part of what follows the last
  one, and it contains neither an at sign nor a slash.
\<close>

lemma mask_hides_credentials:
  assumes "CHR ''@'' \<notin> set post"
  shows "(\<exists>x y. post = x @ mask_endpoint (pre @ CHR ''@'' # post) @ y) \<and>
         CHR ''@'' \<notin> set (mask_endpoint (pre @ CHR ''@'' # post)) \<and> CHR ''/'' \<notin> set (mask_endpoint (pre @ CHR ''@'' # post))"
proof -
  define url where "url = pre @ CHR ''@'' # post"
  define body where "body = (if has_sub ''://'' url then after_scheme url else url)"
  define rest where "rest = (if CHR ''@'' \<in> set body then after_last CHR ''@'' body else body)"
  obtain x where x: "post = x @ rest"
    using mask_body [OF body_def [unfolded url_def] assms] by (auto simp: rest_def)
  have m: "mask_endpoint url = takeWhile (\<lambda>c. c \<noteq> CHR ''/'') rest"
    unfolding mask_endpoint_def Let_def body_def [symmetric] rest_def [symmetric] strip_path by (simp add: url_def)
  have "post = x @ mask_endpoint url @ dropWhile (\<lambda>c. c \<noteq> CHR ''/'') rest" using x by (simp add: m)
  moreover have "CHR ''@'' \<notin> set (mask_endpoint url)" using x assms by (auto simp: m dest: set_takeWhileD)
  moreover have "CHR ''/'' \<notin> set (mask_endpoint url)" by (auto simp: m dest: set_takeWhileD)
  ultimately show ?thesis unfolding url_def by blast
qed


definition failing_factory :: "string factory" where
  "failing_factory u = Inl EndpointConnectionError"

definition echo_factory :: "string factory" where
  "echo_factory u = Inr u"


end
