(* ===== verification/HistoricalReclaim.thy ===== *)
theory HistoricalReclaim
  imports NasUploader Calendar
begin

text \<open>
  \<^verbatim>\<open>compactor/historical_reclaim.py\<close>: deleting the local L1 files of a past day once its L2 files are on the NAS.

  The local disk is the sizes of its files and the list of its directories, in the order a glob yields them; a date is
  its day number. Which unlink fails, and whether the sentinel can be written, is an input. Names of
  exchanges, symbols and channels hold no glob metacharacters and no separators, the glob patterns match directories
  only and \<^verbatim>\<open>rglob\<close> files only, and a file that a failing sentinel write leaves behind is not modelled.

  The lemmas show what must hold before a file is deleted, and that a partition with files that could not be deleted
  is closed for good.
\<close>

section \<open>Definitions\<close>

definition CHANNEL_SCHEMA_VERSION :: "(string \<times> string) list" where
  "CHANNEL_SCHEMA_VERSION =
     [(''transaction'', ''tick.v1''), (''orderbooksnapshot'', ''orderbook_snapshot.v1''), (''orderbookdepth'', ''orderbook_depth.v1'')]"

definition schema_ver :: "string \<Rightarrow> string" where
  "schema_ver channel = (case map_of CHANNEL_SCHEMA_VERSION channel of None \<Rightarrow> ''v1'' | Some v \<Rightarrow> v)"

datatype reclaim_status =
  reclaim_ok | skip_sentinel | skip_today_window | skip_forward_in_flight | skip_nas_missing | fail_verify

datatype reclaim_error = UnlinkError path | SentinelError

record reclaim_outcome =
  ro_outcome :: reclaim_status
  ro_files_unlinked :: int
  ro_bytes_freed :: int
  ro_errors :: "reclaim_error list"

definition plain_outcome :: "reclaim_status \<Rightarrow> reclaim_outcome" where
  "plain_outcome s = \<lparr>ro_outcome = s, ro_files_unlinked = 0, ro_bytes_freed = 0, ro_errors = []\<rparr>"

record partition =
  pt_root :: path
  pt_exchange :: string
  pt_symbol :: string
  pt_channel :: string
  pt_date :: int

record 's reclaim_world =
  rw_files :: "int fsys"
  rw_dirs :: "path list"
  rw_store :: 's
  rw_ok_total :: nat

datatype unlink_outcome = Unlinked | AlreadyGone | UnlinkFails

record reclaim_env =
  re_unlink :: "path \<Rightarrow> unlink_outcome"
  re_sentinel_ok :: bool

definition tier_dir :: "partition \<Rightarrow> string \<Rightarrow> string \<Rightarrow> path" where
  "tier_dir pt tier version =
     [''market'', pt_channel pt, ''schema_version='' @ version, ''tier='' @ tier, ''exchange='' @ pt_exchange pt,
      ''symbol='' @ pt_symbol pt, ''date='' @ strftime_date (pt_date pt * 86400)]"

text \<open>\<^verbatim>\<open>root.glob("market/.../schema_version=*/tier=.../date=...")\<close>\<close>

definition glob_dirs :: "partition \<Rightarrow> string \<Rightarrow> path list \<Rightarrow> path list" where
  "glob_dirs pt tier dirs =
     filter (\<lambda>d. length d = length (pt_root pt) + 7 \<and>
               d = pt_root pt @ tier_dir pt tier (drop 15 (d ! (length (pt_root pt) + 2)))) dirs"

definition l1_date_dir :: "partition \<Rightarrow> path list \<Rightarrow> path" where
  "l1_date_dir pt dirs =
     (case glob_dirs pt ''L1'' dirs of d # ds \<Rightarrow> d | [] \<Rightarrow> pt_root pt @ tier_dir pt ''L1'' (schema_ver (pt_channel pt)))"

definition l2_prefix :: "partition \<Rightarrow> string" where
  "l2_prefix pt = concat (map (\<lambda>c. c @ ''/'') (tier_dir pt ''L2'' (schema_ver (pt_channel pt))))"

definition part_files :: "path \<Rightarrow> int fsys \<Rightarrow> path list" where
  "part_files dir fs =
     filter (\<lambda>p. take (length dir) p = dir \<and> length dir < length p \<and> starts_with (path_name p) ''part-'' \<and>
                 ends_with (path_name p) ''.parquet'') (remdups (map fst fs))"

definition write_sentinel_atomic :: "reclaim_env \<Rightarrow> path \<Rightarrow> 's reclaim_world \<Rightarrow> (py_error + unit) \<times> 's reclaim_world" where
  "write_sentinel_atomic e sentinel w =
     (if re_sentinel_ok e
      then (Inr (), w\<lparr>rw_dirs := (if butlast sentinel \<in> set (rw_dirs w) then rw_dirs w else rw_dirs w @ [butlast sentinel]),
                      rw_files := fs_put sentinel 0 (rw_files w)\<rparr>)
      else (Inl OSError, w))"

fun unlink_files :: "reclaim_env \<Rightarrow> path list \<Rightarrow> int fsys \<Rightarrow> int \<times> int \<times> reclaim_error list \<times> int fsys" where
  "unlink_files e [] fs = (0, 0, [], fs)"
| "unlink_files e (p # ps) fs =
     (case re_unlink e p of
        Unlinked \<Rightarrow>
          let size = (case fs_get fs p of None \<Rightarrow> 0 | Some n \<Rightarrow> n); (n, b, errs, fs') = unlink_files e ps (fs_del p fs)
          in (n + 1, b + size, errs, fs')
      | AlreadyGone \<Rightarrow> unlink_files e ps (fs_del p fs)
      | UnlinkFails \<Rightarrow> let (n, b, errs, fs') = unlink_files e ps fs in (n, b, UnlinkError p # errs, fs'))"

definition is_boto_error :: "py_error \<Rightarrow> bool" where
  "is_boto_error e \<longleftrightarrow> (case e of ClientError c \<Rightarrow> True | EndpointConnectionError \<Rightarrow> True | _ \<Rightarrow> False)"

definition reclaim_files ::
  "reclaim_env \<Rightarrow> path \<Rightarrow> 's reclaim_world \<Rightarrow> (py_error + reclaim_outcome) \<times> 's reclaim_world" where
  "reclaim_files e date_dir w =
     (if date_dir \<notin> set (rw_dirs w)
      then and_then (write_sentinel_atomic e (date_dir @ [''.l1-promoted'']) w) (\<lambda>_ w. (Inr (plain_outcome reclaim_ok), w))
      else let (n, b, errs, fs) = unlink_files e (part_files date_dir (rw_files w)) (rw_files w)
        in case write_sentinel_atomic e (date_dir @ [''.l1-promoted'']) (w\<lparr>rw_files := fs\<rparr>) of
             (Inl x, w) \<Rightarrow>
               (Inr \<lparr>ro_outcome = reclaim_ok, ro_files_unlinked = n, ro_bytes_freed = b, ro_errors = errs @ [SentinelError]\<rparr>,
                w\<lparr>rw_ok_total := Suc (rw_ok_total w)\<rparr>)
           | (Inr u, w) \<Rightarrow>
               (Inr \<lparr>ro_outcome = reclaim_ok, ro_files_unlinked = n, ro_bytes_freed = b, ro_errors = errs\<rparr>,
                w\<lparr>rw_ok_total := Suc (rw_ok_total w)\<rparr>))"

definition reclaim_partition_l1_local ::
  "'s s3 \<Rightarrow> reclaim_env \<Rightarrow> partition \<Rightarrow> int \<Rightarrow> 's reclaim_world \<Rightarrow> (py_error + reclaim_outcome) \<times> 's reclaim_world" where
  "reclaim_partition_l1_local c e pt now_snapshot w =
     (let date_dir = l1_date_dir pt (rw_dirs w)
      in if fs_exists (rw_files w) (date_dir @ [''.l1-promoted'']) then (Inr (plain_outcome skip_sentinel), w)
         else if now_snapshot - 1 \<le> pt_date pt then (Inr (plain_outcome skip_today_window), w)
         else if fs_exists (rw_files w) (date_dir @ [''.forward-processing'']) then (Inr (plain_outcome skip_forward_in_flight), w)
         else case list_prefix_count c (l2_prefix pt) 1 (rw_store w) of
                (Inl x, s) \<Rightarrow>
                  (if is_boto_error x then (Inr (plain_outcome fail_verify), w\<lparr>rw_store := s\<rparr>) else (Inl x, w\<lparr>rw_store := s\<rparr>))
              | (Inr key_count, s) \<Rightarrow>
                  if key_count = 0 then (Inr (plain_outcome skip_nas_missing), w\<lparr>rw_store := s\<rparr>)
                  else if glob_dirs pt ''L2'' (rw_dirs w) = [] then (Inr (plain_outcome fail_verify), w\<lparr>rw_store := s\<rparr>)
                  else reclaim_files e date_dir (w\<lparr>rw_store := s\<rparr>))"

section \<open>Deletion\<close>

lemma unlink_files_keeps:
  "unlink_files e ps fs = (n, b, errs, fs') \<Longrightarrow> p \<notin> set ps \<or> re_unlink e p = UnlinkFails \<Longrightarrow> fs_get fs' p = fs_get fs p"
proof (induction e ps fs arbitrary: n b errs fs' rule: unlink_files.induct)
  case (2 e q ps fs)
  then show ?case
    by (cases "re_unlink e q") (auto simp: Let_def fs_simps split: prod.splits)
qed simp

lemma unlink_files_errors:
  "unlink_files e ps fs = (n, b, errs, fs') \<Longrightarrow> set errs = UnlinkError ` {p \<in> set ps. re_unlink e p = UnlinkFails}"
proof (induction e ps fs arbitrary: n b errs fs' rule: unlink_files.induct)
  case (2 e q ps fs)
  then show ?case
    by (cases "re_unlink e q") (auto simp: Let_def split: prod.splits)
qed simp

lemma part_files_present: "p \<in> set (part_files dir fs) \<Longrightarrow> fs_exists fs p"
  by (auto simp: part_files_def fs_exists_dom)

lemma sentinel_not_part: "dir @ [''.l1-promoted''] \<notin> set (part_files dir' fs)"
  by (simp add: part_files_def path_name_def starts_with_def)

lemma reclaim_files_keeps:
  assumes "reclaim_files e d w = (r, w')" "p \<notin> set (part_files d (rw_files w))" "fs_exists (rw_files w) p"
  shows "fs_exists (rw_files w') p"
proof (cases "d \<in> set (rw_dirs w)")
  case True
  obtain n b errs fs where u: "unlink_files e (part_files d (rw_files w)) (rw_files w) = (n, b, errs, fs)"
    by (metis prod.exhaust)
  from unlink_files_keeps [OF u] assms(2,3) have "fs_exists fs p" by (simp add: fs_exists_def)
  with True u assms(1) show ?thesis
    by (auto simp: reclaim_files_def write_sentinel_atomic_def fs_simps split: if_splits)
next
  case False
  with assms show ?thesis
    by (auto simp: reclaim_files_def write_sentinel_atomic_def fs_simps split: if_splits)
qed

lemma reclaim_files_store: "reclaim_files e d w = (r, w') \<Longrightarrow> rw_store w' = rw_store w"
  by (auto simp: reclaim_files_def write_sentinel_atomic_def Let_def split: if_splits prod.splits)

lemma reclaim_files_dirs:
  "reclaim_files e d w = (r, w') \<Longrightarrow> rw_dirs w' = rw_dirs w \<or> d \<notin> set (rw_dirs w) \<and> rw_dirs w' = rw_dirs w @ [d]"
  by (auto simp: reclaim_files_def write_sentinel_atomic_def Let_def split: if_splits prod.splits)

lemma reclaim_files_seals:
  assumes "reclaim_files e d w = (Inr res, w')" "SentinelError \<notin> set (ro_errors res)"
  shows "fs_exists (rw_files w') (d @ [''.l1-promoted''])"
  using assms by (auto simp: reclaim_files_def write_sentinel_atomic_def Let_def fs_simps split: if_splits prod.splits)

lemma reclaim_files_errors:
  assumes "reclaim_files e d w = (Inr res, w')" "UnlinkError p \<in> set (ro_errors res)"
  shows "fs_exists (rw_files w') p"
proof (cases "d \<in> set (rw_dirs w)")
  case True
  obtain n b errs fs where u: "unlink_files e (part_files d (rw_files w)) (rw_files w) = (n, b, errs, fs)"
    by (metis prod.exhaust)
  with True assms have "UnlinkError p \<in> set errs"
    by (auto simp: reclaim_files_def write_sentinel_atomic_def split: if_splits)
  with unlink_files_errors [OF u] have p: "p \<in> set (part_files d (rw_files w))" "re_unlink e p = UnlinkFails" by auto
  with unlink_files_keeps [OF u] part_files_present [OF p(1)] have "fs_exists fs p" by (simp add: fs_exists_def)
  with True u assms(1) show ?thesis
    by (auto simp: reclaim_files_def write_sentinel_atomic_def fs_simps split: if_splits)
next
  case False
  with assms show ?thesis
    by (auto simp: reclaim_files_def write_sentinel_atomic_def plain_outcome_def split: if_splits)
qed

section \<open>The guards\<close>

text \<open>Everything that holds when the files of the partition are deleted.\<close>

definition may_reclaim :: "bucket \<Rightarrow> partition \<Rightarrow> int \<Rightarrow> 's reclaim_world \<Rightarrow> bool" where
  "may_reclaim b pt now w \<longleftrightarrow>
     pt_date pt < now - 1 \<and> (\<exists>k. b k \<noteq> None \<and> starts_with k (l2_prefix pt)) \<and> glob_dirs pt ''L2'' (rw_dirs w) \<noteq> [] \<and>
     \<not> fs_exists (rw_files w) (l1_date_dir pt (rw_dirs w) @ [''.l1-promoted'']) \<and>
     \<not> fs_exists (rw_files w) (l1_date_dir pt (rw_dirs w) @ [''.forward-processing''])"

lemma list_count_view:
  assumes "s3_laws c v" "list_prefix_count c pre 1 s = (r, s')"
  shows "v s' = v s" "\<And>n. r = Inr n \<Longrightarrow> n \<noteq> 0 \<Longrightarrow> \<exists>k. v s k \<noteq> None \<and> starts_with k pre"
proof -
  obtain q t where l: "s3_list c pre s = (q, t)" by fastforce
  with assms(2) have t: "t = s'" by (cases q) (auto simp: list_prefix_count_def)
  show "v s' = v s" using list_view [OF assms(1) l] t by simp
  show "\<exists>k. v s k \<noteq> None \<and> starts_with k pre" if "r = Inr n" "n \<noteq> 0" for n
  proof (cases q)
    case (Inl x)
    with l assms(2) that show ?thesis by (simp add: list_prefix_count_def)
  next
    case (Inr ks)
    with l assms(2) that have "ks \<noteq> []" by (auto simp: list_prefix_count_def)
    then show ?thesis using list_keys [OF assms(1) l [unfolded Inr]] hd_in_set by blast
  qed
qed

lemma reclaim_cases:
  assumes "s3_laws c v" "reclaim_partition_l1_local c e pt now w = (r, w')"
  obtains (skip) "rw_files w' = rw_files w" "rw_dirs w' = rw_dirs w" "v (rw_store w') = v (rw_store w)"
      "\<forall>res. r = Inr res \<longrightarrow> ro_outcome res \<noteq> reclaim_ok"
  | (reclaim) s where "may_reclaim (v (rw_store w)) pt now w" "v s = v (rw_store w)"
      "reclaim_files e (l1_date_dir pt (rw_dirs w)) (w\<lparr>rw_store := s\<rparr>) = (r, w')"
proof -
  obtain q s where l: "list_prefix_count c (l2_prefix pt) 1 (rw_store w) = (q, s)" by fastforce
  note view = list_count_view [OF assms(1) l]
  show thesis
  proof (cases "\<exists>n. q = Inr n \<and> n \<noteq> 0 \<and> glob_dirs pt ''L2'' (rw_dirs w) \<noteq> [] \<and> pt_date pt < now - 1 \<and>
      \<not> fs_exists (rw_files w) (l1_date_dir pt (rw_dirs w) @ [''.l1-promoted'']) \<and>
      \<not> fs_exists (rw_files w) (l1_date_dir pt (rw_dirs w) @ [''.forward-processing''])")
    case True
    then obtain n where n: "q = Inr n" "n \<noteq> 0" by blast
    show thesis
    proof (rule reclaim)
      show "may_reclaim (v (rw_store w)) pt now w" using True view(2) [OF n] by (auto simp: may_reclaim_def)
      show "v s = v (rw_store w)" by (rule view(1))
      show "reclaim_files e (l1_date_dir pt (rw_dirs w)) (w\<lparr>rw_store := s\<rparr>) = (r, w')"
        using True assms(2) l by (auto simp: reclaim_partition_l1_local_def Let_def)
    qed
  next
    case False
    show thesis
      by (rule skip; use False assms(2) l view(1) in
          \<open>cases q; auto simp: reclaim_partition_l1_local_def Let_def plain_outcome_def split: if_splits\<close>)
  qed
qed

lemma glob_dirs_append: "glob_dirs pt tier (xs @ ys) = glob_dirs pt tier xs @ glob_dirs pt tier ys"
  by (simp add: glob_dirs_def)

lemma date_dir_stable:
  assumes "l1_date_dir pt dirs = d" "dirs' = dirs \<or> d \<notin> set dirs \<and> dirs' = dirs @ [d]"
  shows "l1_date_dir pt dirs' = d"
proof (cases "glob_dirs pt ''L1'' dirs")
  case Nil
  have "glob_dirs pt ''L1'' [d] = [] \<or> glob_dirs pt ''L1'' [d] = [d]" by (simp add: glob_dirs_def)
  with Nil show ?thesis using assms by (auto simp: l1_date_dir_def glob_dirs_append)
next
  case (Cons x xs)
  then show ?thesis using assms by (auto simp: l1_date_dir_def glob_dirs_append)
qed

section \<open>Properties\<close>


definition example_partition :: partition where
  "example_partition = \<lparr>pt_root = [''r''], pt_exchange = ''x'', pt_symbol = ''s'', pt_channel = ''transaction'', pt_date = -719162\<rparr>"

definition example_reclaim_world :: "mem reclaim_world" where
  "example_reclaim_world =
     (let l1 = [''r''] @ tier_dir example_partition ''L1'' ''tick.v1''
      in \<lparr>rw_files = [(l1 @ [''part-0.parquet''], 7), (l1 @ [''part-1.parquet''], 9)],
          rw_dirs = [l1, [''r''] @ tier_dir example_partition ''L2'' ''tick.v1''],
          rw_store = \<lparr>m_up = True, m_objects = [(l2_prefix example_partition @ ''k'', example_object)]\<rparr>, rw_ok_total = 0\<rparr>)"

definition example_reclaim_env :: reclaim_env where
  "example_reclaim_env =
     \<lparr>re_unlink = (\<lambda>p. if path_name p = ''part-0.parquet'' then Unlinked else UnlinkFails), re_sentinel_ok = True\<rparr>"

definition example_part :: "string \<Rightarrow> path" where
  "example_part name = [''r''] @ tier_dir example_partition ''L1'' ''tick.v1'' @ [name]"

lemma example_reclaim:
  "fs_exists (rw_files example_reclaim_world) (example_part ''part-0.parquet'')"
  "\<not> fs_exists (rw_files (snd (reclaim_partition_l1_local mem_s3 example_reclaim_env example_partition (-719000) example_reclaim_world)))
        (example_part ''part-0.parquet'')"
  "(case reclaim_partition_l1_local mem_s3 example_reclaim_env example_partition (-719000) example_reclaim_world of
      (Inr res, w) \<Rightarrow> ro_outcome res = reclaim_ok \<and> ro_errors res = [UnlinkError (example_part ''part-1.parquet'')] | _ \<Rightarrow> False)"
  by code_simp+


text \<open>
  A partition with files that could not be deleted is closed for good: the outcome is \<^verbatim>\<open>ok\<close>, the files are still
  there, and once the sentinel is written every later reclaim skips the partition and leaves everything as it is.
\<close>

lemma reclaim_closes_with_leftovers:
  assumes "s3_laws c view" "reclaim_partition_l1_local c e pt now w = (Inr res, w')" "ro_outcome res = reclaim_ok"
    "SentinelError \<notin> set (ro_errors res)"
  shows "(\<forall>p. UnlinkError p \<in> set (ro_errors res) \<longrightarrow> fs_exists (rw_files w') p) \<and>
         reclaim_partition_l1_local c' e' pt now' w' = (Inr (plain_outcome skip_sentinel), w')"
  using assms(1,2)
proof (cases rule: reclaim_cases)
  case skip
  then show ?thesis using assms(3) by simp
next
  case (reclaim s)
  have "l1_date_dir pt (rw_dirs w') = l1_date_dir pt (rw_dirs w)"
    by (rule date_dir_stable [OF refl]) (use reclaim_files_dirs [OF reclaim(3)] in simp)
  then show ?thesis
    using reclaim_files_seals [OF reclaim(3) assms(4)] reclaim_files_errors [OF reclaim(3)]
    by (simp add: reclaim_partition_l1_local_def Let_def)
qed

end
