(* ===== verification/MigrationGc.thy ===== *)
theory MigrationGc
  imports Prelude
begin

text \<open>
  \<^verbatim>\<open>nas_migration/gc_runner.py\<close>: deleting the local L2 files after the migration, behind three locks and with a deletion log.

  An evidence file is absent, unreadable, not a JSON object, or an object with the one field the lock
  reads. The deletion log is the SQLite table, a dictionary from the primary key; its statements do not
  fail. Which files can be read, measured and unlinked is an input, as are the disk usage readings; \<open>hash\<close> stands for SHA-256. A call is also
  given as the list of states it goes through, one per log statement and per unlink, so that a crash between two of them can be discussed.

  The lemmas show that nothing is deleted unless all three locks are open, that every deleted file is in the log
  even after a crash, and that a file that comes back is never deleted again.
\<close>

section \<open>Evidence\<close>

datatype 'a evidence = EvMissing | EvUnreadable | EvNotObject | EvObject "'a option"

text \<open>A JSON value given to \<^verbatim>\<open>int\<close>: one it accepts, one it refuses with \<^verbatim>\<open>ValueError\<close>, or one with \<^verbatim>\<open>TypeError\<close>.\<close>

datatype json_int = JInt int | JBadText | JNull

datatype gc_reason =
    NoReason
  | CutoverMissing
  | CutoverStatus string
  | CutoverParseError
  | InvariantMissing
  | InvariantDays int int
  | InvariantParseError

definition check_cutover_rpo_verified :: "string evidence \<Rightarrow> py_error + bool \<times> gc_reason" where
  "check_cutover_rpo_verified ev =
     (case ev of EvMissing \<Rightarrow> Inr (False, CutoverMissing) | EvUnreadable \<Rightarrow> Inr (False, CutoverParseError)
      | EvNotObject \<Rightarrow> Inl AttributeError
      | EvObject st \<Rightarrow>
          let status = (case st of None \<Rightarrow> [] | Some s \<Rightarrow> s)
          in if status = ''rpo_zero_verified'' then Inr (True, NoReason) else Inr (False, CutoverStatus status))"

definition check_grace_period_expired :: "int \<Rightarrow> json_int evidence \<Rightarrow> py_error + bool \<times> int" where
  "check_grace_period_expired required ev =
     (case ev of EvMissing \<Rightarrow> Inr (False, required) | EvUnreadable \<Rightarrow> Inr (False, required)
      | EvNotObject \<Rightarrow> Inl AttributeError
      | EvObject v \<Rightarrow>
          (case v of
             None \<Rightarrow> Inr (required \<le> 0, required)
           | Some (JInt remaining) \<Rightarrow> Inr (remaining \<le> 0, remaining)
           | Some JBadText \<Rightarrow> Inr (False, required)
           | Some JNull \<Rightarrow> Inl TypeError))"

definition check_invariant_all_pass_7d :: "int \<Rightarrow> json_int evidence \<Rightarrow> py_error + bool \<times> gc_reason" where
  "check_invariant_all_pass_7d required ev =
     (let judge = (\<lambda>days. if required \<le> days then Inr (True, NoReason) else Inr (False, InvariantDays days required))
      in case ev of EvMissing \<Rightarrow> Inr (False, InvariantMissing) | EvUnreadable \<Rightarrow> Inr (False, InvariantParseError)
         | EvNotObject \<Rightarrow> Inl AttributeError
         | EvObject v \<Rightarrow>
             (case v of
                None \<Rightarrow> judge 0
              | Some (JInt days) \<Rightarrow> judge days
              | Some JBadText \<Rightarrow> Inr (False, InvariantParseError)
              | Some JNull \<Rightarrow> Inl TypeError))"

section \<open>Deletion\<close>

record gc_file =
  gf_data :: bytes
  gf_mtime :: rat

datatype recovery_status = pending | confirmed_deleted | recovery_failed | expired

record log_row =
  lr_deleted_at :: timestamp
  lr_sha256 :: string
  lr_size :: int
  lr_status :: recovery_status

record gc_world =
  gw_files :: "gc_file fsys"
  gw_log :: "(path \<times> log_row) list"

record gc_env =
  ge_root :: path
  ge_root_exists :: bool
  ge_cutover :: "string evidence"
  ge_grace :: "json_int evidence"
  ge_invariant :: "json_int evidence"
  ge_grace_days_required :: int
  ge_pass_days_required :: int
  ge_pressure_pct :: rat
  ge_usage_before :: "(int \<times> int \<times> int) option"
  ge_usage_after :: "(int \<times> int \<times> int) option"
  ge_stat_ok :: "path \<Rightarrow> bool"
  ge_read_ok :: "path \<Rightarrow> bool"
  ge_unlink_ok :: "path \<Rightarrow> bool"
  ge_now :: "path \<Rightarrow> timestamp"

definition disk_pct :: "(int \<times> int \<times> int \<Rightarrow> int) \<Rightarrow> (int \<times> int \<times> int) option \<Rightarrow> rat" where
  "disk_pct part usage =
     (case usage of None \<Rightarrow> 0 | Some u \<Rightarrow> if fst u = 0 then 0 else of_int (part u) / of_int (fst u) * 100)"

definition compute_free_disk_pct :: "gc_env \<Rightarrow> rat" where
  "compute_free_disk_pct e = disk_pct (\<lambda>(total, used, free). free) (ge_usage_after e)"

definition compute_disk_usage_pct :: "gc_env \<Rightarrow> rat" where
  "compute_disk_usage_pct e = disk_pct (\<lambda>(total, used, free). used) (ge_usage_before e)"

definition safe_file_size :: "gc_env \<Rightarrow> gc_world \<Rightarrow> path \<Rightarrow> int" where
  "safe_file_size e w p =
     (case fs_get (gw_files w) p of None \<Rightarrow> 0 | Some f \<Rightarrow> if ge_stat_ok e p then int (length (gf_data f)) else 0)"

definition safe_mtime :: "gc_env \<Rightarrow> gc_world \<Rightarrow> path \<Rightarrow> rat" where
  "safe_mtime e w p = (case fs_get (gw_files w) p of None \<Rightarrow> 0 | Some f \<Rightarrow> if ge_stat_ok e p then gf_mtime f else 0)"

definition compute_sha256 :: "(bytes \<Rightarrow> string) \<Rightarrow> gc_env \<Rightarrow> gc_world \<Rightarrow> path \<Rightarrow> string" where
  "compute_sha256 hash e w p =
     (case fs_get (gw_files w) p of None \<Rightarrow> [] | Some f \<Rightarrow> if ge_read_ok e p then hash (gf_data f) else [])"

definition list_deletion_targets :: "gc_env \<Rightarrow> string \<Rightarrow> gc_world \<Rightarrow> path list" where
  "list_deletion_targets e tier w =
     (if \<not> ge_root_exists e then []
      else let targets = fs_rglob (ge_root e) ''.parquet'' (gw_files w)
           in if ge_pressure_pct e < compute_disk_usage_pct e then sort_key (safe_mtime e w) targets else targets)"

definition is_already_deleted :: "path \<Rightarrow> gc_world \<Rightarrow> bool" where
  "is_already_deleted p w =
     (case map_of (gw_log w) p of None \<Rightarrow> False | Some row \<Rightarrow> lr_status row = confirmed_deleted \<or> lr_status row = expired)"

definition append_deletion_log :: "gc_env \<Rightarrow> path \<Rightarrow> string \<Rightarrow> int \<Rightarrow> recovery_status \<Rightarrow> gc_world \<Rightarrow> gc_world" where
  "append_deletion_log e p sha sz status w =
     w\<lparr>gw_log := AList.update p \<lparr>lr_deleted_at = ge_now e p, lr_sha256 = sha, lr_size = sz, lr_status = status\<rparr> (gw_log w)\<rparr>"

definition update_deletion_log :: "path \<Rightarrow> recovery_status \<Rightarrow> gc_world \<Rightarrow> gc_world" where
  "update_deletion_log p status w =
     (case map_of (gw_log w) p of None \<Rightarrow> w | Some row \<Rightarrow> w\<lparr>gw_log := AList.update p (row\<lparr>lr_status := status\<rparr>) (gw_log w)\<rparr>)"

text \<open>The states one target goes through after the state \<open>w\<close>, the last one being that of the next target.\<close>

definition delete_target :: "(bytes \<Rightarrow> string) \<Rightarrow> gc_env \<Rightarrow> path \<Rightarrow> gc_world \<Rightarrow> gc_world list" where
  "delete_target hash e p w =
     (if is_already_deleted p w then []
      else let logged = append_deletion_log e p (compute_sha256 hash e w p) (safe_file_size e w p) pending w
           in if ge_unlink_ok e p
              then let gone = logged\<lparr>gw_files := fs_del p (gw_files logged)\<rparr> in [logged, gone, update_deletion_log p confirmed_deleted gone]
              else [logged, update_deletion_log p recovery_failed logged])"

fun delete_targets ::
  "(bytes \<Rightarrow> string) \<Rightarrow> gc_env \<Rightarrow> path list \<Rightarrow> gc_world \<Rightarrow> int \<times> int \<times> gc_world list" where
  "delete_targets hash e [] w = (0, 0, [])"
| "delete_targets hash e (p # ps) w =
     (let steps = delete_target hash e p w; (n, freed, later) = delete_targets hash e ps (last (w # steps));
          hit = \<not> is_already_deleted p w \<and> ge_unlink_ok e p
      in (if hit then n + 1 else n, if hit then freed + safe_file_size e w p else freed, steps @ later))"

section \<open>The run\<close>

datatype gc_status = dry_run_complete | gc_executed | blocked_grace_period | blocked_invariant_fail

record gc_result =
  gr_status :: gc_status
  gr_tier :: string
  gr_deletion_targets :: "path list"
  gr_target_size :: int
  gr_deleted_count :: int
  gr_freed_bytes :: int
  gr_free_disk_pct :: rat
  gr_grace_remaining :: int
  gr_fail_reason :: gc_reason

definition gc_result_of :: "gc_status \<Rightarrow> string \<Rightarrow> gc_result" where
  "gc_result_of status tier =
     \<lparr>gr_status = status, gr_tier = tier, gr_deletion_targets = [], gr_target_size = 0, gr_deleted_count = 0, gr_freed_bytes = 0,
      gr_free_disk_pct = 0, gr_grace_remaining = 0, gr_fail_reason = NoReason\<rparr>"

text \<open>The outcome and the states the call goes through after the first.\<close>

definition gc_run ::
  "(bytes \<Rightarrow> string) \<Rightarrow> gc_env \<Rightarrow> string \<Rightarrow> bool \<Rightarrow> gc_world \<Rightarrow> (py_error + gc_result) \<times> gc_world list" where
  "gc_run hash e tier dry_run w =
     (case check_cutover_rpo_verified (ge_cutover e) of
        Inl x \<Rightarrow> (Inl x, [])
      | Inr (cutover_ok, cutover_reason) \<Rightarrow>
          if \<not> cutover_ok then (Inr ((gc_result_of blocked_invariant_fail tier)\<lparr>gr_fail_reason := cutover_reason\<rparr>), [])
          else case check_grace_period_expired (ge_grace_days_required e) (ge_grace e) of
            Inl x \<Rightarrow> (Inl x, [])
          | Inr (grace_ok, remaining) \<Rightarrow>
              if \<not> grace_ok then (Inr ((gc_result_of blocked_grace_period tier)\<lparr>gr_grace_remaining := remaining\<rparr>), [])
              else case check_invariant_all_pass_7d (ge_pass_days_required e) (ge_invariant e) of
                Inl x \<Rightarrow> (Inl x, [])
              | Inr (invariant_ok, reason) \<Rightarrow>
                  if \<not> invariant_ok then (Inr ((gc_result_of blocked_invariant_fail tier)\<lparr>gr_fail_reason := reason\<rparr>), [])
                  else let targets = list_deletion_targets e tier w
                    in if dry_run
                       then (Inr ((gc_result_of dry_run_complete tier)
                                    \<lparr>gr_deletion_targets := targets, gr_target_size := sum_list (map (safe_file_size e w) targets)\<rparr>), [])
                       else let (n, freed, states) = delete_targets hash e targets w
                            in (Inr ((gc_result_of gc_executed tier)
                                       \<lparr>gr_deleted_count := n, gr_freed_bytes := freed, gr_free_disk_pct := compute_free_disk_pct e\<rparr>), states))"

definition gc :: "(bytes \<Rightarrow> string) \<Rightarrow> gc_env \<Rightarrow> string \<Rightarrow> bool \<Rightarrow> gc_world \<Rightarrow> (py_error + gc_result) \<times> gc_world" where
  "gc hash e tier dry_run w = (case gc_run hash e tier dry_run w of (r, states) \<Rightarrow> (r, last (w # states)))"

section \<open>What a run keeps\<close>

definition locks_open :: "gc_env \<Rightarrow> bool" where
  "locks_open e \<longleftrightarrow>
     ge_cutover e = EvObject (Some ''rpo_zero_verified'') \<and>
     (\<exists>v. ge_grace e = EvObject v \<and> (case v of None \<Rightarrow> ge_grace_days_required e \<le> 0 | Some (JInt n) \<Rightarrow> n \<le> 0 | _ \<Rightarrow> False)) \<and>
     (\<exists>v. ge_invariant e = EvObject v \<and>
        (case v of None \<Rightarrow> ge_pass_days_required e \<le> 0 | Some (JInt n) \<Rightarrow> ge_pass_days_required e \<le> n | _ \<Rightarrow> False))"

text \<open>The log row of a file deleted from \<open>w0\<close>, and: \<open>w\<close> has every file of \<open>w0\<close>, or its row.\<close>

definition row_for :: "(bytes \<Rightarrow> string) \<Rightarrow> gc_env \<Rightarrow> gc_world \<Rightarrow> path \<Rightarrow> log_row \<Rightarrow> bool" where
  "row_for hash e w0 p row \<longleftrightarrow>
     lr_sha256 row = compute_sha256 hash e w0 p \<and> lr_size row = safe_file_size e w0 p \<and>
     (lr_status row = pending \<or> lr_status row = confirmed_deleted)"

definition logged :: "(bytes \<Rightarrow> string) \<Rightarrow> gc_env \<Rightarrow> gc_world \<Rightarrow> gc_world \<Rightarrow> path \<Rightarrow> bool" where
  "logged hash e w0 w p \<longleftrightarrow>
     fs_get (gw_files w) p = fs_get (gw_files w0) p \<or> (\<exists>row. map_of (gw_log w) p = Some row \<and> row_for hash e w0 p row)"

lemma update_log_of: "map_of (gw_log (update_deletion_log p st w)) q =
    (if q = p then map_option (\<lambda>row. row\<lparr>lr_status := st\<rparr>) (map_of (gw_log w) p) else map_of (gw_log w) q)"
  by (cases "map_of (gw_log w) p") (auto simp: update_deletion_log_def update_conv')

lemma update_log_files: "gw_files (update_deletion_log p st w) = gw_files w"
  by (simp add: update_deletion_log_def split: option.splits)

lemmas log_simps = update_log_of update_log_files append_deletion_log_def update_conv' fs_get_del

lemma delete_target_other:
  assumes "w' \<in> set (delete_target hash e p w)" "q \<noteq> p"
  shows "fs_get (gw_files w') q = fs_get (gw_files w) q" "map_of (gw_log w') q = map_of (gw_log w) q"
  using assms by (auto simp: delete_target_def Let_def log_simps split: if_splits)

lemma delete_target_logged:
  assumes "w' \<in> set (delete_target hash e p w)" "fs_get (gw_files w) p = fs_get (gw_files w0) p"
  shows "logged hash e w0 w' p"
proof -
  have "compute_sha256 hash e w p = compute_sha256 hash e w0 p" "safe_file_size e w p = safe_file_size e w0 p"
    using assms(2) by (simp_all add: compute_sha256_def safe_file_size_def)
  then show ?thesis
    using assms by (auto simp: delete_target_def Let_def log_simps logged_def row_for_def split: if_splits)
qed

lemma delete_targets_logged:
  assumes "delete_targets hash e ps w = (n, freed, states)" "distinct ps" "w' \<in> set states"
    "\<forall>p\<in>set ps. fs_get (gw_files w) p = fs_get (gw_files w0) p" "\<forall>q. logged hash e w0 w q"
  shows "logged hash e w0 w' q"
  using assms
proof (induction hash e ps w arbitrary: n freed states rule: delete_targets.induct)
  case (2 hash e p ps w)
  define steps where "steps = delete_target hash e p w"
  obtain m g later where l: "delete_targets hash e ps (last (w # steps)) = (m, g, later)" by (metis prod.exhaust)
  have states: "states = steps @ later" using 2(2) l by (auto simp: Let_def steps_def [symmetric] split: if_splits)
  have step: "logged hash e w0 v r" if "v \<in> set steps" for v r
  proof (cases "r = p")
    case True
    then show ?thesis using delete_target_logged [OF that [unfolded steps_def]] 2(5) by simp
  next
    case False
    then show ?thesis
      using delete_target_other [OF that [unfolded steps_def] False] 2(6) by (simp add: logged_def)
  qed
  have fin: "last (w # steps) = w \<or> last (w # steps) \<in> set steps" by (cases steps) auto
  have keep: "\<forall>r\<in>set ps. fs_get (gw_files (last (w # steps))) r = fs_get (gw_files w0) r"
  proof
    fix r assume "r \<in> set ps"
    then have "r \<noteq> p" "fs_get (gw_files w) r = fs_get (gw_files w0) r" using 2(3,5) by auto
    then show "fs_get (gw_files (last (w # steps))) r = fs_get (gw_files w0) r"
      using fin delete_target_other(1) [of _ hash e p w r] by (auto simp: steps_def)
  qed
  have log: "\<forall>r. logged hash e w0 (last (w # steps)) r" using fin step 2(6) by auto
  show ?case
  proof (cases "w' \<in> set steps")
    case True
    then show ?thesis by (rule step)
  next
    case False
    then show ?thesis using 2(1) [OF steps_def l _ _ keep log] 2(3,4) states by auto
  qed
qed simp

lemma delete_targets_outside:
  assumes "delete_targets hash e ps w = (n, freed, states)" "w' \<in> set states" "q \<notin> set ps \<or> is_already_deleted q w"
  shows "fs_get (gw_files w') q = fs_get (gw_files w) q"
  using assms
proof (induction hash e ps w arbitrary: n freed states rule: delete_targets.induct)
  case (2 hash e p ps w)
  define steps where "steps = delete_target hash e p w"
  obtain m g later where l: "delete_targets hash e ps (last (w # steps)) = (m, g, later)" by (metis prod.exhaust)
  have states: "states = steps @ later" using 2(2) l by (auto simp: Let_def steps_def [symmetric] split: if_splits)
  have step: "fs_get (gw_files v) q = fs_get (gw_files w) q \<and> map_of (gw_log v) q = map_of (gw_log w) q" if "v \<in> set steps" for v
  proof (cases "q = p")
    case True
    with 2(4) have "steps = []" by (simp add: steps_def delete_target_def)
    with that show ?thesis by simp
  next
    case False
    then show ?thesis using delete_target_other [OF that [unfolded steps_def]] by simp
  qed
  have fin: "last (w # steps) = w \<or> last (w # steps) \<in> set steps" by (cases steps) auto
  with step have fin': "fs_get (gw_files (last (w # steps))) q = fs_get (gw_files w) q"
      "is_already_deleted q (last (w # steps)) = is_already_deleted q w"
    by (auto simp: is_already_deleted_def)
  show ?case
  proof (cases "w' \<in> set steps")
    case True
    then show ?thesis using step by simp
  next
    case False
    then show ?thesis using 2(1) [OF steps_def l] 2(3,4) states fin' by auto
  qed
qed simp

lemma targets_distinct: "distinct (list_deletion_targets e tier w)"
  by (simp add: list_deletion_targets_def fs_rglob_def Let_def distinct_sort)

lemma gc_run_states:
  assumes "gc_run hash e tier dry w = (r, states)" "states \<noteq> []"
  shows "\<not> dry" "locks_open e" "\<exists>n freed. delete_targets hash e (list_deletion_targets e tier w) w = (n, freed, states)"
  using assms
  by (auto simp: gc_run_def locks_open_def check_cutover_rpo_verified_def check_grace_period_expired_def
      check_invariant_all_pass_7d_def Let_def split: if_splits option.splits evidence.splits json_int.splits prod.splits)

section \<open>Properties\<close>


definition example_gc_env :: gc_env where
  "example_gc_env =
     \<lparr>ge_root = [''r''], ge_root_exists = True, ge_cutover = EvObject (Some ''rpo_zero_verified''), ge_grace = EvObject (Some (JInt 0)),
      ge_invariant = EvObject (Some (JInt 7)), ge_grace_days_required = 7, ge_pass_days_required = 7, ge_pressure_pct = 90,
      ge_usage_before = Some (100, 95, 5), ge_usage_after = Some (100, 94, 6), ge_stat_ok = (\<lambda>p. True), ge_read_ok = (\<lambda>p. True),
      ge_unlink_ok = (\<lambda>p. True), ge_now = (\<lambda>p. 0)\<rparr>"

definition example_gc_world :: "bool \<Rightarrow> gc_world" where
  "example_gc_world returned =
     \<lparr>gw_files = [([''r'', ''a.parquet''], \<lparr>gf_data = ''d'', gf_mtime = 1\<rparr>)],
      gw_log = (if returned then [([''r'', ''a.parquet''], \<lparr>lr_deleted_at = 0, lr_sha256 = ''d'', lr_size = 1, lr_status = confirmed_deleted\<rparr>)]
                else [])\<rparr>"


text \<open>
  A path that the log has as deleted is never deleted again: a file that has come back under it is listed by the dry run
  but stays in place, whatever the locks say.
\<close>

lemma gc_skips_returned_file:
  assumes "is_already_deleted p w" "fs_get (gw_files w) p = Some f"
  shows "fs_get (gw_files (snd (gc hash e tier dry w))) p = Some f \<and>
         (\<forall>res. fst (gc hash e tier True w) = Inr res \<and> gr_status res = dry_run_complete \<and> ge_root_exists e \<and>
            p \<in> set (fs_rglob (ge_root e) ''.parquet'' (gw_files w)) \<longrightarrow> p \<in> set (gr_deletion_targets res))"
proof
  obtain r states where g: "gc_run hash e tier dry w = (r, states)" by fastforce
  show "fs_get (gw_files (snd (gc hash e tier dry w))) p = Some f"
  proof (cases "states = []")
    case True
    then show ?thesis using g assms(2) by (simp add: gc_def)
  next
    case False
    obtain n freed where d: "delete_targets hash e (list_deletion_targets e tier w) w = (n, freed, states)"
      using gc_run_states(3) [OF g False] by blast
    have "last (w # states) \<in> set states" using False by simp
    from delete_targets_outside [OF d this] assms g show ?thesis by (simp add: gc_def)
  qed
  show "\<forall>res. fst (gc hash e tier True w) = Inr res \<and> gr_status res = dry_run_complete \<and> ge_root_exists e \<and>
            p \<in> set (fs_rglob (ge_root e) ''.parquet'' (gw_files w)) \<longrightarrow> p \<in> set (gr_deletion_targets res)"
    by (auto simp: gc_def gc_run_def gc_result_of_def list_deletion_targets_def Let_def split: sum.splits if_splits prod.splits)
qed

end
