(* ===== verification/NasSop.thy ===== *)
theory NasSop
  imports NasUploader
begin

text \<open>
  \<^verbatim>\<open>ops/nas_unreachable_sop.py\<close>: what happens while the NAS cannot be reached. A tick pings the store, drains the retry
  queue once it is back, and otherwise raises an alert for a large backlog and closes a gate after a day.

  The state of the runner is a record, the clock reading of a tick an input, and the ping a HEAD request
  of the client parameter. The queue gauge and the log are not modelled. The lemmas give the state as a function of the history of ticks.
\<close>

section \<open>Definitions\<close>

datatype sop_state = AUTO_RESUME | THRESHOLD_BREACHED | MANUAL_GATE

record sop_config =
  sc_threshold_segments :: int
  sc_threshold_bytes :: int
  sc_manual_gate_after_hours :: int

definition sop_defaults :: sop_config where
  "sop_defaults = \<lparr>sc_threshold_segments = 1000, sc_threshold_bytes = 10 * 1024 ^ 3, sc_manual_gate_after_hours = 24\<rparr>"

record sop =
  sp_state :: sop_state
  sp_unreachable_since :: "seconds option"
  sp_grace_extended :: bool
  sp_grace_extension_id :: int

definition sop_init :: sop where
  "sop_init = \<lparr>sp_state = AUTO_RESUME, sp_unreachable_since = None, sp_grace_extended = False, sp_grace_extension_id = 0\<rparr>"

definition ping_nas :: "'s s3 \<Rightarrow> 's \<Rightarrow> bool \<times> 's" where
  "ping_nas c s =
     (case s3_head c ''__sop_ping__'' s of
        (Inr h, s') \<Rightarrow> (True, s')
      | (Inl (ClientError code), s') \<Rightarrow> (True, s')
      | (Inl e, s') \<Rightarrow> (False, s'))"

definition check_threshold_breached :: "sop_config \<Rightarrow> rq \<Rightarrow> bool" where
  "check_threshold_breached cfg q \<longleftrightarrow>
     sc_threshold_segments cfg \<le> depth True q \<or> sc_threshold_bytes cfg \<le> total_bytes True q"

definition emit_grace_extension :: "sop \<Rightarrow> sop" where
  "emit_grace_extension p =
     (if sp_grace_extended p then p
      else p\<lparr>sp_grace_extension_id := sp_grace_extension_id p + 1, sp_grace_extended := True\<rparr>)"

definition recovered :: "sop \<Rightarrow> sop" where
  "recovered p = p\<lparr>sp_state := AUTO_RESUME, sp_unreachable_since := None, sp_grace_extended := False\<rparr>"

definition unreachable_tick :: "sop_config \<Rightarrow> seconds \<Rightarrow> bool \<Rightarrow> sop \<Rightarrow> sop" where
  "unreachable_tick cfg now breached p =
     (let p = (case sp_unreachable_since p of None \<Rightarrow> emit_grace_extension (p\<lparr>sp_unreachable_since := Some now\<rparr>) | Some t \<Rightarrow> p);
          hours = (now - (case sp_unreachable_since p of None \<Rightarrow> now | Some t \<Rightarrow> t)) / 3600;
          p = (if breached then p\<lparr>sp_state := THRESHOLD_BREACHED\<rparr> else p)
      in if of_int (sc_manual_gate_after_hours cfg) \<le> hours then p\<lparr>sp_state := MANUAL_GATE\<rparr> else p)"

definition sop_run_once ::
  "'s s3 \<Rightarrow> (bytes \<Rightarrow> string) \<Rightarrow> qenv \<Rightarrow> sop_config \<Rightarrow> seconds \<Rightarrow> sop \<Rightarrow> rq \<Rightarrow> 's \<Rightarrow> sop_state \<times> sop \<times> rq \<times> 's" where
  "sop_run_once c hash e cfg now p q s =
     (case ping_nas c s of
        (True, s) \<Rightarrow>
          let (q, s) = (if (sp_state p = THRESHOLD_BREACHED \<or> sp_state p = AUTO_RESUME) \<and> 0 < depth True q
                        then snd (drain (put_for_drain c hash e) q s) else (q, s));
              p = recovered p
          in (sp_state p, p, q, s)
      | (False, s) \<Rightarrow>
          let p = unreachable_tick cfg now (check_threshold_breached cfg q) p in (sp_state p, p, q, s))"

definition is_manual_gate :: "sop \<Rightarrow> bool" where
  "is_manual_gate p \<longleftrightarrow> sp_state p = MANUAL_GATE"

section \<open>Histories\<close>

text \<open>A tick: its time, whether the ping was answered, and whether the backlog was above a threshold.\<close>

record tick_obs =
  tk_now :: seconds
  tk_reached :: bool
  tk_breached :: bool

definition sop_tick :: "sop_config \<Rightarrow> tick_obs \<Rightarrow> sop \<Rightarrow> sop" where
  "sop_tick cfg t p = (if tk_reached t then recovered p else unreachable_tick cfg (tk_now t) (tk_breached t) p)"

definition observe :: "'s s3 \<Rightarrow> sop_config \<Rightarrow> seconds \<Rightarrow> rq \<Rightarrow> 's \<Rightarrow> tick_obs" where
  "observe c cfg now q s = \<lparr>tk_now = now, tk_reached = fst (ping_nas c s), tk_breached = check_threshold_breached cfg q\<rparr>"

text \<open>A run: the queue and the store of each tick are whatever the rest of the program made of them.\<close>

fun sop_run :: "'s s3 \<Rightarrow> (bytes \<Rightarrow> string) \<Rightarrow> qenv \<Rightarrow> sop_config \<Rightarrow> (seconds \<times> rq \<times> 's) list \<Rightarrow> sop \<Rightarrow> sop" where
  "sop_run c hash e cfg [] p = p"
| "sop_run c hash e cfg ((now, q, s) # ts) p = sop_run c hash e cfg ts (fst (snd (sop_run_once c hash e cfg now p q s)))"

definition observations :: "'s s3 \<Rightarrow> sop_config \<Rightarrow> (seconds \<times> rq \<times> 's) list \<Rightarrow> tick_obs list" where
  "observations c cfg ts = map (\<lambda>(now, q, s). observe c cfg now q s) ts"

text \<open>The ticks since the store was last reached, and the state that follows from them.\<close>

definition outage :: "tick_obs list \<Rightarrow> tick_obs list" where
  "outage ts = rev (takeWhile (\<lambda>t. \<not> tk_reached t) (rev ts))"

definition sop_spec :: "sop_config \<Rightarrow> tick_obs list \<Rightarrow> sop_state" where
  "sop_spec cfg ts =
     (case outage ts of
        [] \<Rightarrow> AUTO_RESUME
      | t # us \<Rightarrow>
          if of_int (sc_manual_gate_after_hours cfg) \<le> (tk_now (last (t # us)) - tk_now t) / 3600 then MANUAL_GATE
          else if list_ex tk_breached (t # us) then THRESHOLD_BREACHED else AUTO_RESUME)"

lemma run_once_tick: "fst (snd (sop_run_once c hash e cfg now p q s)) = sop_tick cfg (observe c cfg now q s) p"
  by (cases "ping_nas c s"; cases "fst (ping_nas c s)")
    (auto simp: sop_run_once_def sop_tick_def observe_def Let_def split: prod.splits)

lemma sop_run_fold: "sop_run c hash e cfg ts p = fold (sop_tick cfg) (observations c cfg ts) p"
  by (induction c hash e cfg ts p rule: sop_run.induct) (simp_all add: observations_def run_once_tick)

lemma outage_snoc: "outage (ts @ [t]) = (if tk_reached t then [] else outage ts @ [t])"
  by (simp add: outage_def)

definition sop_tracks :: "sop_config \<Rightarrow> tick_obs list \<Rightarrow> sop \<Rightarrow> bool" where
  "sop_tracks cfg ts p \<longleftrightarrow>
     sp_state p = sop_spec cfg ts \<and>
     sp_unreachable_since p = (case outage ts of [] \<Rightarrow> None | t # us \<Rightarrow> Some (tk_now t)) \<and>
     sp_grace_extended p = (outage ts \<noteq> [])"

lemma sop_tracks_step:
  assumes "sop_tracks cfg ts p" "\<forall>u\<in>set (outage ts). tk_now u \<le> tk_now t"
  shows "sop_tracks cfg (ts @ [t]) (sop_tick cfg t p)"
proof (cases "tk_reached t")
  case True
  then show ?thesis by (simp add: sop_tracks_def sop_tick_def recovered_def outage_snoc sop_spec_def)
next
  case False
  show ?thesis
  proof (cases "outage ts")
    case Nil
    with False assms show ?thesis
      by (auto simp: sop_tracks_def sop_tick_def unreachable_tick_def emit_grace_extension_def outage_snoc sop_spec_def Let_def)
  next
    case (Cons u us)
    let ?h = "of_int (sc_manual_gate_after_hours cfg) :: rat"
    have "tk_now (last (u # us)) \<le> tk_now t" using assms(2) Cons by simp
    then have mono: "?h \<le> (tk_now (last (u # us)) - tk_now u) / 3600 \<Longrightarrow> ?h \<le> (tk_now t - tk_now u) / 3600" by simp
    show ?thesis
      using False assms(1) Cons mono
      by (auto simp: sop_tracks_def sop_tick_def unreachable_tick_def outage_snoc sop_spec_def Let_def split: if_splits)
  qed
qed

lemma outage_subset: "set (outage ts) \<subseteq> set ts"
  by (auto simp: outage_def dest: set_takeWhileD)

lemma sop_tracks_run: "sorted (map tk_now ts) \<Longrightarrow> sop_tracks cfg ts (fold (sop_tick cfg) ts sop_init)"
proof (induction ts rule: rev_induct)
  case Nil
  then show ?case by (simp add: sop_tracks_def sop_init_def sop_spec_def outage_def)
next
  case (snoc t ts)
  then have "sorted (map tk_now ts)" "\<forall>u\<in>set (outage ts). tk_now u \<le> tk_now t"
    using outage_subset [of ts] by (auto simp: sorted_append)
  then show ?case using snoc.IH sop_tracks_step by simp
qed

text \<open>Recovery from the manual gate drains nothing; the tick after it does.\<close>

lemma manual_gate_keeps_queue:
  "sp_state p = MANUAL_GATE \<Longrightarrow> fst (snd (snd (sop_run_once c hash e cfg now p q s))) = q"
  by (cases "ping_nas c s"; cases "fst (ping_nas c s)") (auto simp: sop_run_once_def Let_def)

section \<open>Properties\<close>

text \<open>
  C36. With a clock that does not run backwards, the state depends only on the current outage, the ticks since the store last
  answered: it is the manual gate exactly when the outage has lasted the configured hours, otherwise the alert
  state exactly when the backlog was above a threshold at some tick of the outage, and automatic operation else.
\<close>

theorem sop_state_is_outage:
  assumes "sorted (map fst ticks)"
  shows "sp_state (sop_run c hash e cfg ticks sop_init) = sop_spec cfg (observations c cfg ticks)"
proof -
  have "map tk_now (observations c cfg ticks) = map fst ticks" by (auto simp: observations_def observe_def)
  then show ?thesis using sop_tracks_run [of "observations c cfg ticks" cfg] assms by (simp add: sop_run_fold sop_tracks_def)
qed

definition example_rq :: rq where
  "example_rq = \<lparr>rq_rows = [], rq_payloads = [], rq_max_segments = 1, rq_max_bytes = 1, rq_hard_floor = 1\<rparr>"

theorem sop_state_is_outage_witness:
  "sp_state (sop_run mem_s3 id (example_qenv ''a'') sop_defaults
      [(0, example_rq, \<lparr>m_up = False, m_objects = []\<rparr>), (86400, example_rq, \<lparr>m_up = False, m_objects = []\<rparr>)] sop_init) = MANUAL_GATE"
proof -
  let ?t = "[(0 :: seconds, example_rq, \<lparr>m_up = False, m_objects = []\<rparr>), (86400, example_rq, \<lparr>m_up = False, m_objects = []\<rparr>)]"
  have s: "sorted (map fst ?t)" by simp
  have "fst (ping_nas mem_s3 \<lparr>m_up = False, m_objects = []\<rparr>) = False" by (simp add: ping_nas_def mem_s3_def when_up_def)
  then have "sop_spec sop_defaults (observations mem_s3 sop_defaults ?t) = MANUAL_GATE"
    by (simp add: sop_spec_def outage_def observations_def observe_def sop_defaults_def)
  then show ?thesis using sop_state_is_outage [OF s, of mem_s3 id "example_qenv ''a''" sop_defaults] by simp
qed

end
