(* ===== verification/InvariantHarness.thy ===== *)
theory InvariantHarness
  imports NasUploader
begin

text \<open>
  \<^verbatim>\<open>nas_migration/invariant_harness.py\<close>: comparing a local partition with its copy on the NAS by eight invariants.

  The local disk is the content of its files; \<open>he_readable\<close> says which of them can be read. What pyarrow reads
  from the bytes of a Parquet file, the columns with their types and the number of rows, is the parameter
  \<open>meta\<close>; column names of one file are distinct. \<open>hash\<close> stands for SHA-256. Of an individual result the model
  keeps the status and the mismatching files, not the measured values; latency and metrics are left out.

  The theory shows what a partition that passes all checks satisfies, and that a partition whose files are
  on both sides cannot pass while the store answers. The locale \<open>verifier\<close> is what the programs that call the harness rely on.
\<close>

section \<open>Definitions\<close>

record col_schema =
  cs_fields :: "(string \<times> string) list"

definition schema_names :: "col_schema \<Rightarrow> string list" where
  "schema_names sc = map fst (cs_fields sc)"

type_synonym parquet_meta = "bytes \<Rightarrow> py_error + col_schema \<times> int"

definition ohlcv_names :: "string list" where
  "ohlcv_names =
     [''schema_version'', ''exchange'', ''symbol'', ''date'', ''ts'', ''open'', ''high'', ''low'', ''close'', ''volume'', ''vwap'',
      ''trade_count'', ''bid_count'', ''ask_count'', ''source_provenance'', ''ingestion_ts'']"

definition ADR009_CHANNEL_SCHEMA_MATRIX :: "(string \<times> int \<times> string list) list" where
  "ADR009_CHANNEL_SCHEMA_MATRIX =
     [(''orderbook_snapshot.v1'', 11,
        [''ts_utc'', ''received_at'', ''exchange'', ''symbol'', ''baseline_seq'', ''side'', ''level'', ''price'', ''quantity'',
         ''payload_hash'', ''raw_json'']),
      (''tick.v1'', 8, [''ts_utc'', ''received_at'', ''exchange'', ''symbol'', ''price'', ''quantity'', ''side'', ''raw_json'']),
      (''tick.v1.1'', 11,
        [''ts_utc'', ''received_at'', ''exchange'', ''symbol'', ''price'', ''quantity'', ''side'', ''raw_json'',
         ''ingest_seq'', ''payload_hash'', ''validation_status'']),
      (''ohlcv.v1'', 16, ohlcv_names)]"

datatype invariant_status =
    all_pass | sha256_fail | object_count_fail | row_count_fail | column_count_fail | column_order_fail
  | dtype_fail | schema_version_fail | ambiguity_fail

record per_invariant =
  pi_pass :: bool
  pi_mismatch_files :: "string list"

record per_invariant_results =
  pr_sha256 :: per_invariant
  pr_object_count :: per_invariant
  pr_row_count :: per_invariant
  pr_column_count :: per_invariant
  pr_column_order :: per_invariant
  pr_dtype :: per_invariant
  pr_schema_version :: per_invariant
  pr_ambiguity :: per_invariant

record invariant_result =
  ir_status :: invariant_status
  ir_per_invariant :: per_invariant_results
  ir_local_partition :: path
  ir_nas_partition :: string

record harness =
  hc_expected_column_count :: "int option"
  hc_expected_column_names :: "string list option"
  hc_expected_schema_version :: "string list"
  hc_partition_normalization :: bool

definition harness_init :: "int option \<Rightarrow> string list option \<Rightarrow> string list \<Rightarrow> bool \<Rightarrow> harness" where
  "harness_init cnt names versions normalization =
     \<lparr>hc_expected_column_count = cnt,
      hc_expected_column_names = (if cnt \<noteq> None \<and> names = None then Some ohlcv_names else names),
      hc_expected_schema_version = versions, hc_partition_normalization = normalization\<rparr>"

record local_side =
  he_files :: "bytes fsys"
  he_readable :: "path \<Rightarrow> bool"

text \<open>\<^verbatim>\<open>str(path)\<close> and \<^verbatim>\<open>key.split("/")[-1]\<close>\<close>

definition path_str :: "path \<Rightarrow> string" where
  "path_str p = concat (map (\<lambda>c. ''/'' @ c) p)"

definition key_name :: "string \<Rightarrow> string" where
  "key_name k = last (split_on CHR ''/'' k)"

text \<open>\<^verbatim>\<open>sorted(dir.glob("*.parquet"))\<close>: the files of the directory itself.\<close>

definition glob_parquet :: "path \<Rightarrow> bytes fsys \<Rightarrow> path list" where
  "glob_parquet dir fs =
     sort (remdups (filter (\<lambda>p. p \<noteq> [] \<and> butlast p = dir \<and> ends_with (path_name p) ''.parquet'') (map fst fs)))"

text \<open>\<^verbatim>\<open>re.search(r"schema_version=([^/\\]+)", s)\<close>\<close>

fun extract_schema_version :: "string \<Rightarrow> string option" where
  "extract_schema_version [] = None"
| "extract_schema_version (x # s) =
     (let v = takeWhile (\<lambda>c. c \<noteq> CHR ''/'' \<and> c \<noteq> CHR 0x5C) (drop 15 (x # s))
      in if starts_with (x # s) ''schema_version='' \<and> v \<noteq> [] then Some v else extract_schema_version s)"

definition version_ok :: "string list \<Rightarrow> string \<Rightarrow> bool" where
  "version_ok valid s =
     (case extract_schema_version s of
        Some v \<Rightarrow> v \<in> set valid
      | None \<Rightarrow> list_ex (\<lambda>v. has_sub (''schema_version='' @ v) s) valid)"

definition local_str :: "path \<Rightarrow> string" where
  "local_str p = replace_char CHR 0x5C CHR ''/'' (path_str p)"

definition check_schema_version :: "harness \<Rightarrow> path \<Rightarrow> string \<Rightarrow> per_invariant" where
  "check_schema_version h local_partition nas_partition =
     \<lparr>pi_pass = (version_ok (hc_expected_schema_version h) (local_str local_partition) \<and>
                 version_ok (hc_expected_schema_version h) nas_partition),
      pi_mismatch_files = []\<rparr>"

definition resolve_expected_column_count :: "harness \<Rightarrow> path \<Rightarrow> int option \<times> string list option" where
  "resolve_expected_column_count h p =
     (case hc_expected_column_count h of
        Some n \<Rightarrow> (Some n, hc_expected_column_names h)
      | None \<Rightarrow>
          (case extract_schema_version (local_str p) of
             None \<Rightarrow> (None, None)
           | Some v \<Rightarrow>
               (case map_of ADR009_CHANNEL_SCHEMA_MATRIX v of
                  None \<Rightarrow> (None, None) | Some (n, names) \<Rightarrow> (Some n, Some names))))"

definition check_object_count :: "path list \<Rightarrow> string list \<Rightarrow> per_invariant" where
  "check_object_count local_files nas_objects =
     (let ls = map path_name local_files; ns = map key_name nas_objects
      in if length local_files = length nas_objects then \<lparr>pi_pass = True, pi_mismatch_files = []\<rparr>
         else \<lparr>pi_pass = False,
               pi_mismatch_files = sort (remdups (filter (\<lambda>x. \<not> (x \<in> set ls \<and> x \<in> set ns)) (ls @ ns)))\<rparr>)"

definition dtype_identity :: "col_schema \<Rightarrow> col_schema \<Rightarrow> bool" where
  "dtype_identity l n \<longleftrightarrow>
     schema_names l = schema_names n \<and>
     list_all (\<lambda>x. map_of (cs_fields l) x = map_of (cs_fields n) x) (schema_names l)"

definition normalize_nas_partition :: "string \<Rightarrow> string" where
  "normalize_nas_partition nas_partition = (if has_sub ''node='' nas_partition then nas_partition else nas_partition)"

definition slashed :: "string \<Rightarrow> string" where
  "slashed p = (if ends_with p ''/'' then p else p @ ''/'')"

definition check_nas_partition_exists :: "'s s3 \<Rightarrow> string \<Rightarrow> 's \<Rightarrow> bool \<times> 's" where
  "check_nas_partition_exists c nas_partition s =
     (case s3_list c (slashed nas_partition) s of (Inl e, s') \<Rightarrow> (False, s') | (Inr ks, s') \<Rightarrow> (ks \<noteq> [], s'))"

definition check_ambiguity :: "'s s3 \<Rightarrow> path \<Rightarrow> string \<Rightarrow> path list \<Rightarrow> 's \<Rightarrow> per_invariant \<times> 's" where
  "check_ambiguity c local_partition nas_partition local_files s =
     (if local_files = [] then (\<lparr>pi_pass = True, pi_mismatch_files = []\<rparr>, s)
      else case check_nas_partition_exists c nas_partition s of
             (True, s') \<Rightarrow> (\<lparr>pi_pass = False, pi_mismatch_files = [path_str local_partition]\<rparr>, s')
           | (False, s') \<Rightarrow> (\<lparr>pi_pass = True, pi_mismatch_files = []\<rparr>, s'))"

text \<open>The mismatches of one file, in the order of the five lists of the source.\<close>

record file_check =
  fc_sha256 :: bool
  fc_row_count :: bool
  fc_column_count :: bool
  fc_column_order :: bool
  fc_dtype :: bool

definition compare_data ::
  "(bytes \<Rightarrow> string) \<Rightarrow> parquet_meta \<Rightarrow> harness \<Rightarrow> path \<Rightarrow> bytes \<Rightarrow> bytes \<Rightarrow> file_check" where
  "compare_data hash meta h p local_data nas_data =
     (let sha = (hash local_data \<noteq> hash nas_data)
      in case (meta local_data, meta nas_data) of
           (Inr (ls, lrows), Inr (ns, nrows)) \<Rightarrow>
             let (cnt, names) = resolve_expected_column_count h p
             in \<lparr>fc_sha256 = sha, fc_row_count = (lrows \<noteq> nrows),
                 fc_column_count =
                   (case cnt of None \<Rightarrow> True
                    | Some n \<Rightarrow> int (length (schema_names ls)) \<noteq> n \<or> int (length (schema_names ns)) \<noteq> n),
                 fc_column_order = (case names of None \<Rightarrow> True | Some xs \<Rightarrow> schema_names ls \<noteq> xs \<or> schema_names ns \<noteq> xs),
                 fc_dtype = (\<not> dtype_identity ls ns)\<rparr>
         | _ \<Rightarrow> \<lparr>fc_sha256 = sha, fc_row_count = True, fc_column_count = True, fc_column_order = True, fc_dtype = True\<rparr>)"

definition check_file ::
  "'s s3 \<Rightarrow> (bytes \<Rightarrow> string) \<Rightarrow> parquet_meta \<Rightarrow> harness \<Rightarrow> local_side \<Rightarrow> path \<Rightarrow> string \<Rightarrow> 's \<Rightarrow> (py_error + file_check) \<times> 's" where
  "check_file c hash meta h l p nas_key s =
     (case download c nas_key s of
        (Inl e, s') \<Rightarrow>
          (Inr \<lparr>fc_sha256 = True, fc_row_count = True, fc_column_count = True, fc_column_order = True, fc_dtype = True\<rparr>, s')
      | (Inr nas_data, s') \<Rightarrow>
          (case fs_get (he_files l) p of
             None \<Rightarrow> (Inl FileNotFoundError, s')
           | Some local_data \<Rightarrow>
               if he_readable l p then (Inr (compare_data hash meta h p local_data nas_data), s') else (Inl OSError, s')))"

fun check_files ::
  "'s s3 \<Rightarrow> (bytes \<Rightarrow> string) \<Rightarrow> parquet_meta \<Rightarrow> harness \<Rightarrow> local_side \<Rightarrow> (string \<times> path \<times> string) list \<Rightarrow> 's
     \<Rightarrow> (py_error + (string \<times> file_check) list) \<times> 's" where
  "check_files c hash meta h l [] s = (Inr [], s)"
| "check_files c hash meta h l ((name, p, k) # rest) s =
     and_then (check_file c hash meta h l p k s) (\<lambda>fc s.
       and_then (check_files c hash meta h l rest s) (\<lambda>fcs s. (Inr ((name, fc) # fcs), s)))"

text \<open>The files found on both sides, by base name; of two with the same name the later one counts.\<close>

definition common_files :: "path list \<Rightarrow> string list \<Rightarrow> (string \<times> path \<times> string) list" where
  "common_files local_files nas_objects =
     (let ls = rev (map (\<lambda>p. (path_name p, p)) local_files); ns = rev (map (\<lambda>k. (key_name k, k)) nas_objects);
          names = sort (remdups (filter (\<lambda>x. x \<in> set (map fst ns)) (map fst ls)))
      in map (\<lambda>x. (x, the (map_of ls x), the (map_of ns x))) names)"

definition per_file_result :: "(file_check \<Rightarrow> bool) \<Rightarrow> (string \<times> file_check) list \<Rightarrow> per_invariant" where
  "per_file_result bad fcs =
     (let ms = map fst (filter (\<lambda>(x, fc). bad fc) fcs) in \<lparr>pi_pass = (ms = []), pi_mismatch_files = ms\<rparr>)"

definition decide_status :: "per_invariant_results \<Rightarrow> invariant_status" where
  "decide_status r =
     (if \<not> pi_pass (pr_object_count r) then object_count_fail
      else if \<not> pi_pass (pr_sha256 r) then sha256_fail
      else if \<not> pi_pass (pr_row_count r) then row_count_fail
      else if \<not> pi_pass (pr_column_count r) then column_count_fail
      else if \<not> pi_pass (pr_column_order r) then column_order_fail
      else if \<not> pi_pass (pr_dtype r) then dtype_fail
      else if \<not> pi_pass (pr_schema_version r) then schema_version_fail
      else if \<not> pi_pass (pr_ambiguity r) then ambiguity_fail
      else all_pass)"

definition verify ::
  "'s s3 \<Rightarrow> (bytes \<Rightarrow> string) \<Rightarrow> parquet_meta \<Rightarrow> harness \<Rightarrow> local_side \<Rightarrow> path \<Rightarrow> string \<Rightarrow> path list option \<Rightarrow> string list option
     \<Rightarrow> 's \<Rightarrow> (py_error + invariant_result) \<times> 's" where
  "verify c hash meta h l local_partition nas_partition files objects s =
     (let local_files = (case files of None \<Rightarrow> glob_parquet local_partition (he_files l) | Some fs \<Rightarrow> fs);
          nas = (if hc_partition_normalization h then normalize_nas_partition nas_partition else nas_partition)
      in and_then (case objects of None \<Rightarrow> list_objects c nas s | Some ks \<Rightarrow> (Inr ks, s)) (\<lambda>nas_objects s.
         and_then (check_files c hash meta h l (common_files local_files nas_objects) s) (\<lambda>fcs s.
           case check_ambiguity c local_partition nas local_files s of
             (amb, s) \<Rightarrow>
               let r = \<lparr>pr_sha256 = per_file_result fc_sha256 fcs, pr_object_count = check_object_count local_files nas_objects,
                        pr_row_count = per_file_result fc_row_count fcs, pr_column_count = per_file_result fc_column_count fcs,
                        pr_column_order = per_file_result fc_column_order fcs, pr_dtype = per_file_result fc_dtype fcs,
                        pr_schema_version = check_schema_version h local_partition nas, pr_ambiguity = amb\<rparr>
               in (Inr \<lparr>ir_status = decide_status r, ir_per_invariant = r, ir_local_partition = local_partition, ir_nas_partition = nas\<rparr>, s))))"

section \<open>What a pass means\<close>

text \<open>The local file and the object agree in digest, rows and columns, and the columns are the expected ones.\<close>

definition agrees ::
  "(bytes \<Rightarrow> string) \<Rightarrow> parquet_meta \<Rightarrow> harness \<Rightarrow> local_side \<Rightarrow> bucket \<Rightarrow> path \<Rightarrow> string \<Rightarrow> bool" where
  "agrees hash meta h l b p k \<longleftrightarrow>
     (\<exists>d ob ls ns n. fs_get (he_files l) p = Some d \<and> b k = Some ob \<and> hash d = hash (ob_body ob) \<and>
        meta d = Inr (ls, n) \<and> meta (ob_body ob) = Inr (ns, n) \<and> dtype_identity ls ns \<and>
        resolve_expected_column_count h p = (Some (int (length (schema_names ls))), Some (schema_names ls)))"

definition clean :: "file_check \<Rightarrow> bool" where
  "clean fc \<longleftrightarrow> \<not> fc_sha256 fc \<and> \<not> fc_row_count fc \<and> \<not> fc_column_count fc \<and> \<not> fc_column_order fc \<and> \<not> fc_dtype fc"

lemma download_view: "s3_laws c v \<Longrightarrow> download c k s = (r, s') \<Longrightarrow> v s' = v s"
  by (cases "s3_get c k s"; cases "fst (s3_get c k s)") (auto simp: download_def dest: get_view)

lemma download_body: "s3_laws c v \<Longrightarrow> download c k s = (Inr d, s') \<Longrightarrow> \<exists>ob. v s k = Some ob \<and> ob_body ob = d"
  by (cases "s3_get c k s"; cases "fst (s3_get c k s)") (auto simp: download_def dest: get_body)

lemma list_objects_view: "s3_laws c v \<Longrightarrow> list_objects c p s = (r, s') \<Longrightarrow> v s' = v s"
  by (cases "s3_list c p s"; cases "fst (s3_list c p s)") (auto simp: list_objects_def dest: list_view)

lemma list_objects_keys:
  "s3_laws c v \<Longrightarrow> list_objects c p s = (Inr ks, s') \<Longrightarrow> set ks = {k. v s k \<noteq> None \<and> starts_with k p}"
  by (cases "s3_list c p s"; cases "fst (s3_list c p s)") (auto simp: list_objects_def dest: list_keys)

lemma compare_data_clean:
  assumes "clean (compare_data hash meta h p d nd)"
  shows "\<exists>ls ns n. hash d = hash nd \<and> meta d = Inr (ls, n) \<and> meta nd = Inr (ns, n) \<and> dtype_identity ls ns \<and>
           resolve_expected_column_count h p = (Some (int (length (schema_names ls))), Some (schema_names ls))"
proof (cases "meta d")
  case (Inl e)
  then show ?thesis using assms by (simp add: compare_data_def clean_def)
next
  case l: (Inr a)
  obtain ls n where a: "a = (ls, n)" by fastforce
  show ?thesis
  proof (cases "meta nd")
    case (Inl e)
    then show ?thesis using assms l a by (simp add: compare_data_def clean_def)
  next
    case (Inr b)
    obtain ns m where b: "b = (ns, m)" by fastforce
    obtain cnt names where r: "resolve_expected_column_count h p = (cnt, names)" by fastforce
    show ?thesis
      using assms l a Inr b r by (cases cnt; cases names) (auto simp: compare_data_def clean_def)
  qed
qed

lemma check_file_view: "s3_laws c v \<Longrightarrow> check_file c hash meta h l p k s = (r, s') \<Longrightarrow> v s' = v s"
  using download_view [of c v k s]
  by (cases "download c k s"; cases "fst (download c k s)") (auto simp: check_file_def split: option.splits if_splits)

lemma check_file_clean:
  assumes "s3_laws c v" "check_file c hash meta h l p k s = (Inr fc, s')" "clean fc"
  shows "agrees hash meta h l (v s) p k"
proof -
  obtain r t where d: "download c k s = (r, t)" by fastforce
  show ?thesis
  proof (cases r)
    case (Inl e)
    then show ?thesis using assms(2,3) d by (auto simp: check_file_def clean_def)
  next
    case (Inr nd)
    then obtain d' where f: "fs_get (he_files l) p = Some d'" "fc = compare_data hash meta h p d' nd"
      using assms(2) d by (auto simp: check_file_def split: option.splits if_splits)
    show ?thesis
      using compare_data_clean [OF assms(3) [unfolded f(2)]] f(1) download_body [OF assms(1) d [unfolded Inr]]
      by (auto simp: agrees_def)
  qed
qed

lemma check_files_sound:
  assumes "s3_laws c v" "check_files c hash meta h l xs s = (r, s')"
  shows "v s' = v s"
    "r = Inr fcs \<Longrightarrow> list_all (\<lambda>(x, fc). clean fc) fcs \<Longrightarrow> (x, p, k) \<in> set xs \<Longrightarrow> agrees hash meta h l (v s) p k"
proof -
  have "v s' = v s \<and> (\<forall>fcs x p k. r = Inr fcs \<longrightarrow> list_all (\<lambda>(x, fc). clean fc) fcs \<longrightarrow> (x, p, k) \<in> set xs \<longrightarrow>
          agrees hash meta h l (v s) p k)"
    using assms(2)
  proof (induction xs arbitrary: s r s')
    case (Cons a xs)
    obtain name q j where a: "a = (name, q, j)" by (metis prod_cases3)
    obtain r1 s1 where f: "check_file c hash meta h l q j s = (r1, s1)" by fastforce
    obtain r2 s2 where g: "check_files c hash meta h l xs s1 = (r2, s2)" by fastforce
    note v1 = check_file_view [OF assms(1) f] and ih = Cons.IH [OF g]
    show ?case
    proof (cases r1)
      case (Inl e)
      then show ?thesis using Cons.prems f v1 by (auto simp: a)
    next
      case fc: (Inr fc)
      note one = check_file_clean [OF assms(1) f [unfolded fc]]
      show ?thesis
      proof (cases r2)
        case (Inl e)
        then show ?thesis using Cons.prems f g v1 ih fc by (auto simp: a)
      next
        case (Inr fcs)
        then show ?thesis using Cons.prems f g v1 ih fc one by (auto simp: a)
      qed
    qed
  qed simp
  then show "v s' = v s" "r = Inr fcs \<Longrightarrow> list_all (\<lambda>(x, fc). clean fc) fcs \<Longrightarrow> (x, p, k) \<in> set xs \<Longrightarrow> agrees hash meta h l (v s) p k"
    by blast+
qed

lemma all_pass_iff:
  "decide_status r = all_pass \<longleftrightarrow>
     pi_pass (pr_object_count r) \<and> pi_pass (pr_sha256 r) \<and> pi_pass (pr_row_count r) \<and> pi_pass (pr_column_count r) \<and>
     pi_pass (pr_column_order r) \<and> pi_pass (pr_dtype r) \<and> pi_pass (pr_schema_version r) \<and> pi_pass (pr_ambiguity r)"
  by (simp add: decide_status_def)

lemma per_file_pass: "pi_pass (per_file_result bad fcs) \<longleftrightarrow> list_all (\<lambda>(x, fc). \<not> bad fc) fcs"
  by (auto simp: per_file_result_def Let_def filter_empty_conv list_all_iff)

lemma check_ambiguity_view: "s3_laws c v \<Longrightarrow> check_ambiguity c lp np fs s = (r, s') \<Longrightarrow> v s' = v s"
  by (cases "s3_list c (slashed np) s"; cases "fst (s3_list c (slashed np) s)")
    (auto simp: check_ambiguity_def check_nas_partition_exists_def dest: list_view split: if_splits bool.splits)

lemma check_ambiguity_pass:
  assumes "s3_laws c v" "check_ambiguity c lp np fs s = (r, s')" "pi_pass r" "fs \<noteq> []" "s3_list c (slashed np) s = (Inr ks, t)"
    "starts_with k (slashed np)"
  shows "v s k = None"
proof -
  have "ks = []" using assms(2-5) by (cases ks) (auto simp: check_ambiguity_def check_nas_partition_exists_def)
  then show ?thesis using list_keys [OF assms(1,5)] assms(6) by auto
qed

text \<open>The files, the partition and the objects a call compares.\<close>

definition the_files :: "local_side \<Rightarrow> path \<Rightarrow> path list option \<Rightarrow> path list" where
  "the_files l lp files = (case files of None \<Rightarrow> glob_parquet lp (he_files l) | Some fs \<Rightarrow> fs)"

definition the_objects :: "bucket \<Rightarrow> string \<Rightarrow> string list option \<Rightarrow> string list \<Rightarrow> bool" where
  "the_objects b np objects ks =
     (case objects of None \<Rightarrow> set ks = {k. b k \<noteq> None \<and> starts_with k np} | Some os \<Rightarrow> ks = os)"

lemma normalize_id [simp]: "normalize_nas_partition np = np"
  by (simp add: normalize_nas_partition_def)

lemma verify_steps:
  assumes "s3_laws c v" "verify c hash meta h l lp np files objects s = (r, s')"
  obtains (raises) e where "r = Inl e" "v s' = v s"
  | (returns) res ks fcs s1 s2 where "r = Inr res" "v s1 = v s" "the_objects (v s) np objects ks"
      "check_files c hash meta h l (common_files (the_files l lp files) ks) s1 = (Inr fcs, s2)" "v s2 = v s"
      "check_ambiguity c lp np (the_files l lp files) s2 = (pr_ambiguity (ir_per_invariant res), s')" "v s' = v s"
      "ir_status res = decide_status (ir_per_invariant res)"
      "pr_object_count (ir_per_invariant res) = check_object_count (the_files l lp files) ks"
      "pr_schema_version (ir_per_invariant res) = check_schema_version h lp np"
      "pi_pass (pr_sha256 (ir_per_invariant res)) \<and> pi_pass (pr_row_count (ir_per_invariant res)) \<and>
       pi_pass (pr_column_count (ir_per_invariant res)) \<and> pi_pass (pr_column_order (ir_per_invariant res)) \<and>
       pi_pass (pr_dtype (ir_per_invariant res)) \<Longrightarrow> list_all (\<lambda>(x, fc). clean fc) fcs"
proof -
  obtain ro s1 where o: "(case objects of None \<Rightarrow> list_objects c np s | Some ks \<Rightarrow> (Inr ks, s)) = (ro, s1)" by fastforce
  have v1: "v s1 = v s" using o list_objects_view [OF assms(1)] by (auto split: option.splits)
  note body = assms(2) [unfolded verify_def Let_def the_files_def [symmetric] normalize_id if_cancel o]
  show thesis
  proof (cases ro)
    case (Inl e)
    then show thesis using raises [of e] body v1 by simp
  next
    case ks: (Inr ks)
    have objs: "the_objects (v s) np objects ks"
      using o ks list_objects_keys [OF assms(1)] by (auto simp: the_objects_def split: option.splits)
    obtain rf s2 where f: "check_files c hash meta h l (common_files (the_files l lp files) ks) s1 = (rf, s2)" by fastforce
    have v2: "v s2 = v s" using check_files_sound(1) [OF assms(1) f] v1 by simp
    show thesis
    proof (cases rf)
      case (Inl e)
      then show thesis using raises [of e] body f v2 by (simp add: ks)
    next
      case fcs: (Inr fcs)
      obtain amb s3 where a: "check_ambiguity c lp np (the_files l lp files) s2 = (amb, s3)" by fastforce
      have v3: "v s3 = v s" using check_ambiguity_view [OF assms(1) a] v2 by simp
      show thesis
        by (rule returns [OF _ v1 objs f [unfolded fcs] v2])
          (use body f a v3 in \<open>auto simp: ks fcs per_file_pass list_all_iff clean_def\<close>)
    qed
  qed
qed

text \<open>Listings are answered.\<close>

definition answers :: "'s s3 \<Rightarrow> bool" where
  "answers c \<longleftrightarrow> (\<forall>p s. \<exists>ks s'. s3_list c p s = (Inr ks, s'))"

text \<open>The store in memory with listings that are always answered.\<close>

definition listing_s3 :: "mem s3" where
  "listing_s3 = mem_s3\<lparr>s3_list := (\<lambda>p m. (Inr (filter (\<lambda>k. starts_with k p) (map fst (m_objects m))), m))\<rparr>"

lemma listing_laws: "s3_laws listing_s3 mem_view"
proof -
  have "read_law listing_s3 mem_view"
    using mem_laws by (auto simp: s3_laws_def read_law_def listing_s3_def mem_view_def map_of_eq_None_iff)
  then show ?thesis
    using mem_laws by (simp add: s3_laws_def head_law_def write_law_def copy_law_def delete_law_def listing_s3_def)
qed

lemma listing_answers: "answers listing_s3"
  by (simp add: answers_def listing_s3_def)

lemma verify_view: "s3_laws c v \<Longrightarrow> verify c hash meta h l lp np files objects s = (r, s') \<Longrightarrow> v s' = v s"
  by (erule verify_steps) auto

lemma both_sides_fail:
  assumes "s3_laws c v" "answers c" "verify c hash meta h l lp np files objects s = (Inr res, s')"
    "the_files l lp files \<noteq> []" "v s k \<noteq> None" "starts_with k (slashed np)"
  shows "ir_status res \<noteq> all_pass"
  using assms(1,3)
proof (cases rule: verify_steps)
  case (returns res' ks fcs s1 s2)
  obtain ls t where "s3_list c (slashed np) s2 = (Inr ls, t)" using assms(2) unfolding answers_def by blast
  from check_ambiguity_pass [OF assms(1) returns(6) _ assms(4) this assms(6)]
  have "\<not> pi_pass (pr_ambiguity (ir_per_invariant res'))" using returns(5) assms(5) by auto
  then show ?thesis using returns(1,8) by (auto simp: all_pass_iff)
qed simp

section \<open>The interface of the harness\<close>

text \<open>
  What the migration programs rely on: a check changes nothing, and one that is hopeless in what the store shows
  does not pass. \<open>given\<close> collects the assumptions about the store.
\<close>

locale verifier =
  fixes run_check :: "'a \<Rightarrow> 's \<Rightarrow> (py_error + 'r) \<times> 's"
    and passes :: "'r \<Rightarrow> bool"
    and shows_store :: "'s \<Rightarrow> 'b"
    and hopeless :: "'a \<Rightarrow> 'b \<Rightarrow> bool"
    and given :: bool
  assumes check_keeps: "given \<Longrightarrow> run_check x s = (q, s') \<Longrightarrow> shows_store s' = shows_store s"
    and hopeless_fails: "given \<Longrightarrow> hopeless x (shows_store s) \<Longrightarrow> run_check x s = (Inr r, s') \<Longrightarrow> \<not> passes r"
begin

text \<open>Repeating a check while it does not pass, with a budget and the last result kept, does not help.\<close>

lemma repeated_check:
  assumes "given" "hopeless x (shows_store s)"
    "\<And>n y s. again (Suc n) y s = and_then (run_check x s) (\<lambda>r s. if passes r then (Inr (Some n, r), s) else again n r s)"
    "\<And>y s. again 0 y s = (Inr (None, y), s)" "again n y s = (res, s')"
  shows "shows_store s' = shows_store s \<and> (\<forall>k r. res \<noteq> Inr (Some k, r))"
  using assms(2,5)
proof (induction n arbitrary: y s)
  case 0
  then show ?case by (auto simp: assms(4))
next
  case (Suc n)
  obtain q t where q: "run_check x s = (q, t)" by fastforce
  note keeps = check_keeps [OF assms(1) q]
  show ?case
  proof (cases q)
    case (Inl e)
    then show ?thesis using Suc.prems q keeps by (auto simp: assms(3))
  next
    case (Inr r)
    have "\<not> passes r" using hopeless_fails [OF assms(1) Suc.prems(1) q [unfolded Inr]] .
    then have "again n r t = (res, s')" using Suc.prems(2) q Inr by (simp add: assms(3))
    then show ?thesis using Suc.IH [of t] Suc.prems(1) keeps by simp
  qed
qed

end

text \<open>Calls of the harness: the partition on both sides, and the files and objects if they are given.\<close>

type_synonym verify_call = "path \<times> string \<times> path list option \<times> string list option"

definition run_verify ::
  "'s s3 \<Rightarrow> (bytes \<Rightarrow> string) \<Rightarrow> parquet_meta \<Rightarrow> harness \<Rightarrow> local_side \<Rightarrow> verify_call \<Rightarrow> 's \<Rightarrow> (py_error + invariant_result) \<times> 's" where
  "run_verify c hash meta h l x s = (case x of (lp, np, files, objects) \<Rightarrow> verify c hash meta h l lp np files objects s)"

definition on_both_sides :: "local_side \<Rightarrow> verify_call \<Rightarrow> bucket \<Rightarrow> bool" where
  "on_both_sides l x b =
     (case x of (lp, np, files, objects) \<Rightarrow> the_files l lp files \<noteq> [] \<and> (\<exists>k. b k \<noteq> None \<and> starts_with k (slashed np)))"

interpretation harness_check: verifier "run_verify c hash meta h l" "\<lambda>r. ir_status r = all_pass" v "on_both_sides l" "s3_laws c v \<and> answers c"
  for c hash meta h l v
proof unfold_locales
  fix x s r s'
  assume "s3_laws c v \<and> answers c" "run_verify c hash meta h l x s = (r, s')"
  then show "v s' = v s" by (cases x) (auto simp: run_verify_def intro: verify_view)
next
  fix x s r s'
  assume "s3_laws c v \<and> answers c" "on_both_sides l x (v s)" "run_verify c hash meta h l x s = (Inr r, s')"
  then show "ir_status r \<noteq> all_pass"
    by (cases x) (auto simp: run_verify_def on_both_sides_def dest: both_sides_fail)
qed

section \<open>Properties\<close>


definition example_harness :: harness where
  "example_harness = harness_init (Some 1) (Some [''ts'']) [''v1''] False"

definition example_meta :: parquet_meta where
  "example_meta d = Inr (\<lparr>cs_fields = [(''ts'', ''int64'')]\<rparr>, int (length d))"

definition example_local :: "string \<Rightarrow> local_side" where
  "example_local name = \<lparr>he_files = [([''schema_version=v1'', name], ''data'')], he_readable = (\<lambda>p. True)\<rparr>"


end
