(* ===== verification/Backfill.thy ===== *)
theory Backfill
  imports InvariantHarness NasSop Calendar
begin

text \<open>
  \<^verbatim>\<open>nas_migration/backfill_orchestrator.py\<close>: uploading the local files of past days, one chunk per file, with a checkpoint table that lets
  an interrupted run resume.

  The state is the checkpoint (the SQLite table, whose statements do not fail; the time of the last attempt is left out), the uploader with
  its store and queue, and the lines of the evidence file. The thread pool is a list of the pending chunks in the
  order in which their threads run, each with what its thread meets: the chunks touch different rows, and the processing of a chunk is one step.
  When the manual gate stops the loop, a future that has not started is cancelled, while one that has started still runs, without being recorded.
  \<open>hash\<close> stands for the SHA-256 hex digest. The evidence file can be written. Metrics, durations, the unused file lock and \<^verbatim>\<open>shutdown\<close>, which sets a flag nothing reads, are left out.

  The theory composes the uploader, the harness and the checkpoint: it shows what a run never undoes, and that no run verifies a chunk while the store answers.
\<close>

section \<open>Chunks\<close>

record chunk_spec =
  ck_symbol :: string
  ck_date :: string
  ck_source_path :: path
  ck_nas_object_key :: string
  ck_nas_partition_prefix :: string
  ck_is_legacy_node :: bool
  ck_chunk_id :: string

fun extract_hive_value :: "path \<Rightarrow> string \<Rightarrow> string option" where
  "extract_hive_value [] key = None"
| "extract_hive_value (part # parts) key =
     (if starts_with part (key @ ''='') then Some (drop (length key + 1) part) else extract_hive_value parts key)"

text \<open>\<^verbatim>\<open>date(int(y), int(m), int(d))\<close> of the three parts of the text.\<close>

definition parse_date :: "string \<Rightarrow> py_error + timestamp" where
  "parse_date s =
     (case split_on CHR ''-'' s of
        [y, m, d] \<Rightarrow>
          (case py_int y of Inl e \<Rightarrow> Inl e
           | Inr y \<Rightarrow> (case py_int m of Inl e \<Rightarrow> Inl e
             | Inr m \<Rightarrow> (case py_int d of Inl e \<Rightarrow> Inl e | Inr d \<Rightarrow> datetime_ymd y m d)))
      | _ \<Rightarrow> Inl ValueError)"

record backfill_config =
  bc_local_root :: path
  bc_nas_partition_root :: string
  bc_tier :: string
  bc_channel :: string
  bc_verify_retry_budget :: nat

definition under_tier :: "backfill_config \<Rightarrow> path \<Rightarrow> bool" where
  "under_tier cfg p \<longleftrightarrow>
     (let n = length (bc_local_root cfg) + 2
      in take n p = bc_local_root cfg @ [''market'', bc_channel cfg] \<and> n + 2 < length p \<and>
         starts_with (p ! n) ''schema_version='' \<and> p ! (n + 1) = ''tier='' @ bc_tier cfg \<and> ends_with (path_name p) ''.parquet'')"

definition closed_day :: "timestamp \<Rightarrow> path \<Rightarrow> bool" where
  "closed_day today p =
     (case extract_hive_value p ''date'' of
        None \<Rightarrow> False
      | Some s \<Rightarrow> (case parse_date s of Inl e \<Rightarrow> False | Inr d \<Rightarrow> d < today))"

definition discover_partitions :: "backfill_config \<Rightarrow> timestamp \<Rightarrow> local_side \<Rightarrow> path list" where
  "discover_partitions cfg today l = filter (closed_day today) (sort (filter (under_tier cfg) (remdups (map fst (he_files l)))))"

definition or_else :: "string option \<Rightarrow> string \<Rightarrow> string" where
  "or_else v d = (case v of None \<Rightarrow> d | Some x \<Rightarrow> x)"

definition build_chunk_spec :: "(bytes \<Rightarrow> string) \<Rightarrow> backfill_config \<Rightarrow> path \<Rightarrow> chunk_spec" where
  "build_chunk_spec hash cfg p =
     (let exchange = or_else (extract_hive_value p ''exchange'') []; symbol = or_else (extract_hive_value p ''symbol'') ''UNKNOWN'';
          date = or_else (extract_hive_value p ''date'') ''unknown'';
          hour_segment = (case extract_hive_value p ''hour'' of None \<Rightarrow> [] | Some h \<Rightarrow> ''/hour='' @ h);
          node = extract_hive_value p ''node'';
          prefix = bc_nas_partition_root cfg @ ''/exchange='' @ (if exchange = [] then ''UNKNOWN'' else exchange) @ ''/symbol='' @ symbol @
                   ''/date='' @ date @ hour_segment @ ''/node='' @ or_else node ''DEFAULT''
      in \<lparr>ck_symbol = symbol, ck_date = date, ck_source_path = p, ck_nas_object_key = prefix @ ''/'' @ path_name p,
          ck_nas_partition_prefix = prefix, ck_is_legacy_node = (node = None),
          ck_chunk_id = take 16 (hash (symbol @ ''|'' @ date @ ''|'' @ path_str p))\<rparr>)"

section \<open>The checkpoint\<close>

datatype ck_status = CkPending | CkInFlight | CkVerified | CkQuarantined | CkBlocked

record ck_row =
  cr_symbol :: string
  cr_date :: string
  cr_status :: ck_status
  cr_sha256 :: "string option"
  cr_fail_invariant :: "invariant_status option"
  cr_retry_count :: nat

type_synonym checkpoint = "(string \<times> ck_row) list"

definition upsert_one :: "chunk_spec \<Rightarrow> checkpoint \<Rightarrow> checkpoint" where
  "upsert_one ck t =
     (if map_of t (ck_chunk_id ck) \<noteq> None then t
      else t @ [(ck_chunk_id ck, \<lparr>cr_symbol = ck_symbol ck, cr_date = ck_date ck, cr_status = CkPending, cr_sha256 = None,
                                  cr_fail_invariant = None, cr_retry_count = 0\<rparr>)])"

definition ck_upsert_pending :: "chunk_spec list \<Rightarrow> checkpoint \<Rightarrow> checkpoint" where
  "ck_upsert_pending chunks t = fold upsert_one chunks t"

definition get_status :: "checkpoint \<Rightarrow> string \<Rightarrow> ck_status" where
  "get_status t i = (case map_of t i of None \<Rightarrow> CkPending | Some row \<Rightarrow> cr_status row)"

definition ck_update_status ::
  "string \<Rightarrow> ck_status \<Rightarrow> string option \<Rightarrow> invariant_status option \<Rightarrow> nat \<Rightarrow> checkpoint \<Rightarrow> checkpoint" where
  "ck_update_status i st sha fail retries t =
     (case map_of t i of
        None \<Rightarrow> t
      | Some row \<Rightarrow>
          AList.update i (row\<lparr>cr_status := st, cr_sha256 := sha, cr_fail_invariant := fail, cr_retry_count := retries\<rparr>) t)"

definition list_all_rows :: "checkpoint \<Rightarrow> (string \<times> ck_status) list" where
  "list_all_rows t = map (\<lambda>(i, row). (i, cr_status row)) t"

definition count_statuses :: "(string \<times> ck_status) list \<Rightarrow> (ck_status \<times> int) list" where
  "count_statuses records =
     fold (\<lambda>(i, st) counts. AList.update st ((case map_of counts st of None \<Rightarrow> 0 | Some n \<Rightarrow> n) + 1) counts) records []"

definition count_of :: "(ck_status \<times> int) list \<Rightarrow> ck_status \<Rightarrow> int" where
  "count_of counts st = (case map_of counts st of None \<Rightarrow> 0 | Some n \<Rightarrow> n)"

section \<open>Processing a chunk\<close>

datatype chunk_status = chunk_verified | chunk_skipped_resumed | chunk_quarantined | chunk_blocked | chunk_sop_skipped

record chunk_result =
  cres_chunk_id :: string
  cres_status :: chunk_status
  cres_put :: "put_status option"
  cres_invariant :: "invariant_status option"
  cres_retry_count :: nat

record 's backfill =
  bf_checkpoint :: checkpoint
  bf_nas :: "'s nas"
  bf_evidence :: "chunk_result list"

definition chunk_result_of :: "chunk_spec \<Rightarrow> chunk_status \<Rightarrow> put_status option \<Rightarrow> invariant_status option \<Rightarrow> nat \<Rightarrow> chunk_result" where
  "chunk_result_of ck st p i n =
     \<lparr>cres_chunk_id = ck_chunk_id ck, cres_status = st, cres_put = p, cres_invariant = i, cres_retry_count = n\<rparr>"

text \<open>The retry loop: \<open>Some n\<close> when a check passed with \<open>n\<close> attempts left, with the last result.\<close>

primrec retry_verify ::
  "('s \<Rightarrow> (py_error + invariant_result) \<times> 's) \<Rightarrow> nat \<Rightarrow> invariant_result \<Rightarrow> 's \<Rightarrow> (py_error + nat option \<times> invariant_result) \<times> 's" where
  "retry_verify check 0 y s = (Inr (None, y), s)"
| "retry_verify check (Suc n) y s =
     and_then (check s) (\<lambda>r s. if ir_status r = all_pass then (Inr (Some n, r), s) else retry_verify check n r s)"

definition set_store :: "'s \<Rightarrow> 's backfill \<Rightarrow> 's backfill" where
  "set_store s b = b\<lparr>bf_nas := (bf_nas b)\<lparr>n_store := s\<rparr>\<rparr>"

definition ck_mark ::
  "chunk_spec \<Rightarrow> ck_status \<Rightarrow> string option \<Rightarrow> invariant_status option \<Rightarrow> nat \<Rightarrow> 's backfill \<Rightarrow> 's backfill" where
  "ck_mark ck st sha fail n b = b\<lparr>bf_checkpoint := ck_update_status (ck_chunk_id ck) st sha fail n (bf_checkpoint b)\<rparr>"

text \<open>Steps 6 and 7: the first check compares the one file, the repeated ones the whole partition.\<close>

definition verify_chunk ::
  "'s s3 \<Rightarrow> (bytes \<Rightarrow> string) \<Rightarrow> parquet_meta \<Rightarrow> harness \<Rightarrow> local_side \<Rightarrow> nat \<Rightarrow> chunk_spec \<Rightarrow> put_status \<Rightarrow> string \<Rightarrow> 's backfill
     \<Rightarrow> (py_error + chunk_result) \<times> 's backfill" where
  "verify_chunk c hash meta h l budget ck st sha b =
     (let dir = butlast (ck_source_path ck); np = ck_nas_partition_prefix ck
      in case run_verify c hash meta h l (dir, np, Some [ck_source_path ck], Some [ck_nas_object_key ck]) (n_store (bf_nas b)) of
           (Inl e, s) \<Rightarrow> (Inl e, set_store s b)
         | (Inr r, s) \<Rightarrow>
             if ir_status r = all_pass
             then (Inr (chunk_result_of ck chunk_verified (Some st) (Some all_pass) 0), ck_mark ck CkVerified (Some sha) None 0 (set_store s b))
             else case retry_verify (run_verify c hash meta h l (dir, np, None, None)) budget r s of
                    (Inl e, s) \<Rightarrow> (Inl e, set_store s b)
                  | (Inr (Some left, r), s) \<Rightarrow>
                      (Inr (chunk_result_of ck chunk_verified (Some st) (Some (ir_status r)) (budget - left)),
                       ck_mark ck CkVerified (Some sha) None 0 (set_store s b))
                  | (Inr (None, r), s) \<Rightarrow>
                      (Inr (chunk_result_of ck chunk_quarantined (Some st) (Some (ir_status r)) budget),
                       ck_mark ck CkQuarantined None (Some (ir_status r)) budget (set_store s b)))"

definition process_chunk ::
  "'s s3 \<Rightarrow> (bytes \<Rightarrow> string) \<Rightarrow> parquet_meta \<Rightarrow> harness \<Rightarrow> local_side \<Rightarrow> nat \<Rightarrow> bool \<Rightarrow> qenv \<Rightarrow> chunk_spec \<Rightarrow> 's backfill
     \<Rightarrow> (py_error + chunk_result) \<times> 's backfill" where
  "process_chunk c hash meta h l budget gate e ck b =
     (if get_status (bf_checkpoint b) (ck_chunk_id ck) = CkVerified
      then (Inr (chunk_result_of ck chunk_skipped_resumed None None 0), b)
      else if gate then (Inr (chunk_result_of ck chunk_sop_skipped None None 0), b)
      else let b = ck_mark ck CkInFlight None None 0 b
        in case fs_get (he_files l) (ck_source_path ck) of
             None \<Rightarrow> (Inr (chunk_result_of ck chunk_skipped_resumed None None 0), b)
           | Some data \<Rightarrow>
               if \<not> he_readable l (ck_source_path ck) then (Inr (chunk_result_of ck chunk_skipped_resumed None None 0), b)
               else case put c hash e (ck_nas_object_key ck) data (Some (hash data)) False (bf_nas b) of
                      (Inl x, n) \<Rightarrow> (Inr (chunk_result_of ck chunk_skipped_resumed None None 0), b\<lparr>bf_nas := n\<rparr>)
                    | (Inr st, n) \<Rightarrow>
                        let b = b\<lparr>bf_nas := n\<rparr>
                        in if st = PutHardFloorBlocked
                           then (Inr (chunk_result_of ck chunk_blocked (Some st) None 0), ck_mark ck CkBlocked None None 0 b)
                           else if st = Queued then (Inr (chunk_result_of ck chunk_skipped_resumed (Some st) None 0), b)
                           else verify_chunk c hash meta h l budget ck st (hash data) b)"

section \<open>The run\<close>

text \<open>What the thread of a chunk meets: the gate it reads, the values of an enqueue, the gate the loop reads after it, and whether it had started when the loop was stopped.\<close>

record chunk_env =
  ce_gate :: bool
  ce_qenv :: qenv
  ce_gate_after :: bool
  ce_started :: bool

fun dispatch ::
  "(chunk_spec \<Rightarrow> chunk_env \<Rightarrow> 's backfill \<Rightarrow> (py_error + chunk_result) \<times> 's backfill) \<Rightarrow> bool \<Rightarrow> (chunk_spec \<times> chunk_env) list
     \<Rightarrow> 's backfill \<Rightarrow> 's backfill" where
  "dispatch proc stopped [] b = b"
| "dispatch proc stopped ((ck, ce) # rest) b =
     (if stopped
      then dispatch proc True rest (if ce_started ce then snd (proc ck ce b) else b)
      else case proc ck ce b of
             (r, b) \<Rightarrow>
               let res = (case r of Inl x \<Rightarrow> chunk_result_of ck chunk_skipped_resumed None None 0 | Inr res \<Rightarrow> res)
               in dispatch proc (ce_gate_after ce) rest (b\<lparr>bf_evidence := bf_evidence b @ [res]\<rparr>))"

datatype backfill_status = all_chunks_verified | chunk_invariant_failed | bf_chunk_blocked | checkpoint_resumable

record backfill_result =
  br_backfill_status :: backfill_status
  br_total_chunks :: nat
  br_verified_chunks :: int
  br_quarantined_chunks :: int
  br_blocked_chunks :: int
  br_resumable_chunks :: int

definition final_result :: "nat \<Rightarrow> checkpoint \<Rightarrow> backfill_result" where
  "final_result n t =
     (let counts = count_statuses (list_all_rows t);
          verified = count_of counts CkVerified; quarantined = count_of counts CkQuarantined; blocked = count_of counts CkBlocked;
          resumable = count_of counts CkPending + count_of counts CkInFlight
      in \<lparr>br_backfill_status =
            (if 0 < blocked then bf_chunk_blocked else if 0 < quarantined then chunk_invariant_failed
             else if 0 < resumable then checkpoint_resumable else all_chunks_verified),
          br_total_chunks = n, br_verified_chunks = verified, br_quarantined_chunks = quarantined, br_blocked_chunks = blocked,
          br_resumable_chunks = resumable\<rparr>)"

definition backfill_run ::
  "'s s3 \<Rightarrow> (bytes \<Rightarrow> string) \<Rightarrow> parquet_meta \<Rightarrow> harness \<Rightarrow> local_side \<Rightarrow> backfill_config \<Rightarrow> timestamp \<Rightarrow> bool
     \<Rightarrow> (chunk_spec list \<Rightarrow> (chunk_spec \<times> chunk_env) list) \<Rightarrow> 's backfill \<Rightarrow> backfill_result \<times> 's backfill" where
  "backfill_run c hash meta h l cfg today gate schedule b =
     (if gate
      then (\<lparr>br_backfill_status = checkpoint_resumable, br_total_chunks = 0, br_verified_chunks = 0, br_quarantined_chunks = 0,
             br_blocked_chunks = 0, br_resumable_chunks = 0\<rparr>, b)
      else let chunks = map (build_chunk_spec hash cfg) (discover_partitions cfg today l);
               b = b\<lparr>bf_checkpoint := ck_upsert_pending chunks (bf_checkpoint b)\<rparr>;
               todo = filter (\<lambda>ck. get_status (bf_checkpoint b) (ck_chunk_id ck) \<noteq> CkVerified) chunks;
               b = dispatch (\<lambda>ck ce. process_chunk c hash meta h l (bc_verify_retry_budget cfg) (ce_gate ce) (ce_qenv ce) ck)
                     False (schedule todo) b
           in (final_result (length chunks) (bf_checkpoint b), b))"

section \<open>The checkpoint table\<close>

lemma ck_update_status_of:
  "map_of (ck_update_status i st sha fail n t) j =
     (if j = i then map_option (\<lambda>row. row\<lparr>cr_status := st, cr_sha256 := sha, cr_fail_invariant := fail, cr_retry_count := n\<rparr>) (map_of t i)
      else map_of t j)"
  by (cases "map_of t i") (auto simp: ck_update_status_def update_conv')

lemma upsert_one_of:
  "map_of t i = Some row \<Longrightarrow> map_of (upsert_one ck t) i = Some row"
  "map_of (upsert_one ck t) i = Some row \<Longrightarrow> map_of t i = Some row \<or> map_of t i = None \<and> cr_status row = CkPending"
  "map_of (upsert_one ck t) (ck_chunk_id ck) \<noteq> None"
  by (auto simp: upsert_one_def map_add_def split: if_splits option.splits)

lemma ck_upsert_pending_keeps: "map_of t i = Some row \<Longrightarrow> map_of (ck_upsert_pending cks t) i = Some row"
  unfolding ck_upsert_pending_def by (induction cks arbitrary: t) (simp_all add: upsert_one_of(1))

lemma ck_upsert_pending_new:
  "map_of (ck_upsert_pending cks t) i = Some row \<Longrightarrow> map_of t i = Some row \<or> map_of t i = None \<and> cr_status row = CkPending"
  unfolding ck_upsert_pending_def
proof (induction cks arbitrary: t)
  case (Cons ck cks)
  then show ?case using upsert_one_of(1) [of t i _ ck] upsert_one_of(2) [of ck t i] by (cases "map_of t i") fastforce+
qed simp

lemma ck_upsert_pending_covers: "ck \<in> set cks \<Longrightarrow> map_of (ck_upsert_pending cks t) (ck_chunk_id ck) \<noteq> None"
  unfolding ck_upsert_pending_def
proof (induction cks arbitrary: t)
  case (Cons x cks)
  show ?case
  proof (cases "ck = x")
    case True
    obtain row where "map_of (upsert_one ck t) (ck_chunk_id ck) = Some row" using upsert_one_of(3) [of ck t] by auto
    from ck_upsert_pending_keeps [OF this, of cks] True show ?thesis by (simp add: ck_upsert_pending_def)
  next
    case False
    then show ?thesis using Cons by simp
  qed
qed simp

lemma count_statuses_of: "count_of (count_statuses rs) st = int (length (filter (\<lambda>r. snd r = st) rs))"
proof (induction rs rule: rev_induct)
  case Nil
  then show ?case by (simp add: count_of_def count_statuses_def)
next
  case (snoc r rs)
  then show ?case
    by (cases r) (auto simp: count_of_def count_statuses_def update_conv' split: option.splits)
qed

lemma all_verified_rows:
  assumes "br_backfill_status (final_result n t) = all_chunks_verified" "map_of t i = Some row"
  shows "cr_status row = CkVerified"
proof -
  have "(i, cr_status row) \<in> set (list_all_rows t)" using map_of_SomeD [OF assms(2)] by (force simp: list_all_rows_def)
  then have pos: "0 < count_of (count_statuses (list_all_rows t)) (cr_status row)"
    by (auto simp: count_statuses_of filter_empty_conv intro!: bexI [of _ "(i, cr_status row)"])
  have nonneg: "0 \<le> count_of (count_statuses (list_all_rows t)) st" for st by (simp add: count_statuses_of)
  show ?thesis
    using assms(1) pos nonneg [of CkPending] nonneg [of CkInFlight] by (cases "cr_status row") (auto simp: final_result_def Let_def split: if_splits)
qed

section \<open>One chunk\<close>

lemma put_stored:
  assumes "s3_laws c v" "put c hash e k d (Some h) False n = (r, n')"
  shows "forward_only (v (n_store n)) (v (n_store n'))"
    "r = Inr st \<Longrightarrow> st \<noteq> Queued \<Longrightarrow> st \<noteq> PutHardFloorBlocked \<Longrightarrow> holds (v (n_store n')) k h"
proof -
  obtain r1 s1 where p: "put_with_idempotency c k d h (n_store n) = (r1, s1)" by fastforce
  note eff = put_with_idempotency_effect [OF assms(1) p]
  have store: "queue_payload e k d h (n\<lparr>n_store := s1\<rparr>) = (r, n') \<Longrightarrow> n_store n' = s1 \<and> (\<forall>st. r = Inr st \<longrightarrow> st = Queued \<or> st = PutHardFloorBlocked)"
    by (auto simp: queue_payload_def split: option.splits prod.splits sum.splits enqueue_status.splits)
  have "n_store n' = s1 \<and> (\<forall>st. r = Inr st \<longrightarrow> st \<noteq> Queued \<longrightarrow> st \<noteq> PutHardFloorBlocked \<longrightarrow> r1 = Inr st)"
  proof (cases r1)
    case (Inr st)
    then show ?thesis using assms(2) p by (auto simp: put_def)
  next
    case (Inl x)
    then show ?thesis using assms(2) p store by (cases x) (auto simp: put_def split: option.splits)
  qed
  then show "forward_only (v (n_store n)) (v (n_store n'))"
    "r = Inr st \<Longrightarrow> st \<noteq> Queued \<Longrightarrow> st \<noteq> PutHardFloorBlocked \<Longrightarrow> holds (v (n_store n')) k h"
    using upload_effect_forward [OF eff(1)] eff(2) by auto
qed

lemma ck_mark_simps [simp]:
  "bf_nas (ck_mark ck st sha fail n b) = bf_nas b" "bf_nas (set_store s b) = (bf_nas b)\<lparr>n_store := s\<rparr>"
  "bf_checkpoint (set_store s b) = bf_checkpoint b"
  "bf_checkpoint (ck_mark ck st sha fail n b) = ck_update_status (ck_chunk_id ck) st sha fail n (bf_checkpoint b)"
  by (simp_all add: ck_mark_def set_store_def)

text \<open>The chunks that discovery yields: a Parquet file, and a key below the prefix.\<close>

definition chunk_ok :: "chunk_spec \<Rightarrow> bool" where
  "chunk_ok ck \<longleftrightarrow>
     ck_nas_object_key ck = ck_nas_partition_prefix ck @ ''/'' @ path_name (ck_source_path ck) \<and>
     ck_source_path ck \<noteq> [] \<and> ends_with (path_name (ck_source_path ck)) ''.parquet''"

lemma chunk_key_below: "chunk_ok ck \<Longrightarrow> starts_with (ck_nas_object_key ck) (slashed (ck_nas_partition_prefix ck))"
  by (auto simp: chunk_ok_def slashed_def starts_with_iff)

lemma chunk_on_both_sides:
  assumes "chunk_ok ck" "b (ck_nas_object_key ck) \<noteq> None" "fs_get (he_files l) (ck_source_path ck) \<noteq> None"
  shows "on_both_sides l (butlast (ck_source_path ck), ck_nas_partition_prefix ck, Some [ck_source_path ck], objs) b"
    "on_both_sides l (butlast (ck_source_path ck), ck_nas_partition_prefix ck, None, objs) b"
proof -
  have "ck_source_path ck \<in> set (glob_parquet (butlast (ck_source_path ck)) (he_files l))"
    using assms(1,3) by (auto simp: glob_parquet_def chunk_ok_def fs_exists_dom [symmetric] fs_exists_def simp del: set_map)
  then have "glob_parquet (butlast (ck_source_path ck)) (he_files l) \<noteq> []" by auto
  then show "on_both_sides l (butlast (ck_source_path ck), ck_nas_partition_prefix ck, Some [ck_source_path ck], objs) b"
    "on_both_sides l (butlast (ck_source_path ck), ck_nas_partition_prefix ck, None, objs) b"
    using assms(2) chunk_key_below [OF assms(1)] by (auto simp: on_both_sides_def the_files_def)
qed

lemma retry_verify_view:
  assumes "\<And>s r s'. check s = (r, s') \<Longrightarrow> v s' = v s" "retry_verify check n y s = (q, s')"
  shows "v s' = v s"
  using assms(2)
proof (induction n arbitrary: y s)
  case (Suc n)
  obtain r t where "check s = (r, t)" by fastforce
  then show ?case using Suc assms(1) [of s r t] by (cases r) (auto split: if_splits)
qed simp

text \<open>The outcomes of the verification steps, for any store and for one that answers.\<close>

lemma verify_chunk_cases:
  assumes "s3_laws c v" "verify_chunk c hash meta h l budget ck st sha b = (r, b')"
  obtains s where "v s = v (n_store (bf_nas b))" "b' = set_store s b"
  | s st' sha' fail n where "v s = v (n_store (bf_nas b))" "b' = ck_mark ck st' sha' fail n (set_store s b)"
      "answers c \<and> chunk_ok ck \<and> v s (ck_nas_object_key ck) \<noteq> None \<and> fs_get (he_files l) (ck_source_path ck) \<noteq> None \<Longrightarrow> st' = CkQuarantined"
proof -
  let ?x = "(butlast (ck_source_path ck), ck_nas_partition_prefix ck, Some [ck_source_path ck], Some [ck_nas_object_key ck])"
  let ?y = "(butlast (ck_source_path ck), ck_nas_partition_prefix ck, None, None)"
  let ?s = "n_store (bf_nas b)"
  obtain q s where f: "run_verify c hash meta h l ?x ?s = (q, s)" by fastforce
  have keeps: "run_verify c hash meta h l x s = (r, s') \<Longrightarrow> v s' = v s" for x s r s'
    using verify_view [OF assms(1)] by (cases x) (auto simp: run_verify_def)
  note v1 = keeps [OF f]
  show thesis
  proof (cases q)
    case (Inl e)
    then show thesis using that(1) [of s] assms(2) f v1 by (simp add: verify_chunk_def Let_def)
  next
    case res: (Inr res)
    have first: "ir_status res \<noteq> all_pass"
      if "answers c \<and> chunk_ok ck \<and> v ?s (ck_nas_object_key ck) \<noteq> None \<and> fs_get (he_files l) (ck_source_path ck) \<noteq> None"
      using harness_check.hopeless_fails [of c v l ?x ?s hash meta h res s] chunk_on_both_sides(1) f res that assms(1) by blast
    show thesis
    proof (cases "ir_status res = all_pass")
      case True
      then show thesis
        using that(2) [of s CkVerified "Some sha" None 0] assms(2) f v1 res first by (auto simp: verify_chunk_def Let_def)
    next
      case False
      obtain q2 s2 where g: "retry_verify (run_verify c hash meta h l ?y) budget res s = (q2, s2)" by fastforce
      have v2: "v s2 = v ?s" using retry_verify_view [where v = v, OF _ g] keeps v1 by metis
      have again: "\<forall>k r. q2 \<noteq> Inr (Some k, r)"
        if "answers c \<and> chunk_ok ck \<and> v ?s (ck_nas_object_key ck) \<noteq> None \<and> fs_get (he_files l) (ck_source_path ck) \<noteq> None"
        using harness_check.repeated_check [where again = "retry_verify (run_verify c hash meta h l ?y)" and x = ?y and v = v and l = l and c = c, OF _ _ _ _ g]
          chunk_on_both_sides(2) [of ck "v s" l None] that assms(1) v1 by simp
      show thesis
      proof (cases q2)
        case (Inl e)
        then show thesis using that(1) [of s2] assms(2) f g v2 res False by (simp add: verify_chunk_def Let_def)
      next
        case (Inr a)
        obtain o2 r2 where a: "a = (o2, r2)" by fastforce
        show thesis
        proof (cases o2)
          case None
          then show thesis
            using that(2) [of s2 CkQuarantined None "Some (ir_status r2)" budget] assms(2) f g v2 res False Inr a
            by (simp add: verify_chunk_def Let_def)
        next
          case (Some left)
          then show thesis
            using that(2) [of s2 CkVerified "Some sha" None 0] assms(2) f g v2 res False Inr a again by (auto simp: verify_chunk_def Let_def)
        qed
      qed
    qed
  qed
qed

text \<open>
  What processing a chunk may do to the checkpoint: nothing, or rewrite the row of the chunk if that is not verified; when
  \<open>ok\<close> holds the new row is not verified either.
\<close>

definition chunk_touch :: "bool \<Rightarrow> chunk_spec \<Rightarrow> checkpoint \<Rightarrow> checkpoint \<Rightarrow> bool" where
  "chunk_touch ok ck t t' \<longleftrightarrow>
     t' = t \<or> get_status t (ck_chunk_id ck) \<noteq> CkVerified \<and>
       (\<exists>f. map_of t' = (map_of t)(ck_chunk_id ck := map_option f (map_of t (ck_chunk_id ck))) \<and> (ok \<longrightarrow> (\<forall>row. cr_status (f row) \<noteq> CkVerified)))"

lemma chunk_touch_refl [simp]: "chunk_touch ok ck t t"
  by (simp add: chunk_touch_def)

lemma chunk_touch_update:
  assumes "get_status t (ck_chunk_id ck) \<noteq> CkVerified" "t' = t \<or> chunk_touch ok ck t t'" "ok \<longrightarrow> st \<noteq> CkVerified"
  shows "chunk_touch ok ck t (ck_update_status (ck_chunk_id ck) st sha fail n t')"
proof -
  let ?g = "\<lambda>row. row\<lparr>cr_status := st, cr_sha256 := sha, cr_fail_invariant := fail, cr_retry_count := n\<rparr>"
  obtain f where f: "map_of t' = (map_of t)(ck_chunk_id ck := map_option f (map_of t (ck_chunk_id ck)))"
    using assms(2) option.map_id0 by (metis chunk_touch_def fun_upd_triv id_apply)
  have "map_of (ck_update_status (ck_chunk_id ck) st sha fail n t') =
      (map_of t)(ck_chunk_id ck := map_option (\<lambda>row. ?g (f row)) (map_of t (ck_chunk_id ck)))"
    by (rule ext) (simp add: ck_update_status_of f option.map_comp o_def)
  moreover have "ok \<longrightarrow> (\<forall>row. cr_status (?g (f row)) \<noteq> CkVerified)" using assms(3) by simp
  ultimately show ?thesis unfolding chunk_touch_def using assms(1) by blast
qed

lemma chunk_touch_keeps:
  assumes "chunk_touch ok ck t t'"
  shows "map_of t i = Some row \<Longrightarrow> cr_status row = CkVerified \<Longrightarrow> map_of t' i = Some row"
    "map_of t i \<noteq> None \<Longrightarrow> map_of t' i \<noteq> None"
    "ok \<Longrightarrow> get_status t' i = CkVerified \<Longrightarrow> get_status t i = CkVerified"
  using assms by (auto simp: chunk_touch_def get_status_def split: option.splits if_splits)

lemma process_chunk_effect:
  assumes "s3_laws c v" "process_chunk c hash meta h l budget gate e ck b = (r, b')"
  shows "forward_only (v (n_store (bf_nas b))) (v (n_store (bf_nas b'))) \<and>
         chunk_touch (answers c \<and> chunk_ok ck) ck (bf_checkpoint b) (bf_checkpoint b')"
proof (cases "get_status (bf_checkpoint b) (ck_chunk_id ck) = CkVerified \<or> gate")
  case True
  then have "b' = b" using assms(2) by (auto simp: process_chunk_def split: if_splits)
  then show ?thesis by simp
next
  case False
  define b1 where "b1 = ck_mark ck CkInFlight None None 0 b"
  note step = assms(2) [unfolded process_chunk_def b1_def [symmetric] Let_def]
  have touch: "chunk_touch ok ck (bf_checkpoint b) (bf_checkpoint b1)" for ok
    using chunk_touch_update [of "bf_checkpoint b" ck "bf_checkpoint b" ok CkInFlight] False by (simp add: b1_def)
  have touch2: "chunk_touch ok ck (bf_checkpoint b) (ck_update_status (ck_chunk_id ck) st sha fail k (bf_checkpoint b1))"
    if "ok \<longrightarrow> st \<noteq> CkVerified" for ok st sha fail k
    using chunk_touch_update [OF _ disjI2 [OF touch] that] False by simp
  have nas: "bf_nas b1 = bf_nas b" by (simp add: b1_def)
  show ?thesis
  proof (cases "\<exists>data. fs_get (he_files l) (ck_source_path ck) = Some data \<and> he_readable l (ck_source_path ck)")
    case nofile: False
    then have "b' = b1" using step False by (auto split: option.splits if_splits)
    then show ?thesis using touch nas by simp
  next
    case True
    then obtain data where f: "fs_get (he_files l) (ck_source_path ck) = Some data" "he_readable l (ck_source_path ck)" by blast
    obtain q n where p: "put c hash e (ck_nas_object_key ck) data (Some (hash data)) False (bf_nas b1) = (q, n)" by fastforce
    have fwd: "forward_only (v (n_store (bf_nas b))) (v (n_store n))" using put_stored(1) [OF assms(1) p] nas by simp
    show ?thesis
    proof (cases "\<exists>st. q = Inr st \<and> st \<noteq> Queued \<and> st \<noteq> PutHardFloorBlocked")
      case stored: True
      then obtain st where q: "q = Inr st" "st \<noteq> Queued" "st \<noteq> PutHardFloorBlocked" by blast
      have vc: "verify_chunk c hash meta h l budget ck st (hash data) (b1\<lparr>bf_nas := n\<rparr>) = (r, b')" using step False f p q by simp
      have obj: "v (n_store n) (ck_nas_object_key ck) \<noteq> None" using put_stored(2) [OF assms(1) p q] by (auto simp: holds_def)
      from assms(1) vc show ?thesis
      proof (cases rule: verify_chunk_cases)
        case (1 s)
        then show ?thesis using fwd touch by simp
      next
        case (2 s st' sha' fail k)
        then have "answers c \<and> chunk_ok ck \<longrightarrow> st' \<noteq> CkVerified" using obj f(1) by auto
        then show ?thesis using 2(1,2) fwd touch2 by simp
      qed
    next
      case other: False
      then have "b' = b1\<lparr>bf_nas := n\<rparr> \<or> b' = ck_mark ck CkBlocked None None 0 (b1\<lparr>bf_nas := n\<rparr>)"
        using step False f p by (auto split: sum.splits if_splits)
      then show ?thesis using fwd touch touch2 by auto
    qed
  qed
qed

section \<open>A run\<close>

lemma dispatch_keeps:
  assumes "P b" "\<And>ck ce b. (ck, ce) \<in> set xs \<Longrightarrow> P b \<Longrightarrow> P (snd (proc ck ce b))" "\<And>b ev. P b \<Longrightarrow> P (b\<lparr>bf_evidence := ev\<rparr>)"
  shows "P (dispatch proc stopped xs b)"
  using assms(1,2)
proof (induction proc stopped xs b rule: dispatch.induct)
  case (2 proc stopped ck ce rest b)
  have p: "P (snd (proc ck ce b))" using 2(4) [of ck ce b] 2(3) by simp
  show ?case
  proof (cases stopped)
    case True
    then show ?thesis using 2(1) 2(3,4) p by simp
  next
    case False
    obtain r b1 where r: "proc ck ce b = (r, b1)" by fastforce
    with p assms(3) have "P (b1\<lparr>bf_evidence := ev\<rparr>)" for ev by simp
    then show ?thesis using False 2(2) [OF False r [symmetric] refl] 2(4) r by (simp add: Let_def)
  qed
qed simp

lemma discovered_chunk_ok: "p \<in> set (discover_partitions cfg today l) \<Longrightarrow> chunk_ok (build_chunk_spec hash cfg p)"
  by (auto simp: discover_partitions_def under_tier_def chunk_ok_def build_chunk_spec_def Let_def)

text \<open>A schedule runs the pending chunks, each once, in some order.\<close>

definition schedules :: "(chunk_spec list \<Rightarrow> (chunk_spec \<times> chunk_env) list) \<Rightarrow> bool" where
  "schedules schedule \<longleftrightarrow> (\<forall>xs. mset (map fst (schedule xs)) = mset xs)"

lemma schedules_mem: "schedules schedule \<Longrightarrow> (ck, ce) \<in> set (schedule xs) \<Longrightarrow> ck \<in> set xs"
proof -
  assume "schedules schedule" "(ck, ce) \<in> set (schedule xs)"
  then have "ck \<in> set (map fst (schedule xs))" "mset (map fst (schedule xs)) = mset xs" by (force simp: schedules_def)+
  then show ?thesis by (metis set_mset_mset)
qed

lemma backfill_run_effect:
  assumes "s3_laws c v" "schedules schedule" "backfill_run c hash meta h l cfg today gate schedule b = (res, b')"
  shows "forward_only (v (n_store (bf_nas b))) (v (n_store (bf_nas b')))"
    "map_of (bf_checkpoint b) i = Some row \<Longrightarrow> cr_status row = CkVerified \<Longrightarrow> map_of (bf_checkpoint b') i = Some row"
    "\<not> gate \<Longrightarrow> p \<in> set (discover_partitions cfg today l) \<Longrightarrow> map_of (bf_checkpoint b') (ck_chunk_id (build_chunk_spec hash cfg p)) \<noteq> None"
    "answers c \<Longrightarrow> get_status (bf_checkpoint b') i = CkVerified \<Longrightarrow> get_status (bf_checkpoint b) i = CkVerified"
    "\<not> gate \<Longrightarrow> res = final_result (length (discover_partitions cfg today l)) (bf_checkpoint b')"
proof -
  define chunks where "chunks = map (build_chunk_spec hash cfg) (discover_partitions cfg today l)"
  define P where "P x \<longleftrightarrow> forward_only (v (n_store (bf_nas b))) (v (n_store (bf_nas x))) \<and>
      (\<forall>i row. map_of (bf_checkpoint b) i = Some row \<longrightarrow> cr_status row = CkVerified \<longrightarrow> map_of (bf_checkpoint x) i = Some row) \<and>
      (\<forall>ck\<in>set chunks. map_of (bf_checkpoint x) (ck_chunk_id ck) \<noteq> None) \<and>
      (answers c \<longrightarrow> (\<forall>i. get_status (bf_checkpoint x) i = CkVerified \<longrightarrow> get_status (bf_checkpoint b) i = CkVerified))" for x :: "'a backfill"
  let ?proc = "\<lambda>ck ce. process_chunk c hash meta h l (bc_verify_retry_budget cfg) (ce_gate ce) (ce_qenv ce) ck"
  define b1 where "b1 = b\<lparr>bf_checkpoint := ck_upsert_pending chunks (bf_checkpoint b)\<rparr>"
  define todo where "todo = filter (\<lambda>ck. get_status (bf_checkpoint b1) (ck_chunk_id ck) \<noteq> CkVerified) chunks"
  have pending: "get_status (ck_upsert_pending chunks t) i = CkVerified \<Longrightarrow> get_status t i = CkVerified" for t i
    using ck_upsert_pending_new [of chunks t i] by (auto simp: get_status_def split: option.splits)
  have start: "P b1"
    unfolding P_def b1_def using ck_upsert_pending_keeps ck_upsert_pending_covers pending by auto
  have step: "P (snd (?proc ck ce x))" if "(ck, ce) \<in> set (schedule todo)" "P x" for ck ce x
  proof -
    have "ck \<in> set chunks" using schedules_mem [OF assms(2) that(1)] by (auto simp: todo_def)
    then have ok: "chunk_ok ck" using discovered_chunk_ok by (auto simp: chunks_def)
    obtain r y where y: "?proc ck ce x = (r, y)" by fastforce
    note eff = process_chunk_effect [OF assms(1) y]
    note touch = chunk_touch_keeps [OF eff [THEN conjunct2]]
    have "forward_only (v (n_store (bf_nas b))) (v (n_store (bf_nas y)))"
      using that(2) eff by (auto simp: P_def forward_only_def)
    then show ?thesis using that(2) touch ok y unfolding P_def by auto
  qed
  have fin: "P (dispatch ?proc False (schedule todo) b1)"
    by (rule dispatch_keeps [OF start step]) (auto simp: P_def)
  have run: "\<not> gate \<Longrightarrow> b' = dispatch ?proc False (schedule todo) b1 \<and> res = final_result (length chunks) (bf_checkpoint b')"
    "gate \<Longrightarrow> b' = b"
    using assms(3) by (auto simp: backfill_run_def Let_def b1_def todo_def chunks_def)
  show "forward_only (v (n_store (bf_nas b))) (v (n_store (bf_nas b')))"
    "map_of (bf_checkpoint b) i = Some row \<Longrightarrow> cr_status row = CkVerified \<Longrightarrow> map_of (bf_checkpoint b') i = Some row"
    "\<not> gate \<Longrightarrow> p \<in> set (discover_partitions cfg today l) \<Longrightarrow> map_of (bf_checkpoint b') (ck_chunk_id (build_chunk_spec hash cfg p)) \<noteq> None"
    "answers c \<Longrightarrow> get_status (bf_checkpoint b') i = CkVerified \<Longrightarrow> get_status (bf_checkpoint b) i = CkVerified"
    "\<not> gate \<Longrightarrow> res = final_result (length (discover_partitions cfg today l)) (bf_checkpoint b')"
  proof -
    have b': "P b' \<or> b' = b" using fin run by (cases gate) simp_all
    then show "forward_only (v (n_store (bf_nas b))) (v (n_store (bf_nas b')))" unfolding P_def by auto
    show "map_of (bf_checkpoint b') i = Some row" if "map_of (bf_checkpoint b) i = Some row" "cr_status row = CkVerified"
      using b' that unfolding P_def by blast
    show "map_of (bf_checkpoint b') (ck_chunk_id (build_chunk_spec hash cfg p)) \<noteq> None"
      if "\<not> gate" "p \<in> set (discover_partitions cfg today l)"
    proof -
      have "P b'" using fin run(1) [OF that(1)] by simp
      moreover have "build_chunk_spec hash cfg p \<in> set chunks" using that(2) by (simp add: chunks_def)
      ultimately show ?thesis unfolding P_def by blast
    qed
    show "get_status (bf_checkpoint b) i = CkVerified" if "answers c" "get_status (bf_checkpoint b') i = CkVerified"
      using b' that unfolding P_def by blast
    show "res = final_result (length (discover_partitions cfg today l)) (bf_checkpoint b')" if "\<not> gate"
      using run(1) [OF that] by (simp add: chunks_def)
  qed
qed

section \<open>Properties\<close>

definition example_backfill_config :: backfill_config where
  "example_backfill_config = \<lparr>bc_local_root = [], bc_nas_partition_root = ''n'', bc_tier = ''L2'', bc_channel = ''c'', bc_verify_retry_budget = 1\<rparr>"

definition example_source :: path where
  "example_source = [''market'', ''c'', ''schema_version=v1'', ''tier=L2'', ''date=1-1-1'', ''a.parquet'']"

definition example_backfill_local :: local_side where
  "example_backfill_local = \<lparr>he_files = [(example_source, ''data'')], he_readable = (\<lambda>p. True)\<rparr>"

definition example_backfill :: "mem backfill" where
  "example_backfill = \<lparr>bf_checkpoint = [], bf_nas = \<lparr>n_store = \<lparr>m_up = True, m_objects = []\<rparr>, n_queue = None\<rparr>, bf_evidence = []\<rparr>"

definition in_order :: "chunk_spec list \<Rightarrow> (chunk_spec \<times> chunk_env) list" where
  "in_order cks = map (\<lambda>ck. (ck, \<lparr>ce_gate = False, ce_qenv = example_qenv ''a'', ce_gate_after = False, ce_started = True\<rparr>)) cks"

definition example_run :: "backfill_result \<times> mem backfill" where
  "example_run = backfill_run listing_s3 id example_meta example_harness example_backfill_local example_backfill_config 0 False in_order example_backfill"

lemma in_order_schedules: "schedules in_order"
  by (simp add: schedules_def in_order_def o_def)

lemma example_discovered: "discover_partitions example_backfill_config 0 example_backfill_local = [example_source]"
  by code_simp



text \<open>
  C34. While the store answers listings, no run verifies a chunk: whatever is verified after the run was verified before it, and
  \<^verbatim>\<open>all_chunks_verified\<close> is reported only if every discovered file was verified before. A chunk that is stored
  is on both sides, which the ambiguity check of the harness reports as a failure, so it ends up quarantined.
\<close>

theorem backfill_never_verifies:
  assumes "s3_laws c view" "answers c" "schedules schedule" "backfill_run c hash meta h l cfg today gate schedule b = (res, b')"
  shows "(\<forall>i. get_status (bf_checkpoint b') i = CkVerified \<longrightarrow> get_status (bf_checkpoint b) i = CkVerified) \<and>
         (br_backfill_status res = all_chunks_verified \<longrightarrow>
            (\<forall>p\<in>set (discover_partitions cfg today l). get_status (bf_checkpoint b) (ck_chunk_id (build_chunk_spec hash cfg p)) = CkVerified))"
proof -
  note eff = backfill_run_effect [OF assms(1,3,4)]
  have "get_status (bf_checkpoint b) (ck_chunk_id (build_chunk_spec hash cfg p)) = CkVerified"
    if "br_backfill_status res = all_chunks_verified" "p \<in> set (discover_partitions cfg today l)" for p
  proof -
    note all = that
    have gate: "\<not> gate" using that(1) assms(4) by (auto simp: backfill_run_def)
    obtain row where row: "map_of (bf_checkpoint b') (ck_chunk_id (build_chunk_spec hash cfg p)) = Some row"
      using eff(3) [OF gate all(2)] by auto
    have "cr_status row = CkVerified" using all_verified_rows [OF _ row] all(1) eff(5) [OF gate] by simp
    then show ?thesis using eff(4) [OF assms(2)] row by (simp add: get_status_def)
  qed
  then show ?thesis using eff(4) [OF assms(2)] by blast
qed

theorem backfill_never_verifies_witness:
  "br_backfill_status (fst example_run) = chunk_invariant_failed \<and> example_source \<in> set (discover_partitions example_backfill_config 0 example_backfill_local) \<and>
   get_status (bf_checkpoint (snd example_run)) (ck_chunk_id (build_chunk_spec id example_backfill_config example_source)) \<noteq> CkVerified"
proof -
  obtain res b' where run: "example_run = (res, b')" by fastforce
  have "br_backfill_status (fst example_run) = chunk_invariant_failed" by code_simp
  moreover have "get_status (bf_checkpoint example_backfill) i \<noteq> CkVerified" for i by (simp add: example_backfill_def get_status_def)
  moreover have fin: "snd example_run = b'" using run by (metis snd_conv)
  ultimately show ?thesis unfolding fin
    using backfill_never_verifies [OF listing_laws listing_answers in_order_schedules run [unfolded example_run_def]] example_discovered by auto
qed

end
