(* ===== verification/CutoverVerifier.thy ===== *)
theory CutoverVerifier
  imports InvariantHarness
begin

text \<open>
  \<^verbatim>\<open>nas_migration/cutover_verifier.py\<close>: deciding, around the switch to the NAS, that no local segment is missing there.

  The parsed time stamp is an input, as is the modification time of a file (\<open>None\<close> where \<^verbatim>\<open>stat\<close> fails). The results of the harness are
  those of the theory on it. The theory says exactly when the verdict is \<^verbatim>\<open>rpo_zero_verified\<close>, and that a migrated partition prevents it.
\<close>

section \<open>Definitions\<close>

datatype rpo_status = rpo_zero_verified | drift_detected | verify_inconclusive

record rpo_result =
  rp_status :: rpo_status
  rp_minus_1s_segments :: nat
  rp_plus_1s_objects :: nat
  rp_diff_segments :: "string list"
  rp_invariant :: "invariant_result option"

record cutover =
  cv_local :: local_side
  cv_mtime :: "path \<Rightarrow> seconds option"
  cv_root :: path
  cv_nas_l2_prefix :: string

definition list_local_segments :: "cutover \<Rightarrow> seconds \<Rightarrow> path list" where
  "list_local_segments v mtime_max =
     filter (\<lambda>p. case cv_mtime v p of None \<Rightarrow> False | Some t \<Rightarrow> t \<le> mtime_max) (fs_rglob (cv_root v) ''.parquet'' (he_files (cv_local v)))"

definition join_path :: "path \<Rightarrow> string" where
  "join_path p = (case p of [] \<Rightarrow> ''.'' | c # cs \<Rightarrow> c @ concat (map (\<lambda>x. ''/'' @ x) cs))"

definition compute_nas_partition_for :: "cutover \<Rightarrow> path \<Rightarrow> string" where
  "compute_nas_partition_for v dir =
     (if take (length (cv_root v)) dir = cv_root v
      then cv_nas_l2_prefix v @ ''/'' @ join_path (drop (length (cv_root v)) dir) else cv_nas_l2_prefix v)"

definition partition_dirs :: "path list \<Rightarrow> path list" where
  "partition_dirs segments = sort (remdups (map butlast segments))"

definition partition_call :: "cutover \<Rightarrow> path \<Rightarrow> verify_call" where
  "partition_call v dir = (dir, compute_nas_partition_for v dir, None, None)"

text \<open>The loop over the partitions; \<open>check\<close> is the harness. An exception moves on to the next partition.\<close>

fun check_partitions ::
  "(path \<Rightarrow> 's \<Rightarrow> (py_error + invariant_result) \<times> 's) \<Rightarrow> path list \<Rightarrow> invariant_result option \<Rightarrow> invariant_result option \<Rightarrow> 's
     \<Rightarrow> invariant_result option \<times> 's" where
  "check_partitions check [] first_fail last_pass s = (case first_fail of Some r \<Rightarrow> (Some r, s) | None \<Rightarrow> (last_pass, s))"
| "check_partitions check (d # ds) first_fail last_pass s =
     (case check d s of
        (Inl e, s) \<Rightarrow> check_partitions check ds first_fail last_pass s
      | (Inr r, s) \<Rightarrow>
          if ir_status r \<noteq> all_pass \<and> first_fail = None then check_partitions check ds (Some r) last_pass s
          else check_partitions check ds first_fail (Some r) s)"

definition verify_invariants_for_l2 ::
  "(path \<Rightarrow> 's \<Rightarrow> (py_error + invariant_result) \<times> 's) \<Rightarrow> path list \<Rightarrow> 's \<Rightarrow> invariant_result option \<times> 's" where
  "verify_invariants_for_l2 check segments s =
     (if segments = [] then (None, s) else check_partitions check (partition_dirs segments) None None s)"

definition rpo_inconclusive :: rpo_result where
  "rpo_inconclusive =
     \<lparr>rp_status = verify_inconclusive, rp_minus_1s_segments = 0, rp_plus_1s_objects = 0, rp_diff_segments = [], rp_invariant = None\<rparr>"

definition missing_names :: "path list \<Rightarrow> string list \<Rightarrow> string list" where
  "missing_names segments objects =
     sort (remdups (filter (\<lambda>x. x \<notin> set (map key_name objects)) (map path_name segments)))"

definition verify_rpo_zero ::
  "'s s3 \<Rightarrow> (bytes \<Rightarrow> string) \<Rightarrow> parquet_meta \<Rightarrow> harness \<Rightarrow> cutover \<Rightarrow> py_error + timestamp \<Rightarrow> 's \<Rightarrow> rpo_result \<times> 's" where
  "verify_rpo_zero c hash meta h v stamp s =
     (case stamp of
        Inl e \<Rightarrow> (rpo_inconclusive, s)
      | Inr ts \<Rightarrow>
          let t = of_int ts / 1000000; before = list_local_segments v (t - 1); later = list_local_segments v (t + 1)
          in case list_objects c (cv_nas_l2_prefix v) s of
               (Inl e, s) \<Rightarrow> (rpo_inconclusive, s)
             | (Inr objects, s) \<Rightarrow>
                 let diff = missing_names before objects
                 in case verify_invariants_for_l2 (\<lambda>d. run_verify c hash meta h (cv_local v) (partition_call v d)) later s of
                      (iv, s) \<Rightarrow>
                        (\<lparr>rp_status =
                            (if (case iv of None \<Rightarrow> True | Some r \<Rightarrow> ir_status r = all_pass) \<and> diff = [] then rpo_zero_verified
                             else drift_detected),
                          rp_minus_1s_segments = length before, rp_plus_1s_objects = length objects, rp_diff_segments = diff,
                          rp_invariant = iv\<rparr>, s))"

section \<open>The loop\<close>

text \<open>The outcomes of the checks, in order.\<close>

fun outcomes :: "(path \<Rightarrow> 's \<Rightarrow> (py_error + invariant_result) \<times> 's) \<Rightarrow> path list \<Rightarrow> 's \<Rightarrow> (py_error + invariant_result) list" where
  "outcomes check [] s = []"
| "outcomes check (d # ds) s = fst (check d s) # outcomes check ds (snd (check d s))"

definition no_failure :: "(py_error + invariant_result) list \<Rightarrow> bool" where
  "no_failure os \<longleftrightarrow> (\<forall>r. Inr r \<in> set os \<longrightarrow> ir_status r = all_pass)"

lemma check_partitions_pass:
  assumes "\<forall>r. last_pass = Some r \<longrightarrow> ir_status r = all_pass" "check_partitions check ds None last_pass s = (iv, s')"
  shows "(case iv of None \<Rightarrow> True | Some r \<Rightarrow> ir_status r = all_pass) \<longleftrightarrow> no_failure (outcomes check ds s)"
proof -
  have fail: "ir_status r \<noteq> all_pass \<Longrightarrow> check_partitions check ds (Some r) lp s = (iv, s') \<Longrightarrow> iv = Some r" for r ds lp s iv s'
    by (induction ds arbitrary: lp s) (auto split: prod.splits sum.splits)
  show ?thesis
    using assms
  proof (induction ds arbitrary: last_pass s)
    case Nil
    then show ?case by (auto simp: no_failure_def split: option.splits)
  next
    case (Cons d ds)
    obtain q t where q: "check d s = (q, t)" by fastforce
    show ?case
    proof (cases q)
      case (Inl e)
      then have "check_partitions check ds None last_pass t = (iv, s')" using Cons.prems q by simp
      from Cons.IH [OF Cons.prems(1) this] q Inl show ?thesis by (simp add: no_failure_def)
    next
      case (Inr r)
      show ?thesis
      proof (cases "ir_status r = all_pass")
        case True
        then have "check_partitions check ds None (Some r) t = (iv, s')" using Cons.prems q Inr by simp
        from Cons.IH [OF _ this] q Inr True show ?thesis by (auto simp: no_failure_def)
      next
        case False
        then have "iv = Some r" using Cons.prems q Inr fail [OF False] by simp
        then show ?thesis using False q Inr by (auto simp: no_failure_def)
      qed
    qed
  qed
qed

definition checks_of ::
  "'s s3 \<Rightarrow> (bytes \<Rightarrow> string) \<Rightarrow> parquet_meta \<Rightarrow> harness \<Rightarrow> cutover \<Rightarrow> path list \<Rightarrow> 's \<Rightarrow> (py_error + invariant_result) list" where
  "checks_of c hash meta h v segments s =
     outcomes (\<lambda>d. run_verify c hash meta h (cv_local v) (partition_call v d)) (partition_dirs segments) s"

lemma rpo_verified_iff:
  "rp_status (fst (verify_rpo_zero c hash meta h v stamp s)) = rpo_zero_verified \<longleftrightarrow>
     (\<exists>ts objects s1. stamp = Inr ts \<and> list_objects c (cv_nas_l2_prefix v) s = (Inr objects, s1) \<and>
        missing_names (list_local_segments v (of_int ts / 1000000 - 1)) objects = [] \<and>
        no_failure (checks_of c hash meta h v (list_local_segments v (of_int ts / 1000000 + 1)) s1))"
proof (cases stamp)
  case (Inl e)
  then show ?thesis by (simp add: verify_rpo_zero_def rpo_inconclusive_def)
next
  case ts: (Inr ts)
  obtain q s1 where o: "list_objects c (cv_nas_l2_prefix v) s = (q, s1)" by fastforce
  show ?thesis
  proof (cases q)
    case (Inl e)
    then show ?thesis using o ts by (simp add: verify_rpo_zero_def rpo_inconclusive_def Let_def)
  next
    case objs: (Inr objects)
    let ?plus = "list_local_segments v (of_int ts / 1000000 + 1)"
    let ?check = "\<lambda>d. run_verify c hash meta h (cv_local v) (partition_call v d)"
    obtain iv s2 where i: "verify_invariants_for_l2 ?check ?plus s1 = (iv, s2)" by fastforce
    have "(case iv of None \<Rightarrow> True | Some r \<Rightarrow> ir_status r = all_pass) \<longleftrightarrow> no_failure (checks_of c hash meta h v ?plus s1)"
    proof (cases "?plus = []")
      case True
      then show ?thesis using i by (auto simp: verify_invariants_for_l2_def checks_of_def partition_dirs_def no_failure_def)
    next
      case False
      then have "check_partitions ?check (partition_dirs ?plus) None None s1 = (iv, s2)"
        using i by (simp add: verify_invariants_for_l2_def)
      from check_partitions_pass [OF _ this] show ?thesis by (simp add: checks_of_def)
    qed
    then show ?thesis using o ts objs i by (auto simp: verify_rpo_zero_def Let_def)
  qed
qed

lemma outcomes_hopeless:
  assumes "s3_laws c view \<and> answers c" "d \<in> set ds" "on_both_sides l (partition_call v d) (view s)"
    "\<forall>e. Inl e \<notin> set (outcomes (\<lambda>d. run_verify c hash meta h l (partition_call v d)) ds s)"
  shows "\<not> no_failure (outcomes (\<lambda>d. run_verify c hash meta h l (partition_call v d)) ds s)"
  using assms(2-4)
proof (induction ds arbitrary: s)
  case (Cons x ds)
  obtain q t where q: "run_verify c hash meta h l (partition_call v x) s = (q, t)" by fastforce
  then obtain r where r: "q = Inr r" using Cons.prems(3) by (cases q) auto
  have keep: "view t = view s" using harness_check.check_keeps [OF assms(1) q] .
  show ?case
  proof (cases "d = x")
    case True
    then show ?thesis using harness_check.hopeless_fails [OF assms(1) _ q [unfolded r]] Cons.prems q r by (auto simp: no_failure_def)
  next
    case False
    then show ?thesis using Cons.IH [of t] Cons.prems keep q r by (auto simp: no_failure_def)
  qed
qed simp

lemma missing_names_Nil: "missing_names segments objects = [] \<longleftrightarrow> path_name ` set segments \<subseteq> key_name ` set objects"
proof -
  have "sort xs = [] \<longleftrightarrow> xs = []" for xs :: "string list" by (metis length_0_conv length_sort)
  then show ?thesis by (auto simp: missing_names_def filter_empty_conv)
qed

section \<open>Properties\<close>

text \<open>
  C35. The verdict is \<^verbatim>\<open>rpo_zero_verified\<close> exactly when the time stamp is valid, the objects could be listed, each segment
  modified up to a second before the switch has an object of its base name somewhere below the prefix, and
  no check of a partition returned a failure. A check that raised counts as none, so when all of them raise the verdict rests on the names alone.
\<close>

theorem rpo_zero_exactly:
  "rp_status (fst (verify_rpo_zero c hash meta h v stamp s)) = rpo_zero_verified \<longleftrightarrow>
     (\<exists>ts objects s1. stamp = Inr ts \<and> list_objects c (cv_nas_l2_prefix v) s = (Inr objects, s1) \<and>
        path_name ` set (list_local_segments v (of_int ts / 1000000 - 1)) \<subseteq> key_name ` set objects \<and>
        no_failure (checks_of c hash meta h v (list_local_segments v (of_int ts / 1000000 + 1)) s1))"
  by (simp only: rpo_verified_iff missing_names_Nil)

text \<open>
  A migrated partition prevents the verdict: when the store answers listings and the checks do not raise, one segment on disk with an
  object below its partition on the NAS is enough for the answer not to be \<^verbatim>\<open>rpo_zero_verified\<close>, since the harness
  reports a partition that is on both sides as ambiguous.
\<close>

lemma migrated_partition_is_drift:
  assumes "s3_laws c view" "answers c" "list_objects c (cv_nas_l2_prefix v) s = (Inr objects, s1)"
    "\<forall>e. Inl e \<notin> set (checks_of c hash meta h v (list_local_segments v (of_int ts / 1000000 + 1)) s1)"
    "p \<in> set (list_local_segments v (of_int ts / 1000000 + 1))" "p \<noteq> []"
    "view s k \<noteq> None" "starts_with k (slashed (compute_nas_partition_for v (butlast p)))"
  shows "rp_status (fst (verify_rpo_zero c hash meta h v (Inr ts) s)) \<noteq> rpo_zero_verified"
proof
  assume "rp_status (fst (verify_rpo_zero c hash meta h v (Inr ts) s)) = rpo_zero_verified"
  then have pass: "no_failure (checks_of c hash meta h v (list_local_segments v (of_int ts / 1000000 + 1)) s1)"
    using assms(3) by (auto simp: rpo_verified_iff)
  have d: "butlast p \<in> set (partition_dirs (list_local_segments v (of_int ts / 1000000 + 1)))"
    using assms(5) by (simp add: partition_dirs_def)
  have "p \<in> set (fs_rglob (cv_root v) ''.parquet'' (he_files (cv_local v)))" using assms(5) by (simp add: list_local_segments_def)
  then have "p \<in> set (glob_parquet (butlast p) (he_files (cv_local v)))" using assms(6) by (auto simp: fs_rglob_def glob_parquet_def)
  then have both: "on_both_sides (cv_local v) (partition_call v (butlast p)) (view s1)"
    using list_objects_view [OF assms(1,3)] assms(7,8)
    by (auto simp: on_both_sides_def partition_call_def the_files_def)
  have laws: "s3_laws c view \<and> answers c" using assms(1,2) by simp
  show False using outcomes_hopeless [OF laws d both assms(4) [unfolded checks_of_def]] pass by (simp add: checks_of_def)
qed

definition example_cutover :: cutover where
  "example_cutover =
     \<lparr>cv_local = \<lparr>he_files = [([''r'', ''d'', ''a.parquet''], ''data'')], he_readable = (\<lambda>p. True)\<rparr>, cv_mtime = (\<lambda>p. Some 0),
      cv_root = [''r''], cv_nas_l2_prefix = ''p''\<rparr>"

definition example_bucket :: mem where
  "example_bucket = \<lparr>m_up = True, m_objects = [(''p/d/a.parquet'', example_object)]\<rparr>"

lemma example_checks:
  "list_objects listing_s3 ''p'' example_bucket = (Inr [''p/d/a.parquet''], example_bucket)"
  "list_all (\<lambda>q. case q of Inl e \<Rightarrow> False | Inr r \<Rightarrow> True)
     (checks_of listing_s3 id example_meta example_harness example_cutover (list_local_segments example_cutover (of_int 0 / 1000000 + 1)) example_bucket)"
  "list_local_segments example_cutover (of_int 0 / 1000000 + 1) = [[''r'', ''d'', ''a.parquet'']]"
  "starts_with ''p/d/a.parquet'' (slashed (compute_nas_partition_for example_cutover (butlast [''r'', ''d'', ''a.parquet''])))"
  "mem_view example_bucket ''p/d/a.parquet'' = Some example_object"
  by code_simp+

end
