(* ===== verification/WindowRunner.thy ===== *)
theory WindowRunner
  imports InvariantHarness NasSop Barrier
begin

text \<open>
  \<^verbatim>\<open>ops/dual_write_window_runner.py\<close>: the daily cycle during dual writing. It stops compaction, verifies the listed partitions, compares
  the upload latency with a baseline, and appends an entry to the evidence file.

  The state is whether this runner holds the file lock, whether the barrier signal is set, the count of consecutive passes, the evidence
  entries and the store. Everything read from outside during a cycle is a record. Of the entry the model keeps the status, the number of
  failed and of verified partitions, the latency gate and the count; metrics and durations are left out. Partitions are relative paths.
  A cycle is \<open>None\<close> while it still waits for the barrier after the given rounds.

  The theory shows how a cycle ends on every path, in particular what it records when it fails.
\<close>

section \<open>Latency\<close>

record iops_delta =
  io_pre_baseline :: rat
  io_during :: rat
  io_delta_pct :: rat
  io_within_gate :: bool
  io_read :: rat
  io_write :: rat
  io_container_pct :: rat

text \<open>What Prometheus answers to the four queries; a query that fails or has no data is \<open>None\<close>.\<close>

record iops_env =
  iq_put_p99 :: "rat option"
  iq_read :: "rat option"
  iq_write :: "rat option"
  iq_container :: "rat option"

definition query_or :: "rat option \<Rightarrow> rat \<Rightarrow> rat" where
  "query_or answer fallback = (case answer of None \<Rightarrow> fallback | Some x \<Rightarrow> x)"

definition iops_snapshot :: "rat \<Rightarrow> rat \<Rightarrow> iops_env \<Rightarrow> py_error + iops_delta" where
  "iops_snapshot baseline gate_pct q =
     (let during = query_or (iq_put_p99 q) baseline; read = query_or (iq_read q) 0; write = query_or (iq_write q) 0;
          container = query_or (iq_container q) 0
      in if baseline = 0 then Inl ZeroDivisionError
         else let delta = (during - baseline) / baseline * 100
              in Inr \<lparr>io_pre_baseline = baseline, io_during = during, io_delta_pct = delta, io_within_gate = (\<bar>delta\<bar> \<le> gate_pct),
                      io_read = read, io_write = write, io_container_pct = container\<rparr>)"

section \<open>The cycle\<close>

datatype window_status = healthy | window_drift | barrier_drain_timeout | sop_manual_gate | iops_gate_breached

record evidence_entry =
  ev_status :: window_status
  ev_drift_count :: nat
  ev_partitions :: nat
  ev_iops_ok :: bool
  ev_pass_count :: int

record window_result =
  wr_status :: window_status
  wr_barrier :: "barrier_result option"
  wr_partitions :: "(string \<times> invariant_result) list"
  wr_iops :: "iops_delta option"
  wr_sop :: sop_state

record 's window =
  w_locked :: bool
  w_signal :: bool
  w_pass_count :: int
  w_evidence :: "evidence_entry list"
  w_store :: 's

record window_env =
  we_lock_ok :: bool
  we_sop :: sop
  we_drain_timeout :: int
  we_signal_ok :: bool
  we_start :: seconds
  we_begun :: seconds
  we_polls :: "poll list"
  we_partitions :: "py_error + (string \<times> string) list"
  we_iops :: iops_env
  we_can_unlink :: bool
  we_evidence_ok :: bool

record window_config =
  wc_local_root :: path
  wc_nas_partition_root :: string
  wc_baseline :: rat

definition cycle_call :: "window_config \<Rightarrow> string \<Rightarrow> verify_call" where
  "cycle_call cfg part =
     (wc_local_root cfg @ split_on CHR ''/'' part,
      if starts_with part (wc_nas_partition_root cfg) then part else wc_nas_partition_root cfg @ ''/'' @ part, None, None)"

text \<open>Phase B: the results so far, and the exception that ended it, if any.\<close>

fun verify_all ::
  "(verify_call \<Rightarrow> 's \<Rightarrow> (py_error + invariant_result) \<times> 's) \<Rightarrow> window_config \<Rightarrow> (string \<times> string) list \<Rightarrow> (string \<times> invariant_result) list \<Rightarrow> 's
     \<Rightarrow> py_error option \<times> (string \<times> invariant_result) list \<times> 's" where
  "verify_all check cfg [] acc s = (None, acc, s)"
| "verify_all check cfg ((part, symbol) # ps) acc s =
     (case check (cycle_call cfg part) s of
        (Inl e, s) \<Rightarrow> (Some e, acc, s)
      | (Inr r, s) \<Rightarrow> verify_all check cfg ps (AList.update (part @ ''|'' @ symbol) r acc) s)"

definition drifted :: "(string \<times> invariant_result) list \<Rightarrow> nat" where
  "drifted rs = length (filter (\<lambda>(x, r). ir_status r \<noteq> all_pass) rs)"

definition release_lock :: "'s window \<Rightarrow> 's window" where
  "release_lock w = w\<lparr>w_locked := False\<rparr>"

definition window_shutdown :: "'s window \<Rightarrow> 's window" where
  "window_shutdown w = release_lock w"

text \<open>Phase E: release the barrier if it was reached, append the entry, release the lock.\<close>

definition cycle_exit ::
  "window_env \<Rightarrow> window_status \<Rightarrow> barrier_result option \<Rightarrow> (string \<times> invariant_result) list \<Rightarrow> iops_delta option \<Rightarrow> 's window \<Rightarrow> 's window" where
  "cycle_exit e status barrier rs iops w =
     (let w = (case barrier of
                 Some b \<Rightarrow> if br_status b = BarrierOk then w\<lparr>w_signal := release (we_can_unlink e) (w_signal w)\<rparr> else w
               | None \<Rightarrow> w);
          entry = \<lparr>ev_status = status, ev_drift_count = drifted rs, ev_partitions = length rs,
                   ev_iops_ok = (case iops of None \<Rightarrow> True | Some d \<Rightarrow> io_within_gate d), ev_pass_count = w_pass_count w\<rparr>;
          w = (if we_evidence_ok e then w\<lparr>w_evidence := w_evidence w @ [entry]\<rparr> else w)
      in release_lock w)"

text \<open>Phases C and D, with the status they leave.\<close>

definition judge :: "window_config \<Rightarrow> window_env \<Rightarrow> (string \<times> invariant_result) list \<Rightarrow> py_error + window_status \<times> iops_delta" where
  "judge cfg e rs =
     (case iops_snapshot (wc_baseline cfg) 15 (we_iops e) of
        Inl x \<Rightarrow> Inl x
      | Inr d \<Rightarrow>
          let status = (if drifted rs \<noteq> 0 then window_drift else healthy)
          in Inr (if \<not> io_within_gate d \<and> status = healthy then iops_gate_breached else status, d))"

definition count_pass :: "(string \<times> invariant_result) list \<Rightarrow> 's window \<Rightarrow> 's window" where
  "count_pass rs w = w\<lparr>w_pass_count := (if drifted rs \<noteq> 0 then 0 else w_pass_count w + 1)\<rparr>"

definition window_run ::
  "(verify_call \<Rightarrow> 's \<Rightarrow> (py_error + invariant_result) \<times> 's) \<Rightarrow> window_config \<Rightarrow> window_env \<Rightarrow> 's window
     \<Rightarrow> (py_error + window_result) option \<times> 's window" where
  "window_run check cfg e w =
     (let result = (\<lambda>st b rs d sp. \<lparr>wr_status = st, wr_barrier = b, wr_partitions = rs, wr_iops = d, wr_sop = sp\<rparr>) in
      if \<not> we_lock_ok e then (Some (Inr (result barrier_drain_timeout None [] None AUTO_RESUME)), w)
      else let w = w\<lparr>w_locked := True\<rparr>; sp = sp_state (we_sop e) in
        if is_manual_gate (we_sop e)
        then (Some (Inr (result sop_manual_gate None [] None sp)), cycle_exit e sop_manual_gate None [] None w)
        else case drain_and_block (we_drain_timeout e) (we_signal_ok e) (we_start e) (we_begun e) (we_polls e) (w_signal w) of
               (None, signal) \<Rightarrow> (None, w\<lparr>w_signal := signal\<rparr>)
             | (Some (Inl x), signal) \<Rightarrow> (Some (Inl x), cycle_exit e healthy None [] None (w\<lparr>w_signal := signal\<rparr>))
             | (Some (Inr b), signal) \<Rightarrow>
                 let w = w\<lparr>w_signal := signal\<rparr> in
                 if br_status b = DrainTimeout \<or> br_status b = BarrierViolated
                 then (Some (Inr (result barrier_drain_timeout (Some b) [] None sp)), cycle_exit e barrier_drain_timeout (Some b) [] None w)
                 else case we_partitions e of
                        Inl x \<Rightarrow> (Some (Inl x), cycle_exit e healthy (Some b) [] None w)
                      | Inr ps \<Rightarrow>
                          (case verify_all check cfg ps [] (w_store w) of
                             (Some x, rs, s) \<Rightarrow> (Some (Inl x), cycle_exit e healthy (Some b) rs None (w\<lparr>w_store := s\<rparr>))
                           | (None, rs, s) \<Rightarrow>
                               let w = count_pass rs (w\<lparr>w_store := s\<rparr>) in
                               (case judge cfg e rs of
                                  Inl x \<Rightarrow>
                                    (Some (Inl x), cycle_exit e (if drifted rs \<noteq> 0 then window_drift else healthy) (Some b) rs None w)
                                | Inr (status, d) \<Rightarrow>
                                    (Some (Inr (result status (Some b) rs (Some d) sp)), cycle_exit e status (Some b) rs (Some d) w))))"

section \<open>How a cycle ends\<close>

lemma cycle_exit_fields [simp]:
  "w_locked (cycle_exit e st b rs d w) = False" "w_store (cycle_exit e st b rs d w) = w_store w"
  "w_pass_count (cycle_exit e st b rs d w) = w_pass_count w"
  by (auto simp: cycle_exit_def release_lock_def Let_def split: option.splits)

lemma cycle_exit_signal:
  "w_signal (cycle_exit e st b rs d w) =
     (case b of Some b \<Rightarrow> if br_status b = BarrierOk then release (we_can_unlink e) (w_signal w) else w_signal w | None \<Rightarrow> w_signal w)"
  by (auto simp: cycle_exit_def release_lock_def Let_def split: option.splits)

lemma cycle_exit_evidence:
  "we_evidence_ok e \<Longrightarrow> \<exists>entry. w_evidence (cycle_exit e st b rs d w) = w_evidence w @ [entry] \<and> ev_status entry = st \<and> ev_drift_count entry = drifted rs"
  by (auto simp: cycle_exit_def release_lock_def Let_def split: option.splits)


text \<open>A barrier that answers has set the signal.\<close>

lemma drain_and_block_signal:
  "drain_and_block t ok start begun polls signal = (Some (Inr b), signal') \<Longrightarrow> signal'"
  by (auto simp: drain_and_block_def emit_barrier_signal_def split: if_splits)

lemma drain_status: "drain_and_block t ok start begun polls signal = (Some (Inr b), signal') \<Longrightarrow> br_status b \<noteq> BarrierViolated"
  by (auto simp: drain_and_block_def emit_barrier_signal_def split: if_splits dest!: drain_wait_result)

text \<open>A finished verification has a result for every listed pair.\<close>

lemma verify_all_keys:
  "verify_all check cfg ps acc s = (None, rs, s') \<Longrightarrow> fst ` set rs = fst ` set acc \<union> (\<lambda>(part, symbol). part @ ''|'' @ symbol) ` set ps"
proof (induction check cfg ps acc s rule: verify_all.induct)
  case (2 check cfg part symbol ps acc s)
  obtain o' s1 where c: "check (cycle_call cfg part) s = (o', s1)" by (cases "check (cycle_call cfg part) s")
  from 2(2) c obtain r where r: "o' = Inr r" by (cases o') auto
  from 2(1) [OF c [unfolded r, symmetric] refl] 2(2) c r show ?case by (auto simp: dom_update)
qed simp

lemma drifted_0: "drifted rs = 0 \<longleftrightarrow> (\<forall>(x, r)\<in>set rs. ir_status r = all_pass)"
  by (auto simp: drifted_def filter_empty_conv)

lemma judge_status:
  "judge cfg e rs = Inr (status, d) \<Longrightarrow>
     status = (if drifted rs \<noteq> 0 then window_drift else if io_within_gate d then healthy else iops_gate_breached)"
  by (auto simp: judge_def Let_def split: sum.splits if_splits)

lemma judge_answers: "wc_baseline cfg \<noteq> 0 \<Longrightarrow> \<exists>status d. judge cfg e rs = Inr (status, d)"
  by (simp add: judge_def iops_snapshot_def Let_def)

text \<open>The four ways a cycle with the lock ends, and the one in which it goes on waiting.\<close>

lemma window_run_cases:
  assumes "we_lock_ok e" "window_run check cfg e w = (Some out, w')"
  obtains
    (gate) "sp_state (we_sop e) = MANUAL_GATE" "out = Inr \<lparr>wr_status = sop_manual_gate, wr_barrier = None, wr_partitions = [], wr_iops = None, wr_sop = MANUAL_GATE\<rparr>"
      "w' = cycle_exit e sop_manual_gate None [] None (w\<lparr>w_locked := True\<rparr>)"
  | (raised) x b rs w1 where "out = Inl x" "w' = cycle_exit e healthy b rs None w1" "w_evidence w1 = w_evidence w"
  | (no_baseline) x st b rs w1 where "wc_baseline cfg = 0" "out = Inl x" "w' = cycle_exit e st b rs None w1" "w_evidence w1 = w_evidence w"
      "st = (if drifted rs \<noteq> 0 then window_drift else healthy)"
  | (timed_out) b w1 where "br_status b = DrainTimeout" "w_signal w1" "w_pass_count w1 = w_pass_count w"
      "out = Inr \<lparr>wr_status = barrier_drain_timeout, wr_barrier = Some b, wr_partitions = [], wr_iops = None, wr_sop = sp_state (we_sop e)\<rparr>"
      "w' = cycle_exit e barrier_drain_timeout (Some b) [] None w1"
  | (verified) b ps rs s d st w1 where "br_status b = BarrierOk" "we_partitions e = Inr ps" "verify_all check cfg ps [] (w_store w) = (None, rs, s)"
      "judge cfg e rs = Inr (st, d)" "w_signal w1" "w_pass_count w1 = w_pass_count w"
      "out = Inr \<lparr>wr_status = st, wr_barrier = Some b, wr_partitions = rs, wr_iops = Some d, wr_sop = sp_state (we_sop e)\<rparr>"
      "w' = cycle_exit e st (Some b) rs (Some d) (count_pass rs w1)"
proof (cases "is_manual_gate (we_sop e)")
  case True
  with assms gate show ?thesis by (auto simp: window_run_def is_manual_gate_def Let_def)
next
  case no_gate: False
  let ?w = "w\<lparr>w_locked := True\<rparr>"
  obtain res signal where d: "drain_and_block (we_drain_timeout e) (we_signal_ok e) (we_start e) (we_begun e) (we_polls e) (w_signal w) = (res, signal)"
    by (cases "drain_and_block (we_drain_timeout e) (we_signal_ok e) (we_start e) (we_begun e) (we_polls e) (w_signal w)")
  show ?thesis
  proof (cases res)
    case None
    with assms no_gate d show ?thesis by (simp add: window_run_def Let_def)
  next
    case (Some r)
    show ?thesis
    proof (cases r)
      case (Inl x)
      with assms no_gate d Some show ?thesis by (intro raised [of x None "[]" "?w\<lparr>w_signal := signal\<rparr>"]) (auto simp: window_run_def Let_def)
    next
      case (Inr b)
      let ?w = "?w\<lparr>w_signal := signal\<rparr>"
      have sig: "signal" using drain_and_block_signal d Some Inr by blast
      show ?thesis
      proof (cases "br_status b")
        case BarrierOk
        show ?thesis
        proof (cases "we_partitions e")
          case (Inl x)
          with assms no_gate d Some \<open>r = Inr b\<close> BarrierOk show ?thesis
            by (intro raised [of x "Some b" "[]" ?w]) (auto simp: window_run_def Let_def)
        next
          case ps: (Inr ps)
          obtain o' rs s where v: "verify_all check cfg ps [] (w_store w) = (o', rs, s)" by (cases "verify_all check cfg ps [] (w_store w)")
          let ?w = "?w\<lparr>w_store := s\<rparr>"
          show ?thesis
          proof (cases o')
            case (Some x)
            with assms no_gate d \<open>res = Some r\<close> \<open>r = Inr b\<close> BarrierOk ps v show ?thesis
              by (intro raised [of x "Some b" rs ?w]) (auto simp: window_run_def Let_def)
          next
            case None
            show ?thesis
            proof (cases "judge cfg e rs")
              case (Inl x)
              have "wc_baseline cfg = 0" using judge_answers [of cfg e rs] Inl by fastforce
              with Inl None assms no_gate d \<open>res = Some r\<close> \<open>r = Inr b\<close> BarrierOk ps v show ?thesis
                by (intro no_baseline [of x _ "Some b" rs "count_pass rs ?w"]) (auto simp: window_run_def Let_def count_pass_def)
            next
              case (Inr j)
              with None assms no_gate d \<open>res = Some r\<close> \<open>r = Inr b\<close> BarrierOk ps v sig show ?thesis
                by (intro verified [of b ps rs s "fst j" "snd j" ?w]) (auto simp: window_run_def Let_def split: prod.splits)
            qed
          qed
        qed
      next
        case DrainTimeout
        with assms no_gate d Some Inr sig show ?thesis by (intro timed_out [of b ?w]) (auto simp: window_run_def Let_def)
      next
        case BarrierViolated
        with drain_status d Some Inr show ?thesis by blast
      qed
    qed
  qed
qed

section \<open>Properties\<close>


definition example_window_config :: window_config where
  "example_window_config = \<lparr>wc_local_root = [''d''], wc_nas_partition_root = ''d'', wc_baseline = 2\<rparr>"

definition example_window_env :: window_env where
  "example_window_env =
     \<lparr>we_lock_ok = True, we_sop = sop_init, we_drain_timeout = 1, we_signal_ok = True, we_start = 0, we_begun = 0,
      we_polls = [\<lparr>po_state = Count 0, po_elapsed_at = 0, po_checked_at = 0\<rparr>], we_partitions = Inr [(''schema_version=v1'', ''KRW'')],
      we_iops = \<lparr>iq_put_p99 = Some 3, iq_read = None, iq_write = None, iq_container = None\<rparr>, we_can_unlink = True, we_evidence_ok = True\<rparr>"

definition example_window :: "bool \<Rightarrow> mem window" where
  "example_window up = \<lparr>w_locked = False, w_signal = False, w_pass_count = 2, w_evidence = [], w_store = \<lparr>m_up = up, m_objects = []\<rparr>\<rparr>"

definition example_check :: "verify_call \<Rightarrow> mem \<Rightarrow> (py_error + invariant_result) \<times> mem" where
  "example_check = run_verify mem_s3 id example_meta example_harness \<lparr>he_files = [], he_readable = (\<lambda>p. True)\<rparr>"


text \<open>
  C38. A cycle that ends in an exception, whether the signal file could not be written, the partitions not be listed or a verification not be
  finished, still appends its entry, and with a baseline other than zero the entry says \<^verbatim>\<open>healthy\<close> with an unbreached latency gate, whatever the
  results up to then were.
\<close>

theorem failed_cycle_recorded_healthy:
  assumes "we_lock_ok e" "we_evidence_ok e" "wc_baseline cfg \<noteq> 0" "window_run check cfg e w = (Some (Inl x), w')"
  shows "\<not> w_locked w' \<and> (\<exists>entry. w_evidence w' = w_evidence w @ [entry] \<and> ev_status entry = healthy \<and> ev_iops_ok entry)"
  using assms(1,4)
proof (cases rule: window_run_cases)
  case (raised y b rs w1)
  then show ?thesis using assms(2) by (auto simp: cycle_exit_def release_lock_def Let_def split: option.splits)
qed (use assms(3) in auto)

theorem failed_cycle_recorded_healthy_witness:
  "\<exists>w'. window_run example_check example_window_config example_window_env (example_window False) = (Some (Inl EndpointConnectionError), w') \<and>
     map ev_status (w_evidence w') = [healthy]"
proof -
  obtain o' w' where run: "window_run example_check example_window_config example_window_env (example_window False) = (o', w')" by fastforce
  have "fst (window_run example_check example_window_config example_window_env (example_window False)) = Some (Inl EndpointConnectionError)" by code_simp
  with run have o: "o' = Some (Inl EndpointConnectionError)" by simp
  have "we_lock_ok example_window_env" "we_evidence_ok example_window_env" "wc_baseline example_window_config \<noteq> 0"
    by (simp_all add: example_window_env_def example_window_config_def)
  from failed_cycle_recorded_healthy [OF this run [unfolded o]] run o show ?thesis by (auto simp: example_window_def)
qed

end
