(* ===== verification/TierMerge.thy ===== *)
theory TierMerge
  imports InvariantHarness HistoricalReclaim NasKey
begin

text \<open>
  \<^verbatim>\<open>compactor/l2.py\<close>, \<^verbatim>\<open>l3.py\<close>, \<^verbatim>\<open>sort_key.py\<close>, \<^verbatim>\<open>quarantine.py\<close> and \<^verbatim>\<open>_nas_stream_cache.py\<close>: merging the
  Parquet files of a partition into one file of the next tier, from local files or from objects.

  \<^verbatim>\<open>pyarrow\<close> is the parameter \<open>P\<close>: opening a file gives its columns, the minimum of \<^verbatim>\<open>ts_utc\<close> in the statistics of each row group and the
  batches of its rows; writing batches gives a file. A row is its time stamp and the rest of its columns. Local files are listed in the order of
  the directory. The process identifier and whether the disk takes the output are an input. Resolving symbolic links is left out, the
  names of a partition have no \<^verbatim>\<open>..\<close> among them.

  The merge is proved once for any source of bytes and used for the local and the stored files. The theory shows that an output holds every
  input row in time order, that the output for an hour holds the rows of the whole day, and what this means for the merge of the day.
\<close>

section \<open>Parquet files\<close>

type_synonym row = "timestamp \<times> string"

record pfile =
  pf_schema :: "string list"
  pf_stats :: "timestamp option list"
  pf_batches :: "row list list"

definition pf_rows :: "pfile \<Rightarrow> row list" where
  "pf_rows pf = concat (pf_batches pf)"

record pq =
  pq_open :: "bytes \<Rightarrow> py_error + pfile"
  pq_write :: "string list \<Rightarrow> row list list \<Rightarrow> bytes"

text \<open>
  What the library promises: statistics, where a row group has them, are those of its rows, and a written file opens with the columns
  and rows it was written with.
\<close>

definition stats_true :: "pfile \<Rightarrow> bool" where
  "stats_true pf \<longleftrightarrow>
     (pf_rows pf \<noteq> [] \<and> pf_stats pf \<noteq> [] \<and> None \<notin> set (pf_stats pf) \<longrightarrow>
        Min (the ` set (pf_stats pf)) = Min (fst ` set (pf_rows pf)))"

definition pq_laws :: "pq \<Rightarrow> bool" where
  "pq_laws P \<longleftrightarrow>
     (\<forall>d pf. pq_open P d = Inr pf \<longrightarrow> stats_true pf) \<and>
     (\<forall>schema bs. \<exists>pf. pq_open P (pq_write P schema bs) = Inr pf \<and> pf_schema pf = schema \<and> pf_rows pf = concat bs)"

definition extract_min_ts :: "pq \<Rightarrow> bytes \<Rightarrow> py_error + timestamp option" where
  "extract_min_ts P d =
     (case pq_open P d of
        Inl e \<Rightarrow> Inl e
      | Inr pf \<Rightarrow>
          if pf_rows pf = [] then Inr None
          else if ''ts_utc'' \<notin> set (pf_schema pf) then Inl KeyError
          else let mins = (if None \<in> set (pf_stats pf) then [] else map the (pf_stats pf))
               in if mins \<noteq> [] then Inr (Some (Min (set mins))) else Inr (Some (fst (hd (pf_rows pf)))))"

section \<open>Sources\<close>

text \<open>A local file; the sources of a merge are read from the disk as it was at its start.\<close>

definition fetch_local :: "path \<Rightarrow> bytes fsys \<Rightarrow> (py_error + bytes) \<times> bytes fsys" where
  "fetch_local p fs = (case fs_get fs p of None \<Rightarrow> (Inl FileNotFoundError, fs) | Some d \<Rightarrow> (Inr d, fs))"

text \<open>Without a byte range, which no caller passes.\<close>

definition get_streaming :: "'s s3 \<Rightarrow> string \<Rightarrow> 's \<Rightarrow> (py_error + bytes) \<times> 's" where
  "get_streaming c nas_key s =
     (case s3_get c nas_key s of (Inl e, s) \<Rightarrow> (Inl e, s) | (Inr (body, etag), s) \<Rightarrow> (Inr body, s))"

record stream_cache =
  sc_cache :: "(string \<times> bytes) list"
  sc_total :: int

definition DEFAULT_THRESHOLD :: int where
  "DEFAULT_THRESHOLD = 128 * 1024 * 1024"

definition stream_cache_init :: stream_cache where
  "stream_cache_init = \<lparr>sc_cache = [], sc_total = 0\<rparr>"

definition get_or_fetch :: "'s s3 \<Rightarrow> int \<Rightarrow> string \<Rightarrow> stream_cache \<times> 's \<Rightarrow> (py_error + bytes) \<times> stream_cache \<times> 's" where
  "get_or_fetch c threshold nas_key w =
     (case w of (sc, s) \<Rightarrow>
      case map_of (sc_cache sc) nas_key of
        Some d \<Rightarrow> (Inr d, sc, s)
      | None \<Rightarrow>
          (case get_streaming c nas_key s of
             (Inl e, s) \<Rightarrow> (Inl e, sc, s)
           | (Inr d, s) \<Rightarrow>
               (Inr d,
                if sc_total sc + int (length d) \<le> threshold
                then \<lparr>sc_cache = AList.update nas_key d (sc_cache sc), sc_total = sc_total sc + int (length d)\<rparr> else sc, s)))"

section \<open>The merge\<close>

text \<open>The check of a batch: \<open>None\<close> if a row is older than the one before it, otherwise the last time stamp.\<close>

fun scan_ts :: "timestamp option \<Rightarrow> row list \<Rightarrow> timestamp option option" where
  "scan_ts last_ts [] = Some last_ts"
| "scan_ts last_ts (r # rs) =
     (if (case last_ts of None \<Rightarrow> False | Some t \<Rightarrow> fst r < t) then None else scan_ts (Some (fst r)) rs)"

text \<open>The batches of one file: whether the order was violated, the last time stamp, and the batches written so far.\<close>

fun write_batches ::
  "string list \<Rightarrow> string list \<Rightarrow> row list list \<Rightarrow> timestamp option \<Rightarrow> row list list
     \<Rightarrow> py_error + bool \<times> timestamp option \<times> row list list" where
  "write_batches schema file_schema [] last_ts acc = Inr (False, last_ts, acc)"
| "write_batches schema file_schema (b # bs) last_ts acc =
     (if ''ts_utc'' \<notin> set file_schema then Inl KeyError
      else case scan_ts last_ts b of
             None \<Rightarrow> Inr (True, last_ts, acc)
           | Some last_ts \<Rightarrow>
               if file_schema \<noteq> schema then Inl ValueError
               else write_batches schema file_schema bs last_ts (acc @ [b]))"

fun merge_sources ::
  "pq \<Rightarrow> ('k \<Rightarrow> 'w \<Rightarrow> (py_error + bytes) \<times> 'w) \<Rightarrow> string list \<Rightarrow> 'k list \<Rightarrow> timestamp option \<Rightarrow> row list list \<Rightarrow> 'w
     \<Rightarrow> (py_error + bool \<times> row list list) \<times> 'w" where
  "merge_sources P fetch schema [] last_ts acc w = (Inr (False, acc), w)"
| "merge_sources P fetch schema (k # ks) last_ts acc w =
     and_then (fetch k w) (\<lambda>d w.
       case pq_open P d of
         Inl e \<Rightarrow> (Inl e, w)
       | Inr pf \<Rightarrow>
           (case write_batches schema (pf_schema pf) (pf_batches pf) last_ts acc of
              Inl e \<Rightarrow> (Inl e, w)
            | Inr (violation, last_ts, acc) \<Rightarrow>
                if violation then (Inr (True, acc), w) else merge_sources P fetch schema ks last_ts acc w))"

text \<open>The sources with their least time stamps; a source without rows is skipped.\<close>

fun keyed ::
  "pq \<Rightarrow> ('k \<Rightarrow> 'w \<Rightarrow> (py_error + bytes) \<times> 'w) \<Rightarrow> 'k list \<Rightarrow> 'w \<Rightarrow> (py_error + ('k \<times> timestamp) list) \<times> 'w" where
  "keyed P fetch [] w = (Inr [], w)"
| "keyed P fetch (k # ks) w =
     and_then (fetch k w) (\<lambda>d w.
       case extract_min_ts P d of
         Inl e \<Rightarrow> (Inl e, w)
       | Inr ts \<Rightarrow>
           and_then (keyed P fetch ks w) (\<lambda>rest w. (Inr (case ts of None \<Rightarrow> rest | Some t \<Rightarrow> (k, t) # rest), w)))"

record merge_env =
  me_pid :: string
  me_disk_ok :: bool

definition bar_join :: "string list \<Rightarrow> string" where
  "bar_join xs = concat (map (\<lambda>(i, x). (if i = 0 then [] else ''|'') @ x) (enumerate 0 xs))"

definition stem :: "string \<Rightarrow> string" where
  "stem name =
     (let pre = dropWhile (\<lambda>x. x \<noteq> CHR ''.'') (rev name)
      in if pre = [] \<or> tl pre = [] \<or> hd (rev name) = CHR ''.'' then name else rev (tl pre))"

text \<open>\<^verbatim>\<open>quarantine_l2\<close> and \<^verbatim>\<open>quarantine_l3\<close> differ in the number of parents of the temporary file up to the root.\<close>

definition quarantine_path :: "nat \<Rightarrow> string \<Rightarrow> string \<Rightarrow> string \<Rightarrow> path \<Rightarrow> py_error + path" where
  "quarantine_path up channel date_str reason tmp =
     (if length tmp \<le> up then Inl IndexError
      else Inr (take (length tmp - Suc up) tmp @
                [''market'', channel, ''quarantine'', date_str, reason, ''part-'' @ stem (path_name tmp) @ ''.parquet'']))"

definition quarantine_l2 :: "string \<Rightarrow> string \<Rightarrow> path \<Rightarrow> py_error + path" where
  "quarantine_l2 channel date_str tmp = quarantine_path 9 channel date_str ''monotonic_violation'' tmp"

definition quarantine_l3 :: "string \<Rightarrow> string \<Rightarrow> path \<Rightarrow> py_error + path" where
  "quarantine_l3 channel date_str tmp = quarantine_path 8 channel date_str ''monotonic_violation'' tmp"

definition tmp_path :: "merge_env \<Rightarrow> path \<Rightarrow> path" where
  "tmp_path e out_dir = out_dir @ [''part-tmp-'' @ me_pid e @ ''.tmp'']"

definition out_path :: "string \<Rightarrow> path \<Rightarrow> path" where
  "out_path run_id out_dir = out_dir @ [''part-'' @ run_id @ ''.parquet'']"

text \<open>Writing the output: the temporary file becomes the output, or goes to the quarantine.\<close>

definition write_merged ::
  "pq \<Rightarrow> ('k \<Rightarrow> 'w \<Rightarrow> (py_error + bytes) \<times> 'w) \<Rightarrow> merge_env \<Rightarrow> string list \<Rightarrow> 'k list \<Rightarrow> path \<Rightarrow> string \<Rightarrow> (path \<Rightarrow> py_error + path)
     \<Rightarrow> bytes fsys \<Rightarrow> 'w \<Rightarrow> (py_error + path option) \<times> bytes fsys \<times> 'w" where
  "write_merged P fetch e schema ks out_dir run_id quarantine fs w =
     (let tmp = tmp_path e out_dir; out = out_path run_id out_dir
      in if \<not> me_disk_ok e then (Inl OSError, fs_del tmp fs, w)
         else case merge_sources P fetch schema ks None [] w of
                (Inl x, w) \<Rightarrow> (Inl x, fs_del tmp fs, w)
              | (Inr (violation, bs), w) \<Rightarrow>
                  let fs = fs_put tmp (pq_write P schema bs) fs
                  in if violation
                     then (case quarantine tmp of
                             Inl x \<Rightarrow> (Inl x, fs_del tmp fs, w)
                           | Inr q \<Rightarrow> (Inr None, fs_replace tmp q fs, w))
                     else (Inr (Some out), fs_replace tmp out fs, w))"

text \<open>The part that the local and the stored variant share: sort by content, read the schema of the first source, write.\<close>

definition merge_tier ::
  "pq \<Rightarrow> ('k \<Rightarrow> 'w \<Rightarrow> (py_error + bytes) \<times> 'w) \<Rightarrow> merge_env \<Rightarrow> ('k list \<Rightarrow> string) \<Rightarrow> 'k list \<Rightarrow> path \<Rightarrow> (path \<Rightarrow> py_error + path)
     \<Rightarrow> bytes fsys \<Rightarrow> 'w \<Rightarrow> (py_error + path option) \<times> bytes fsys \<times> 'w" where
  "merge_tier P fetch e run_id candidates out_dir quarantine fs w =
     (case keyed P fetch candidates w of
        (Inl x, w) \<Rightarrow> (Inl x, fs, w)
      | (Inr kts, w) \<Rightarrow>
          let ks = map fst (sort_key snd kts)
          in if ks = [] then (Inr None, fs, w)
             else case fetch (hd ks) w of
                    (Inl x, w) \<Rightarrow> (Inl x, fs, w)
                  | (Inr d, w) \<Rightarrow>
                      (case pq_open P d of
                         Inl x \<Rightarrow> (Inl x, fs, w)
                       | Inr pf \<Rightarrow> write_merged P fetch e (pf_schema pf) ks out_dir (run_id ks) quarantine fs w))"

section \<open>L2 and L3\<close>

definition schema_version :: "string \<Rightarrow> py_error + string" where
  "schema_version channel =
     (case map_of CHANNEL_SCHEMA_VERSION channel of None \<Rightarrow> Inl NotImplementedError | Some v \<Rightarrow> Inr v)"

definition rglob_parts :: "path \<Rightarrow> 'f fsys \<Rightarrow> path list" where
  "rglob_parts dir fs =
     filter (\<lambda>p. take (length dir) p = dir \<and> length dir < length p \<and> starts_with (path_name p) ''part-'' \<and>
                 ends_with (path_name p) ''.parquet'') (remdups (map fst fs))"

definition pt_date_str :: "partition \<Rightarrow> string" where
  "pt_date_str pt = strftime_date (pt_date pt * 86400)"

definition l2_out_dir :: "partition \<Rightarrow> string \<Rightarrow> nat \<Rightarrow> path" where
  "l2_out_dir pt version hour = pt_root pt @ tier_dir pt ''L2'' version @ [''hour='' @ fixw 2 hour, ''node=MERGED'']"

definition l3_out_dir :: "partition \<Rightarrow> string \<Rightarrow> path" where
  "l3_out_dir pt version = pt_root pt @ tier_dir pt ''L3'' version @ [''node=MERGED'']"

definition local_run_id :: "(bytes \<Rightarrow> string) \<Rightarrow> path list \<Rightarrow> string" where
  "local_run_id hash ps = take 16 (hash (bar_join (map path_str ps)))"

definition compact_hour_local ::
  "pq \<Rightarrow> merge_env \<Rightarrow> (bytes \<Rightarrow> string) \<Rightarrow> partition \<Rightarrow> string \<Rightarrow> nat \<Rightarrow> bytes fsys \<Rightarrow> (py_error + path option) \<times> bytes fsys" where
  "compact_hour_local P e hash pt version hour fs =
     (case merge_tier P fetch_local e (local_run_id hash) (rglob_parts (pt_root pt @ tier_dir pt ''L1'' version) fs)
             (l2_out_dir pt version hour) (quarantine_l2 (pt_channel pt) (pt_date_str pt)) fs fs of (r, fs', u) \<Rightarrow> (r, fs'))"

definition compact_day_local ::
  "pq \<Rightarrow> merge_env \<Rightarrow> (bytes \<Rightarrow> string) \<Rightarrow> partition \<Rightarrow> string \<Rightarrow> bytes fsys \<Rightarrow> (py_error + path option) \<times> bytes fsys" where
  "compact_day_local P e hash pt version fs =
     (case merge_tier P fetch_local e (local_run_id hash) (rglob_parts (pt_root pt @ tier_dir pt ''L2'' version) fs)
             (l3_out_dir pt version) (quarantine_l3 (pt_channel pt) (pt_date_str pt)) fs fs of (r, fs', u) \<Rightarrow> (r, fs'))"

text \<open>Flat keys are preferred, a legacy key is used where its flat form is absent.\<close>

definition canonical_map :: "string list \<Rightarrow> string list \<Rightarrow> (string \<times> string) list" where
  "canonical_map flat_keys legacy_keys =
     fold (\<lambda>k m. if map_of m (legacy_key_to_canonical k) = None then AList.update (legacy_key_to_canonical k) k m else m) legacy_keys
       (fold (\<lambda>k m. AList.update k k m) flat_keys [])"

definition parquet_keys :: "string list \<Rightarrow> string list" where
  "parquet_keys ks = sort (filter (\<lambda>k. ends_with k ''.parquet'') ks)"

definition canonical_run_id :: "(bytes \<Rightarrow> string) \<Rightarrow> string list \<Rightarrow> string" where
  "canonical_run_id hash ks = take 16 (hash (bar_join (sort (map legacy_key_to_canonical ks))))"

definition merge_objects ::
  "'s s3 \<Rightarrow> pq \<Rightarrow> merge_env \<Rightarrow> (string list \<Rightarrow> string) \<Rightarrow> string list \<Rightarrow> path \<Rightarrow> (path \<Rightarrow> py_error + path) \<Rightarrow> bytes fsys \<Rightarrow> 's
     \<Rightarrow> (py_error + path option) \<times> bytes fsys \<times> 's" where
  "merge_objects c P e run_id keys out_dir quarantine fs s =
     (case merge_tier P (get_or_fetch c DEFAULT_THRESHOLD) e run_id keys out_dir quarantine fs (stream_cache_init, s) of
        (r, fs, sc, s) \<Rightarrow> (r, fs, s))"

definition compact_hour_nas ::
  "'s s3 \<Rightarrow> pq \<Rightarrow> merge_env \<Rightarrow> (bytes \<Rightarrow> string) \<Rightarrow> partition \<Rightarrow> string \<Rightarrow> nat \<Rightarrow> bytes fsys \<Rightarrow> 's
     \<Rightarrow> (py_error + path option) \<times> bytes fsys \<times> 's" where
  "compact_hour_nas c P e hash pt version hour fs s =
     (case build_l1_prefix (pt_channel pt) version (pt_exchange pt) (pt_symbol pt) (pt_date_str pt) of
        Inl x \<Rightarrow> (Inl x, fs, s)
      | Inr flat_prefix \<Rightarrow>
          (case build_legacy_l1_prefix (pt_channel pt) version (pt_exchange pt) (pt_symbol pt) (pt_date_str pt) of
             Inl x \<Rightarrow> (Inl x, fs, s)
           | Inr legacy_prefix \<Rightarrow>
               (case list_objects c flat_prefix s of
                  (Inl x, s) \<Rightarrow> (Inr None, fs, s)
                | (Inr flat, s) \<Rightarrow>
                    (case list_objects c legacy_prefix s of
                       (Inl x, s) \<Rightarrow> (Inr None, fs, s)
                     | (Inr legacy, s) \<Rightarrow>
                         merge_objects c P e (canonical_run_id hash)
                           (sort (map snd (canonical_map (parquet_keys flat) (parquet_keys legacy))))
                           (l2_out_dir pt version hour) (quarantine_l2 (pt_channel pt) (pt_date_str pt)) fs s))))"

definition compact_day_nas ::
  "'s s3 \<Rightarrow> pq \<Rightarrow> merge_env \<Rightarrow> (bytes \<Rightarrow> string) \<Rightarrow> partition \<Rightarrow> string \<Rightarrow> bytes fsys \<Rightarrow> 's
     \<Rightarrow> (py_error + path option) \<times> bytes fsys \<times> 's" where
  "compact_day_nas c P e hash pt version fs s =
     (case build_nas_prefix ''L2'' (pt_channel pt) version (pt_exchange pt) (pt_symbol pt) (pt_date_str pt) of
        Inl x \<Rightarrow> (Inl x, fs, s)
      | Inr nas_prefix \<Rightarrow>
          (case list_objects c nas_prefix s of
             (Inl x, s) \<Rightarrow> (Inr None, fs, s)
           | (Inr keys, s) \<Rightarrow>
               merge_objects c P e (\<lambda>ks. take 16 (hash (bar_join ks))) (filter (\<lambda>k. ends_with k ''.parquet'') keys)
                 (l3_out_dir pt version) (quarantine_l3 (pt_channel pt) (pt_date_str pt)) fs s))"

text \<open>The methods; \<open>source\<close> is the client of the uploader, if there is one.\<close>

definition compact_hour ::
  "'s s3 option \<Rightarrow> pq \<Rightarrow> merge_env \<Rightarrow> (bytes \<Rightarrow> string) \<Rightarrow> partition \<Rightarrow> nat \<Rightarrow> bytes fsys \<Rightarrow> 's
     \<Rightarrow> (py_error + path option) \<times> bytes fsys \<times> 's" where
  "compact_hour source P e hash pt hour fs s =
     (case schema_version (pt_channel pt) of
        Inl x \<Rightarrow> (Inl x, fs, s)
      | Inr version \<Rightarrow>
          (case source of
             Some c \<Rightarrow> compact_hour_nas c P e hash pt version hour fs s
           | None \<Rightarrow> (case compact_hour_local P e hash pt version hour fs of (r, fs) \<Rightarrow> (r, fs, s))))"

definition compact_day ::
  "'s s3 option \<Rightarrow> pq \<Rightarrow> merge_env \<Rightarrow> (bytes \<Rightarrow> string) \<Rightarrow> partition \<Rightarrow> bytes fsys \<Rightarrow> 's
     \<Rightarrow> (py_error + path option) \<times> bytes fsys \<times> 's" where
  "compact_day source P e hash pt fs s =
     (case schema_version (pt_channel pt) of
        Inl x \<Rightarrow> (Inl x, fs, s)
      | Inr version \<Rightarrow>
          (case source of
             Some c \<Rightarrow> compact_day_nas c P e hash pt version fs s
           | None \<Rightarrow> (case compact_day_local P e hash pt version fs of (r, fs) \<Rightarrow> (r, fs, s))))"

section \<open>Order and content of a merge\<close>

lemma scan_ts_Some:
  "scan_ts last_ts rs = Some l \<Longrightarrow>
     sorted (map fst rs) \<and> (case last_ts of None \<Rightarrow> True | Some t \<Rightarrow> \<forall>r\<in>set rs. t \<le> fst r) \<and>
     l = (if rs = [] then last_ts else Some (fst (last rs)))"
proof (induction last_ts rs rule: scan_ts.induct)
  case (2 last_ts r rs)
  then have ok: "\<not> (case last_ts of None \<Rightarrow> False | Some t \<Rightarrow> fst r < t)" and rest: "scan_ts (Some (fst r)) rs = Some l"
    by (auto split: if_splits)
  with 2(1) [OF ok rest] show ?case by (cases last_ts) auto
qed (auto split: option.splits)

text \<open>What has been written so far is in time order, and the last time stamp is its last one.\<close>

definition rows_in_order :: "timestamp option \<Rightarrow> row list \<Rightarrow> bool" where
  "rows_in_order last_ts rows \<longleftrightarrow> sorted (map fst rows) \<and> last_ts = (if rows = [] then None else Some (fst (last rows)))"

lemma sorted_le_last:
  fixes f :: "'a \<Rightarrow> 'b::linorder"
  shows "sorted (map f xs) \<Longrightarrow> x \<in> set xs \<Longrightarrow> f x \<le> f (last xs)"
  by (induction xs) auto

lemma in_order_append:
  assumes "rows_in_order last_ts rows" "scan_ts last_ts b = Some l"
  shows "rows_in_order l (rows @ b)"
proof -
  have b: "sorted (map fst b)" "case last_ts of None \<Rightarrow> True | Some t \<Rightarrow> \<forall>r\<in>set b. t \<le> fst r"
      "l = (if b = [] then last_ts else Some (fst (last b)))"
    using scan_ts_Some [OF assms(2)] by auto
  have "fst x \<le> fst y" if "x \<in> set rows" "y \<in> set b" for x y
  proof -
    from that(1) have ne: "rows \<noteq> []" by auto
    then have "fst (last rows) \<le> fst y" using b(2) assms(1) that(2) by (auto simp: rows_in_order_def)
    moreover have "fst x \<le> fst (last rows)"
      using assms(1) that(1) by (intro sorted_le_last) (auto simp: rows_in_order_def)
    ultimately show ?thesis by simp
  qed
  then show ?thesis using b assms(1) by (auto simp: rows_in_order_def sorted_append)
qed

lemma write_batches_done:
  assumes "write_batches schema fs bs last_ts acc = Inr (False, l, acc')" "rows_in_order last_ts (concat acc)"
  shows "rows_in_order l (concat acc') \<and> concat acc' = concat acc @ concat bs \<and> (bs \<noteq> [] \<longrightarrow> fs = schema)"
  using assms
proof (induction schema fs bs last_ts acc rule: write_batches.induct)
  case (2 schema fs b bs last_ts acc)
  from 2(2) obtain l1 where s: "scan_ts last_ts b = Some l1" "''ts_utc'' \<in> set fs" "fs = schema"
    and rest: "write_batches schema fs bs l1 (acc @ [b]) = Inr (False, l, acc')"
    by (auto split: if_splits option.splits)
  have "rows_in_order l1 (concat (acc @ [b]))" using in_order_append [OF 2(3) s(1)] by simp
  from 2(1) [OF _ s(1) _ rest this] s show ?case by auto
qed simp

lemma and_then_cases:
  assumes "and_then r f = (y, t)"
  obtains (stop) e where "r = (Inl e, t)" "y = Inl e" | (go) x s where "r = (Inr x, s)" "f x s = (y, t)"
  using assms by (cases r; cases "fst r") auto

text \<open>
  A source of bytes: fetching keeps an invariant and the content, and returns it. The merge is proved for any such source; the local disk and
  the cached object store are the two the code uses.
\<close>

locale tier_source =
  fixes fetch :: "'k \<Rightarrow> 'w \<Rightarrow> (py_error + bytes) \<times> 'w"
    and content :: "'w \<Rightarrow> 'k \<Rightarrow> bytes option"
    and ok :: "'w \<Rightarrow> bool"
  assumes fetch_keeps: "ok w \<Longrightarrow> fetch k w = (r, w') \<Longrightarrow> ok w' \<and> content w' = content w"
    and fetch_content: "ok w \<Longrightarrow> fetch k w = (Inr d, w') \<Longrightarrow> content w k = Some d"
begin

definition opens :: "pq \<Rightarrow> 'w \<Rightarrow> 'k \<Rightarrow> pfile \<Rightarrow> bool" where
  "opens P w k pf \<longleftrightarrow> (\<exists>d. content w k = Some d \<and> pq_open P d = Inr pf)"

lemma opens_cong: "content w' = content w \<Longrightarrow> opens P w' = opens P w"
  by (auto simp: opens_def fun_eq_iff)

lemma merge_done:
  assumes "ok w" "merge_sources P fetch schema ks last_ts acc w = (Inr (False, bs), w')" "rows_in_order last_ts (concat acc)"
  shows "ok w' \<and> content w' = content w \<and>
         (\<exists>pfs. list_all2 (opens P w) ks pfs \<and> concat bs = concat acc @ concat (map pf_rows pfs) \<and> sorted (map fst (concat bs)) \<and>
            (\<forall>pf\<in>set pfs. pf_rows pf \<noteq> [] \<longrightarrow> pf_schema pf = schema))"
  using assms
proof (induction ks arbitrary: last_ts acc w)
  case (Cons k ks)
  from Cons.prems(2) obtain d w1 where f: "fetch k w = (Inr d, w1)"
    by (auto elim!: and_then_cases)
  have keeps: "ok w1" "content w1 = content w" using fetch_keeps [OF Cons.prems(1) f] by auto
  have c: "content w k = Some d" by (rule fetch_content [OF Cons.prems(1) f])
  from Cons.prems(2) f obtain pf l1 acc1 where o: "pq_open P d = Inr pf"
    and wb: "write_batches schema (pf_schema pf) (pf_batches pf) last_ts acc = Inr (False, l1, acc1)"
    and rest: "merge_sources P fetch schema ks l1 acc1 w1 = (Inr (False, bs), w')"
    by (auto split: sum.splits prod.splits if_splits)
  note d = write_batches_done [OF wb Cons.prems(3)]
  have io: "rows_in_order l1 (concat acc1)" using d by blast
  from Cons.IH [OF keeps(1) rest io] obtain pfs where ih: "ok w'" "content w' = content w1" "list_all2 (opens P w1) ks pfs"
      "concat bs = concat acc1 @ concat (map pf_rows pfs)" "sorted (map fst (concat bs))"
      "\<forall>pf\<in>set pfs. pf_rows pf \<noteq> [] \<longrightarrow> pf_schema pf = schema" by blast
  have "list_all2 (opens P w) (k # ks) (pf # pfs)" using ih(3) c o opens_cong [OF keeps(2)] by (auto simp: opens_def)
  moreover have "pf_rows pf \<noteq> [] \<longrightarrow> pf_schema pf = schema" using d by (auto simp: pf_rows_def)
  moreover have "concat bs = concat acc @ concat (map pf_rows (pf # pfs))" using ih(4) d by (simp add: pf_rows_def [of pf])
  ultimately show ?case using ih(1,2,5,6) keeps(2) by (intro conjI exI [of _ "pf # pfs"]) auto
qed (auto simp: rows_in_order_def)

lemma merge_keeps:
  "ok w \<Longrightarrow> merge_sources P fetch schema ks last_ts acc w = (r, w') \<Longrightarrow> ok w' \<and> content w' = content w"
proof (induction ks arbitrary: last_ts acc w)
  case (Cons k ks)
  obtain o' w1 where f: "fetch k w = (o', w1)" by fastforce
  have keeps: "ok w1" "content w1 = content w" using fetch_keeps [OF Cons.prems(1) f] by auto
  show ?case
  proof (cases o')
    case (Inr d)
    with Cons.prems(2) f keeps Cons.IH [OF keeps(1)] show ?thesis by (auto split: sum.splits prod.splits if_splits)
  qed (use Cons.prems(2) f keeps in auto)
qed auto

text \<open>The candidates that have rows, with the least time stamp of each.\<close>

lemma keyed_done:
  assumes "pq_laws P" "ok w" "keyed P fetch ks w = (Inr kts, w')"
  shows "ok w' \<and> content w' = content w \<and>
         (\<exists>pfs. list_all2 (opens P w) ks pfs \<and> map fst kts = map fst (filter (\<lambda>(k, pf). pf_rows pf \<noteq> []) (zip ks pfs)))"
  using assms(2,3)
proof (induction ks arbitrary: w kts)
  case (Cons k ks)
  from Cons.prems(2) obtain d w1 where f: "fetch k w = (Inr d, w1)" by (auto elim!: and_then_cases)
  have keeps: "ok w1" "content w1 = content w" using fetch_keeps [OF Cons.prems(1) f] by auto
  have c: "content w k = Some d" by (rule fetch_content [OF Cons.prems(1) f])
  from Cons.prems(2) f obtain ts rest w2 where m: "extract_min_ts P d = Inr ts" and r: "keyed P fetch ks w1 = (Inr rest, w')"
    and kts: "kts = (case ts of None \<Rightarrow> rest | Some t \<Rightarrow> (k, t) # rest)"
    by (auto split: sum.splits elim!: and_then_cases)
  from m obtain pf where o: "pq_open P d = Inr pf" and ts: "ts = None \<longleftrightarrow> pf_rows pf = []"
    by (auto simp: extract_min_ts_def Let_def split: sum.splits if_splits)
  from Cons.IH [OF keeps(1) r] obtain pfs where ih: "ok w'" "content w' = content w1" "list_all2 (opens P w1) ks pfs"
      "map fst rest = map fst (filter (\<lambda>(k, pf). pf_rows pf \<noteq> []) (zip ks pfs))" by blast
  have "list_all2 (opens P w) (k # ks) (pf # pfs)" using ih(3) c o opens_cong [OF keeps(2)] by (auto simp: opens_def)
  then show ?case using ih keeps kts ts by (intro conjI exI [of _ "pf # pfs"]) (auto split: option.splits)
qed auto

text \<open>The rows of a source, and those of a list of sources in the order of a merge.\<close>

definition rows_of :: "pq \<Rightarrow> 'w \<Rightarrow> 'k \<Rightarrow> row list" where
  "rows_of P w k =
     (case content w k of None \<Rightarrow> [] | Some d \<Rightarrow> (case pq_open P d of Inl e \<Rightarrow> [] | Inr pf \<Rightarrow> pf_rows pf))"

lemma rows_opens: "list_all2 (opens P w) ks pfs \<Longrightarrow> map pf_rows pfs = map (rows_of P w) ks"
  by (induction rule: list_all2_induct) (auto simp: opens_def rows_of_def)

lemma rows_cong: "content w' = content w \<Longrightarrow> rows_of P w' = rows_of P w"
  by (auto simp: rows_of_def fun_eq_iff)

lemma keyed_nonempty:
  assumes "pq_laws P" "ok w" "keyed P fetch ks w = (Inr kts, w')"
  shows "ok w' \<and> content w' = content w \<and> map fst kts = filter (\<lambda>k. rows_of P w k \<noteq> []) ks"
proof -
  have "map fst (filter (\<lambda>(k, pf). pf_rows pf \<noteq> []) (zip ks pfs)) = filter (\<lambda>k. rows_of P w k \<noteq> []) ks"
    if "list_all2 (opens P w) ks pfs" for pfs
    using that by (induction rule: list_all2_induct) (auto simp: opens_def rows_of_def)
  with keyed_done [OF assms] show ?thesis by auto
qed

lemma merge_tier_done:
  assumes "pq_laws P" "ok w" "merge_tier P fetch e run_id candidates out_dir quarantine fs w = (Inr (Some out), fs', w')"
  obtains ks schema bs where "mset ks = mset (filter (\<lambda>k. rows_of P w k \<noteq> []) candidates)" "ks \<noteq> []"
    "out = out_path (run_id ks) out_dir"
    "fs' = fs_replace (tmp_path e out_dir) out (fs_put (tmp_path e out_dir) (pq_write P schema bs) fs)"
    "concat bs = concat (map (rows_of P w) ks)" "sorted (map fst (concat bs))" "content w' = content w" "ok w'"
proof -
  from assms(3) obtain kts w1 where k: "keyed P fetch candidates w = (Inr kts, w1)"
    by (auto simp: merge_tier_def split: prod.splits sum.splits)
  define ks where "ks = map fst (sort_key snd kts)"
  note k1 = keyed_nonempty [OF assms(1,2) k]
  have "mset ks = mset (map fst kts)" by (simp add: ks_def)
  then have ms: "mset ks = mset (filter (\<lambda>k. rows_of P w k \<noteq> []) candidates)" using k1 by simp
  from assms(3) k have ne: "ks \<noteq> []" by (auto simp: merge_tier_def Let_def ks_def split: if_splits)
  obtain r w2 where r: "fetch (hd ks) w1 = (r, w2)" by fastforce
  from assms(3) k ne r obtain d where d: "r = Inr d"
    by (cases r) (auto simp: merge_tier_def Let_def ks_def [symmetric])
  from assms(3) k ne r d obtain pf where pf: "pq_open P d = Inr pf"
    by (cases "pq_open P d") (auto simp: merge_tier_def Let_def ks_def [symmetric])
  have f: "fetch (hd ks) w1 = (Inr d, w2)" using r d by simp
  have wm: "write_merged P fetch e (pf_schema pf) ks out_dir (run_id ks) quarantine fs w2 = (Inr (Some out), fs', w')"
    using assms(3) k ne f pf by (simp add: merge_tier_def Let_def ks_def [symmetric])
  have w2: "ok w2" "content w2 = content w" using fetch_keeps [OF _ f] k1 by auto
  from wm obtain bs where m: "merge_sources P fetch (pf_schema pf) ks None [] w2 = (Inr (False, bs), w')"
    and out: "out = out_path (run_id ks) out_dir"
      "fs' = fs_replace (tmp_path e out_dir) out (fs_put (tmp_path e out_dir) (pq_write P (pf_schema pf) bs) fs)"
    by (auto simp: write_merged_def Let_def split: prod.splits sum.splits if_splits)
  from merge_done [OF w2(1) m] obtain pfs where "ok w'" "content w' = content w2" "list_all2 (opens P w2) ks pfs"
      "concat bs = concat (map pf_rows pfs)" "sorted (map fst (concat bs))" by (auto simp: rows_in_order_def)
  with that [OF ms ne out] rows_opens [of P w2 ks pfs] rows_cong [OF w2(2)] w2 show ?thesis by simp
qed

text \<open>Two sources with the same rows, not all of one time, cannot both be in a merge.\<close>

lemma duplicate_breaks_order:
  assumes "sorted (map fst (concat (map f ks)))" "set (f a) = set (f b)"
    and "{a, b} \<subseteq> set ks" "a \<noteq> b"
  shows "\<forall>x\<in>set (f a). \<forall>y\<in>set (f a). fst x \<le> fst y"
proof -
  have "\<exists>xs u ys v zs. ks = xs @ u # ys @ v # zs \<and> {u, v} = {a, b}"
  proof -
    from assms(3) obtain xs zs where "ks = xs @ a # zs" by (meson insert_subset split_list)
    with assms(3,4) consider "b \<in> set xs" | "b \<in> set zs" by auto
    then show ?thesis
    proof cases
      case 1
      then obtain p q where "xs = p @ b # q" by (meson split_list)
      with \<open>ks = xs @ a # zs\<close> show ?thesis by (intro exI [of _ p] exI [of _ b] exI [of _ q] exI [of _ a] exI [of _ zs]) auto
    next
      case 2
      then obtain p q where "zs = p @ b # q" by (meson split_list)
      with \<open>ks = xs @ a # zs\<close> show ?thesis by (intro exI [of _ xs] exI [of _ a] exI [of _ p] exI [of _ b] exI [of _ q]) auto
    qed
  qed
  then obtain xs u ys v zs where s: "ks = xs @ u # ys @ v # zs" "{u, v} = {a, b}" by blast
  have "set (f u) = set (f a)" "set (f v) = set (f a)" using s(2) assms(2) by (auto simp: doubleton_eq_iff)
  with assms(1) s(1) show ?thesis by (auto simp: sorted_append)
qed

lemma merge_tier_mset:
  assumes "pq_laws P" "ok w" "merge_tier P fetch e run_id candidates out_dir quarantine fs w = (Inr (Some out), fs', w')"
  shows "\<exists>d pf. fs_get fs' out = Some d \<and> pq_open P d = Inr pf \<and> sorted (map fst (pf_rows pf)) \<and>
           mset (pf_rows pf) = (\<Sum>k\<leftarrow>candidates. mset (rows_of P w k)) \<and> pf_rows pf \<noteq> [] \<and>
           (\<forall>p. p \<noteq> out \<and> p \<noteq> tmp_path e out_dir \<longrightarrow> fs_get fs' p = fs_get fs p) \<and> content w' = content w \<and> ok w' \<and>
           butlast out = out_dir"
proof -
  from merge_tier_done [OF assms] obtain ks schema bs where m: "mset ks = mset (filter (\<lambda>k. rows_of P w k \<noteq> []) candidates)" "ks \<noteq> []"
    "out = out_path (run_id ks) out_dir"
    "fs' = fs_replace (tmp_path e out_dir) out (fs_put (tmp_path e out_dir) (pq_write P schema bs) fs)"
    "concat bs = concat (map (rows_of P w) ks)" "sorted (map fst (concat bs))" "content w' = content w" "ok w'" by blast
  obtain pf where pf: "pq_open P (pq_write P schema bs) = Inr pf" "pf_rows pf = concat bs"
    using assms(1) unfolding pq_laws_def by blast
  have sum: "(\<Sum>k\<leftarrow>xs. mset (rows_of P w k)) = (\<Sum>k\<in>#mset xs. mset (rows_of P w k))" for xs
    by (simp add: sum_mset_sum_list flip: mset_map)
  have "mset (concat bs) = (\<Sum>k\<leftarrow>ks. mset (rows_of P w k))" using m(5) by (simp add: mset_concat o_def)
  also have "\<dots> = (\<Sum>k\<leftarrow>filter (\<lambda>k. rows_of P w k \<noteq> []) candidates. mset (rows_of P w k))" by (simp only: sum m(1))
  also have "\<dots> = (\<Sum>k\<leftarrow>candidates. mset (rows_of P w k))" by (induction candidates) auto
  finally have ms: "mset (concat bs) = (\<Sum>k\<leftarrow>candidates. mset (rows_of P w k))" .
  have "rows_of P w (hd ks) \<noteq> []" using mset_eq_setD [OF m(1)] list.set_sel(1) [OF m(2)] by simp
  then have "concat bs \<noteq> []" using m(2,5) by (cases ks) auto
  moreover have "fs_get fs' p = (if p = out then Some (pq_write P schema bs) else if p = tmp_path e out_dir then None else fs_get fs p)" for p
    unfolding m(4) by (subst fs_get_replace [of _ _ "pq_write P schema bs"]) (simp_all add: fs_get_put)
  ultimately show ?thesis using pf m(3,6,7,8) ms
    by (intro exI [of _ "pq_write P schema bs"] exI [of _ pf]) (auto simp: out_path_def)
qed

text \<open>A day with two sources of the same rows, of at least two times, has no output.\<close>

lemma copies_block_merge:
  assumes "pq_laws P" "ok w" "{a, b} \<subseteq> set candidates" "a \<noteq> b" "set (rows_of P w a) = set (rows_of P w b)"
    and "x \<in> set (rows_of P w a)" "y \<in> set (rows_of P w a)" "fst x < fst y"
  shows "fst (merge_tier P fetch e run_id candidates out_dir quarantine fs w) \<noteq> Inr (Some out)"
proof
  assume "fst (merge_tier P fetch e run_id candidates out_dir quarantine fs w) = Inr (Some out)"
  then obtain fs' w' where "merge_tier P fetch e run_id candidates out_dir quarantine fs w = (Inr (Some out), fs', w')"
    by (metis prod.collapse)
  then obtain ks bs where
    m: "mset ks = mset (filter (\<lambda>k. rows_of P w k \<noteq> []) candidates)" "concat bs = concat (map (rows_of P w) ks)" "sorted (map fst (concat bs))"
    by (rule merge_tier_done [OF assms(1,2)])
  have "set ks = {k \<in> set candidates. rows_of P w k \<noteq> []}" using mset_eq_setD [OF m(1)] by simp
  moreover have "rows_of P w a \<noteq> []" "rows_of P w b \<noteq> []" using assms(5,6) by force+
  ultimately have "{a, b} \<subseteq> set ks" using assms(3) by simp
  then have "\<forall>x\<in>set (rows_of P w a). \<forall>y\<in>set (rows_of P w a). fst x \<le> fst y"
    using duplicate_breaks_order [of "rows_of P w" ks a b] m(2,3) assms(4,5) by simp
  with assms(6,7,8) show False by force
qed

end

interpretation local_source: tier_source fetch_local fs_get "\<lambda>w. True"
  by unfold_locales (auto simp: fetch_local_def split: option.splits)

definition stream_cache_true :: "('s \<Rightarrow> bucket) \<Rightarrow> stream_cache \<times> 's \<Rightarrow> bool" where
  "stream_cache_true v w \<longleftrightarrow> (\<forall>k d. map_of (sc_cache (fst w)) k = Some d \<longrightarrow> map_option ob_body (v (snd w) k) = Some d)"

lemma get_or_fetch_keeps:
  assumes "s3_laws c v" "stream_cache_true v w" "get_or_fetch c th k w = (r, w')"
  shows "stream_cache_true v w' \<and> v (snd w') = v (snd w) \<and> (\<forall>d. r = Inr d \<longrightarrow> map_option ob_body (v (snd w) k) = Some d)"
proof (cases "map_of (sc_cache (fst w)) k")
  case (Some d)
  with assms(2,3) show ?thesis by (cases w) (auto simp: get_or_fetch_def stream_cache_true_def)
next
  case None
  obtain r1 s1 where g: "s3_get c k (snd w) = (r1, s1)" by fastforce
  have view: "v s1 = v (snd w)" by (rule get_view [OF assms(1) g])
  show ?thesis
  proof (cases r1)
    case (Inl e)
    with None g view assms(2,3) show ?thesis by (cases w) (auto simp: get_or_fetch_def get_streaming_def stream_cache_true_def)
  next
    case (Inr b)
    from get_body [OF assms(1) g [unfolded Inr]] obtain ob where "v (snd w) k = Some ob" "b = (ob_body ob, ob_etag ob)" by blast
    with None g view Inr assms(2,3) show ?thesis
      by (cases w) (auto simp: get_or_fetch_def get_streaming_def stream_cache_true_def map_of_update_Some split: if_splits)
  qed
qed

interpretation nas_source: tier_source "get_or_fetch c th" "\<lambda>w k. map_option ob_body (v (snd w) k)" "\<lambda>w. s3_laws c v \<and> stream_cache_true v w \<and> v (snd w) = b"
proof unfold_locales
  fix k r w' and w :: "stream_cache \<times> 'a"
  assume a: "s3_laws c v \<and> stream_cache_true v w \<and> v (snd w) = b" "get_or_fetch c th k w = (r, w')"
  from get_or_fetch_keeps [of c v, OF _ _ a(2)] a(1)
  show "(s3_laws c v \<and> stream_cache_true v w' \<and> v (snd w') = b) \<and> (\<lambda>k. map_option ob_body (v (snd w') k)) = (\<lambda>k. map_option ob_body (v (snd w) k))" by simp
next
  fix k d w' and w :: "stream_cache \<times> 'a"
  assume a: "s3_laws c v \<and> stream_cache_true v w \<and> v (snd w) = b" "get_or_fetch c th k w = (Inr d, w')"
  from get_or_fetch_keeps [of c v, OF _ _ a(2)] a(1) show "map_option ob_body (v (snd w) k) = Some d" by simp
qed

section \<open>The sources of a day\<close>

definition object_rows :: "pq \<Rightarrow> bucket \<Rightarrow> string \<Rightarrow> row list" where
  "object_rows P b k =
     (case b k of None \<Rightarrow> [] | Some ob \<Rightarrow> (case pq_open P (ob_body ob) of Inl e \<Rightarrow> [] | Inr pf \<Rightarrow> pf_rows pf))"

lemma nas_rows: "nas_source.rows_of v P w k = object_rows P (v (snd w)) k"
  by (auto simp: nas_source.rows_of_def object_rows_def split: option.splits)

definition l1_prefix :: "partition \<Rightarrow> string \<Rightarrow> string" where
  "l1_prefix pt version = partition_prefix ''L1'' (pt_channel pt) version (pt_exchange pt) (pt_symbol pt) (pt_date_str pt)"

text \<open>The L1 objects of a day: flat ones, and legacy ones whose flat form is absent.\<close>

definition day_keys :: "bucket \<Rightarrow> partition \<Rightarrow> string \<Rightarrow> string set" where
  "day_keys b pt version =
     {k. b k \<noteq> None \<and> ends_with k ''.parquet'' \<and>
         (starts_with k (l1_prefix pt version) \<or> (\<exists>q. k = ''l1/'' @ q \<and> starts_with q (l1_prefix pt version) \<and> b q = None))}"

lemma canonical_legacy [simp]: "legacy_key_to_canonical (CHR ''l'' # CHR ''1'' # CHR ''/'' # q) = q"
  using removeprefix_append [of "''l1/''" q] by (simp add: legacy_key_to_canonical_def)

lemma canonical_flat: "starts_with k (l1_prefix pt version) \<Longrightarrow> legacy_key_to_canonical k = k"
  by (auto simp: legacy_key_to_canonical_def removeprefix_def starts_with_iff l1_prefix_def partition_prefix_def)

lemma ends_with_legacy:
  assumes "starts_with q (l1_prefix pt version)"
  shows "ends_with (''l1/'' @ q) ''.parquet'' \<longleftrightarrow> ends_with q ''.parquet''"
proof -
  have "8 \<le> length q" using assms by (auto simp: starts_with_iff l1_prefix_def partition_prefix_def)
  then have "ends_with (xs @ q) ''.parquet'' \<longleftrightarrow> ends_with q ''.parquet''" for xs by (simp add: ends_with_def eval_nat_numeral)
  then show ?thesis by blast
qed

lemma day_keys_listed:
  assumes "set flat = {k. b k \<noteq> None \<and> starts_with k (l1_prefix pt version)}"
    and "set legacy = {k. b k \<noteq> None \<and> starts_with k (''l1/'' @ l1_prefix pt version)}"
  shows "set (parquet_keys flat) \<union> {k \<in> set (parquet_keys legacy). legacy_key_to_canonical k \<notin> set (parquet_keys flat)} = day_keys b pt version"
proof -
  have leg: "starts_with k (''l1/'' @ l1_prefix pt version) \<longleftrightarrow> (\<exists>q. k = ''l1/'' @ q \<and> starts_with q (l1_prefix pt version))" for k
    by (auto simp: starts_with_iff)
  have "legacy_key_to_canonical k \<notin> set (parquet_keys flat) \<longleftrightarrow> b q = None"
    if "k = ''l1/'' @ q" "starts_with q (l1_prefix pt version)" "ends_with k ''.parquet''" for k q
    using that ends_with_legacy [OF that(2)] assms(1) by (auto simp: parquet_keys_def)
  then show ?thesis unfolding day_keys_def parquet_keys_def set_sort set_filter assms leg by blast
qed

lemma flat_fold:
  "map_of (fold (\<lambda>k m. AList.update k k m) ks m) q = (if q \<in> set ks then Some q else map_of m q)"
  by (induction ks arbitrary: m) (auto simp: map_of_update_Some)

lemma legacy_fold:
  assumes "\<forall>k\<in>set ks. \<exists>q. k = ''l1/'' @ q"
  shows "map_of (fold (\<lambda>k m. if map_of m (legacy_key_to_canonical k) = None then AList.update (legacy_key_to_canonical k) k m else m) ks m) q =
     (case map_of m q of Some k \<Rightarrow> Some k | None \<Rightarrow> if ''l1/'' @ q \<in> set ks then Some (''l1/'' @ q) else None)"
  using assms
proof (induction ks arbitrary: m)
  case (Cons k ks)
  then obtain q' where k: "k = ''l1/'' @ q'" by auto
  have rest: "\<forall>k\<in>set ks. \<exists>q. k = ''l1/'' @ q" using Cons.prems by simp
  show ?case using k by (simp only: fold.simps o_apply Cons.IH [OF rest]) (auto simp: map_of_update_Some split: option.splits)
qed (simp split: option.splits)

lemma fold_distinct:
  "distinct (map fst m) \<Longrightarrow>
   distinct (map fst (fold (\<lambda>k m. if b k m then AList.update (f k) k m else m) ks m))"
  by (induction ks arbitrary: m) (auto simp: distinct_update)

lemma canonical_map_values:
  assumes "\<forall>k\<in>set fl. starts_with k (l1_prefix pt version)" "\<forall>k\<in>set lg. \<exists>q. k = ''l1/'' @ q \<and> starts_with q (l1_prefix pt version)"
  shows "distinct (map snd (canonical_map fl lg))"
    "set (map snd (canonical_map fl lg)) = set fl \<union> {k \<in> set lg. legacy_key_to_canonical k \<notin> set fl}"
proof -
  let ?m = "canonical_map fl lg"
  have dom: "map_of ?m q = (if q \<in> set fl then Some q else if ''l1/'' @ q \<in> set lg then Some (''l1/'' @ q) else None)" for q
  proof -
    have "\<forall>k\<in>set lg. \<exists>q. k = ''l1/'' @ q" using assms(2) by blast
    then show ?thesis unfolding canonical_map_def by (subst legacy_fold) (auto simp: flat_fold split: option.splits)
  qed
  have "distinct (map fst (fold (\<lambda>k m. AList.update k k m) fl []))"
    using fold_distinct [of "[]" "\<lambda>k m. True" "\<lambda>k. k" fl] by simp
  then have df: "distinct (map fst ?m)" unfolding canonical_map_def by (rule fold_distinct)
  have canon: "legacy_key_to_canonical k = q" if "(q, k) \<in> set ?m" for q k
  proof -
    have "map_of ?m q = Some k" using that df by simp
    then show ?thesis using dom [of q] assms(1) canonical_flat by (auto split: if_splits)
  qed
  have "map legacy_key_to_canonical (map snd ?m) = map fst ?m" using canon by auto
  with df show "distinct (map snd ?m)" by (metis distinct_map)
  show "set (map snd ?m) = set fl \<union> {k \<in> set lg. legacy_key_to_canonical k \<notin> set fl}"
  proof (intro set_eqI iffI)
    fix k assume "k \<in> set (map snd ?m)"
    then obtain q where "map_of ?m q = Some k" using df by auto
    then show "k \<in> set fl \<union> {k \<in> set lg. legacy_key_to_canonical k \<notin> set fl}" using dom [of q] by (auto split: if_splits)
  next
    fix k assume k: "k \<in> set fl \<union> {k \<in> set lg. legacy_key_to_canonical k \<notin> set fl}"
    have "\<exists>q. map_of ?m q = Some k"
    proof (cases "k \<in> set fl")
      case False
      with k assms(2) obtain q where "k = ''l1/'' @ q" "q \<notin> set fl" "k \<in> set lg" by fastforce
      then show ?thesis using dom [of q] by auto
    qed (use dom [of k] in auto)
    then show "k \<in> set (map snd ?m)" by (auto dest: map_of_SomeD intro: rev_image_eqI)
  qed
qed

section \<open>Local partitions\<close>

abbreviation below :: "path \<Rightarrow> path \<Rightarrow> bool" where
  "below dir p \<equiv> take (length dir) p = dir"

lemma filter_update: "\<not> Q p \<Longrightarrow> filter Q (map fst (AList.update p f fs)) = filter Q (map fst fs)"
  by (induction fs) auto

lemma filter_delete: "\<not> Q p \<Longrightarrow> filter Q (map fst (AList.delete p fs)) = filter Q (map fst fs)"
  by (induction fs) (auto simp: AList.delete_eq)

lemma rglob_parts_other:
  assumes "\<not> below dir p"
  shows "rglob_parts dir (fs_put p f fs) = rglob_parts dir fs" "rglob_parts dir (fs_del p fs) = rglob_parts dir fs"
  using assms by (simp_all add: rglob_parts_def fs_put_def fs_del_def filter_update filter_delete flip: remdups_filter)

lemma rglob_parts_replace: "\<not> below dir p \<Longrightarrow> \<not> below dir q \<Longrightarrow> rglob_parts dir (fs_replace p q fs) = rglob_parts dir fs"
  by (auto simp: fs_replace_def rglob_parts_other split: option.splits)

lemma tier_dir_length [simp]: "length (tier_dir pt tier version) = 7"
  by (simp add: tier_dir_def)

lemma l2_not_below_l1:
  "\<not> below (pt_root pt @ tier_dir pt ''L1'' version) (l2_out_dir pt version hour @ xs)"
  by (simp add: l2_out_dir_def tier_dir_def)

lemma l2_below_l2: "below (pt_root pt @ tier_dir pt ''L2'' version) (l2_out_dir pt version hour @ xs)"
  by (simp add: l2_out_dir_def)

lemma l2_out_dir_inj: "h < 100 \<Longrightarrow> h' < 100 \<Longrightarrow> l2_out_dir pt version h = l2_out_dir pt version h' \<longleftrightarrow> h = h'"
  using fixw_inj [of h 2 h'] by (auto simp: l2_out_dir_def)

text \<open>The rows of the local L1 files of the day.\<close>

definition day_rows :: "pq \<Rightarrow> partition \<Rightarrow> string \<Rightarrow> bytes fsys \<Rightarrow> row multiset" where
  "day_rows P pt version fs =
     (\<Sum>p\<leftarrow>rglob_parts (pt_root pt @ tier_dir pt ''L1'' version) fs. mset (local_source.rows_of P fs p))"

lemma compact_hour_local_done:
  assumes "pq_laws P" "compact_hour_local P e hash pt version hour fs = (Inr (Some out), fs')"
  shows "\<exists>d pf. fs_get fs' out = Some d \<and> pq_open P d = Inr pf \<and> sorted (map fst (pf_rows pf)) \<and> mset (pf_rows pf) = day_rows P pt version fs"
    and "butlast out = l2_out_dir pt version hour" "starts_with (path_name out) ''part-'' \<and> ends_with (path_name out) ''.parquet''"
    and "\<forall>p. butlast p \<noteq> l2_out_dir pt version hour \<longrightarrow> fs_get fs' p = fs_get fs p"
    and "day_rows P pt version fs' = day_rows P pt version fs"
proof -
  let ?l1 = "pt_root pt @ tier_dir pt ''L1'' version" and ?o = "l2_out_dir pt version hour"
  from assms(2) obtain w' where m: "merge_tier P fetch_local e (local_run_id hash) (rglob_parts ?l1 fs) ?o (quarantine_l2 (pt_channel pt) (pt_date_str pt)) fs fs
      = (Inr (Some out), fs', w')" by (auto simp: compact_hour_local_def split: prod.splits)
  note s = local_source.merge_tier_mset [OF assms(1) TrueI m]
  then show "\<exists>d pf. fs_get fs' out = Some d \<and> pq_open P d = Inr pf \<and> sorted (map fst (pf_rows pf)) \<and> mset (pf_rows pf) = day_rows P pt version fs"
    unfolding day_rows_def by blast
  show b: "butlast out = ?o" using s by blast
  from local_source.merge_tier_done [OF assms(1) TrueI m] obtain ks schema bs where o: "out = out_path (local_run_id hash ks) ?o"
    and fs': "fs' = fs_replace (tmp_path e ?o) out (fs_put (tmp_path e ?o) (pq_write P schema bs) fs)" by blast
  show "starts_with (path_name out) ''part-'' \<and> ends_with (path_name out) ''.parquet''"
    using o by (simp add: out_path_def starts_with_iff ends_with_iff)
  have oth: "fs_get fs' p = fs_get fs p" if "butlast p \<noteq> ?o" for p
  proof -
    have "p \<noteq> out" "p \<noteq> tmp_path e ?o" using that b by (auto simp: tmp_path_def)
    then show ?thesis using s by blast
  qed
  then show "\<forall>p. butlast p \<noteq> ?o \<longrightarrow> fs_get fs' p = fs_get fs p" by blast
  have nb: "\<not> below ?l1 (tmp_path e ?o)" "\<not> below ?l1 out" using o l2_not_below_l1 by (simp_all add: tmp_path_def out_path_def)
  have g: "rglob_parts ?l1 fs' = rglob_parts ?l1 fs" using fs' nb by (simp add: rglob_parts_replace rglob_parts_other)
  have "local_source.rows_of P fs' p = local_source.rows_of P fs p" if "p \<in> set (rglob_parts ?l1 fs)" for p
  proof -
    have "below ?l1 p" "p \<noteq> []" using that by (auto simp: rglob_parts_def)
    then have "butlast p \<noteq> ?o" using l2_not_below_l1 [of pt version hour "[last p]"] by (metis append_butlast_last_id)
    then show ?thesis using oth by (simp add: local_source.rows_of_def)
  qed
  then show "day_rows P pt version fs' = day_rows P pt version fs" unfolding day_rows_def g by (simp cong: map_cong)
qed

text \<open>
  The place of a file in the quarantine: neither the exchange nor the symbol nor the hour is part of it, so of the files of a day that one
  process sets aside only the last one is kept.
\<close>

lemma quarantine_target:
  "quarantine_l2 channel date (tmp_path e (l2_out_dir pt version hour)) =
     Inr (pt_root pt @ [''market'', channel, ''quarantine'', date, ''monotonic_violation'', ''part-part-tmp-'' @ me_pid e @ ''.parquet''])"
  "quarantine_l3 channel date (tmp_path e (l3_out_dir pt version)) =
     Inr (pt_root pt @ [''market'', channel, ''quarantine'', date, ''monotonic_violation'', ''part-part-tmp-'' @ me_pid e @ ''.parquet''])"
  by (simp_all add: quarantine_l2_def quarantine_l3_def quarantine_path_def tmp_path_def l2_out_dir_def l3_out_dir_def stem_def path_name_def Let_def)

section \<open>A small file format\<close>

text \<open>A format that keeps the promises of the library, to show that they can be kept.\<close>

definition enc_str :: "string \<Rightarrow> string" where
  "enc_str s = concat (map (\<lambda>c. [CHR ''c'', c]) s) @ '';''"

fun toy_dec_str :: "string \<Rightarrow> string \<times> string" where
  "toy_dec_str (m # c # s) = (if m = CHR ''c'' then (case toy_dec_str s of (x, r) \<Rightarrow> (c # x, r)) else ([], c # s))"
| "toy_dec_str s = ([], [])"

definition enc_int :: "int \<Rightarrow> string" where
  "enc_int i = (if i < 0 then ''-'' else ''+'') @ replicate (nat \<bar>i\<bar>) CHR ''1'' @ '';''"

definition dec_int :: "string \<Rightarrow> int \<times> string" where
  "dec_int s =
     (let n = int (length (takeWhile (\<lambda>c. c = CHR ''1'') (tl s)))
      in (if hd s = CHR ''-'' then - n else n, tl (dropWhile (\<lambda>c. c = CHR ''1'') (tl s))))"

definition enc_row :: "row \<Rightarrow> string" where
  "enc_row r = ''r'' @ enc_int (fst r) @ enc_str (snd r)"

primrec dec_rows :: "nat \<Rightarrow> string \<Rightarrow> row list" where
  "dec_rows 0 s = []"
| "dec_rows (Suc n) s = (if s = [] then [] else case dec_int (tl s) of (i, s) \<Rightarrow> case toy_dec_str s of (x, s) \<Rightarrow> (i, x) # dec_rows n s)"

primrec dec_names :: "nat \<Rightarrow> string \<Rightarrow> string list \<times> string" where
  "dec_names 0 s = ([], s)"
| "dec_names (Suc n) s =
     (if s = [] then ([], []) else if hd s = CHR ''s'' then (case toy_dec_str (tl s) of (x, s) \<Rightarrow> case dec_names n s of (xs, s) \<Rightarrow> (x # xs, s)) else ([], tl s))"

definition toy_file :: "string list \<Rightarrow> row list \<Rightarrow> pfile" where
  "toy_file schema rows =
     \<lparr>pf_schema = schema, pf_stats = (if rows = [] then [] else [Some (Min (set (map fst rows)))]), pf_batches = [rows]\<rparr>"

definition toy_pq :: pq where
  "toy_pq =
     \<lparr>pq_open = (\<lambda>d. case dec_names (Suc (length d)) d of (schema, s) \<Rightarrow> Inr (toy_file schema (dec_rows (length s) s))),
      pq_write = (\<lambda>schema bs. concat (map (\<lambda>x. CHR ''s'' # enc_str x) schema) @ ''.'' @ concat (map enc_row (concat bs)))\<rparr>"

lemma dec_enc_str: "toy_dec_str (concat (map (\<lambda>c. [CHR ''c'', c]) s) @ CHR '';'' # r) = (s, r)"
proof (induction s)
  case Nil
  show ?case by (cases r) auto
qed auto

lemma dec_str_enc: "toy_dec_str (enc_str s @ r) = (s, r)"
  by (simp add: enc_str_def dec_enc_str)

lemma dec_int_enc: "dec_int (enc_int i @ r) = (i, r)"
proof -
  have "takeWhile (\<lambda>c. c = CHR ''1'') (replicate n CHR ''1'' @ CHR '';'' # r) = replicate n CHR ''1''"
    "dropWhile (\<lambda>c. c = CHR ''1'') (replicate n CHR ''1'' @ CHR '';'' # r) = CHR '';'' # r" for n
    by (induction n) auto
  then show ?thesis by (auto simp: enc_int_def dec_int_def Let_def)
qed

lemma dec_rows_enc: "length rs \<le> n \<Longrightarrow> dec_rows n (concat (map enc_row rs)) = rs"
proof (induction rs arbitrary: n)
  case Nil
  show ?case by (cases n) auto
next
  case (Cons r rs)
  then obtain m where "n = Suc m" "length rs \<le> m" by (cases n) auto
  with Cons.IH show ?case by (simp add: enc_row_def dec_int_enc dec_str_enc)
qed

lemma dec_names_enc: "length xs < n \<Longrightarrow> dec_names n (concat (map (\<lambda>x. CHR ''s'' # enc_str x) xs) @ CHR ''.'' # r) = (xs, r)"
proof (induction xs arbitrary: n)
  case Nil
  then show ?case by (cases n) auto
next
  case (Cons x xs)
  then obtain m where "n = Suc m" "length xs < m" by (cases n) auto
  with Cons.IH show ?case by (simp add: dec_str_enc)
qed

lemma toy_laws: "pq_laws toy_pq"
proof -
  have len: "length rs \<le> length (concat (map enc_row rs))" for rs by (induction rs) (auto simp: enc_row_def)
  have len': "length xs \<le> length (concat (map (\<lambda>x. CHR ''s'' # enc_str x) xs))" for xs by (induction xs) auto
  have "pq_open toy_pq (pq_write toy_pq schema bs) = Inr (toy_file schema (concat bs))" for schema bs
    using len [of "concat bs"] len' [of schema] by (simp add: toy_pq_def dec_names_enc dec_rows_enc le_imp_less_Suc del: dec_names.simps dec_rows.simps)
  moreover have "pf_schema (toy_file schema rows) = schema" "pf_rows (toy_file schema rows) = rows" for schema rows
    by (simp_all add: toy_file_def pf_rows_def)
  moreover have "stats_true pf" if "pq_open toy_pq d = Inr pf" for d pf
  proof -
    have "stats_true (toy_file schema rows)" for schema rows by (simp add: stats_true_def toy_file_def pf_rows_def)
    then show ?thesis using that by (auto simp: toy_pq_def simp del: dec_names.simps dec_rows.simps split: prod.splits)
  qed
  ultimately show ?thesis unfolding pq_laws_def by blast
qed

definition example_day :: "partition" where
  "example_day = \<lparr>pt_root = [], pt_exchange = ''u'', pt_symbol = ''B'', pt_channel = ''transaction'', pt_date = -719162\<rparr>"

definition example_merge_env :: merge_env where
  "example_merge_env = \<lparr>me_pid = ''1'', me_disk_ok = True\<rparr>"

definition example_l1_file :: bytes where
  "example_l1_file = pq_write toy_pq [''ts_utc''] [[(1, ''a''), (2, ''b'')]]"

definition example_l1_store :: mem where
  "example_l1_store =
     \<lparr>m_up = True,
      m_objects = [(l1_prefix example_day ''tick.v1'' @ ''part-a.parquet'',
                    \<lparr>ob_body = example_l1_file, ob_sha256 = None, ob_etag = ''e'', ob_version = None\<rparr>)]\<rparr>"

definition example_l1_files :: "bytes fsys" where
  "example_l1_files = [(tier_dir example_day ''L1'' ''tick.v1'' @ [''part-a.parquet''], example_l1_file)]"

definition example_hour :: "nat \<Rightarrow> bytes fsys \<Rightarrow> (py_error + path option) \<times> bytes fsys \<times> unit" where
  "example_hour h fs = compact_hour None toy_pq example_merge_env id example_day h fs ()"

section \<open>Properties\<close>

text \<open>
  C39. A merge of stored L1 objects changes no object and writes one file, in time order, with every row of the objects of the partition
  exactly once, a legacy object counting only where its flat form is absent. These are the objects of the whole day: the hour decides the
  directory of the output, and nothing of its content.
\<close>

theorem l2_holds_whole_day:
  assumes "pq_laws P" "s3_laws c view" "compact_hour (Some c) P e hash pt hour fs s = (Inr (Some out), fs', s')"
  shows "view s' = view s \<and>
    (\<exists>version d pf. schema_version (pt_channel pt) = Inr version \<and> butlast out = l2_out_dir pt version hour \<and>
       fs_get fs' out = Some d \<and> pq_open P d = Inr pf \<and> sorted (map fst (pf_rows pf)) \<and>
       mset (pf_rows pf) = (\<Sum>k\<in>day_keys (view s) pt version. mset (object_rows P (view s) k)))"
proof -
  from assms(3) obtain version where v: "schema_version (pt_channel pt) = Inr version"
    and n: "compact_hour_nas c P e hash pt version hour fs s = (Inr (Some out), fs', s')"
    by (auto simp: compact_hour_def split: sum.splits)
  let ?F = "l1_prefix pt version"
  from n have ne: "[] \<notin> set [pt_channel pt, version, pt_exchange pt, pt_symbol pt, pt_date_str pt]"
    by (auto simp: compact_hour_nas_def build_l1_prefix_def split: if_splits)
  have pre: "build_l1_prefix (pt_channel pt) version (pt_exchange pt) (pt_symbol pt) (pt_date_str pt) = Inr ?F"
      "build_legacy_l1_prefix (pt_channel pt) version (pt_exchange pt) (pt_symbol pt) (pt_date_str pt) = Inr (''l1/'' @ ?F)"
    using ne unfolding build_l1_prefix_def build_legacy_l1_prefix_def l1_prefix_def by simp_all
  obtain r1 s1 where l1: "list_objects c ?F s = (r1, s1)" by fastforce
  from n pre l1 obtain flat where r1: "r1 = Inr flat" by (cases r1) (auto simp: compact_hour_nas_def)
  obtain r2 s2 where l2: "list_objects c (''l1/'' @ ?F) s1 = (r2, s2)" by fastforce
  from n pre l1 r1 l2 obtain legacy where r2: "r2 = Inr legacy" by (cases r2) (auto simp: compact_hour_nas_def)
  let ?fl = "parquet_keys flat" and ?lg = "parquet_keys legacy"
  let ?ks = "sort (map snd (canonical_map ?fl ?lg))"
  from n pre l1 r1 l2 r2 obtain sc where m: "merge_tier P (get_or_fetch c DEFAULT_THRESHOLD) e (canonical_run_id hash) ?ks
      (l2_out_dir pt version hour) (quarantine_l2 (pt_channel pt) (pt_date_str pt)) fs (stream_cache_init, s2) = (Inr (Some out), fs', sc, s')"
    by (auto simp: compact_hour_nas_def merge_objects_def split: prod.splits)
  have view: "view s1 = view s" "view s2 = view s"
    using list_objects_view [OF assms(2) l1] list_objects_view [OF assms(2) l2] by auto
  have keys: "set flat = {k. view s k \<noteq> None \<and> starts_with k ?F}" "set legacy = {k. view s k \<noteq> None \<and> starts_with k (''l1/'' @ ?F)}"
    using list_objects_keys [OF assms(2) l1 [unfolded r1]] list_objects_keys [OF assms(2) l2 [unfolded r2]] view by auto
  have fl: "\<forall>k\<in>set ?fl. starts_with k ?F" and lg: "\<forall>k\<in>set ?lg. \<exists>q. k = ''l1/'' @ q \<and> starts_with q ?F"
    using keys by (auto simp: parquet_keys_def starts_with_iff)
  have "set ?ks = day_keys (view s) pt version"
    using canonical_map_values(2) [OF fl lg] day_keys_listed [OF keys] by simp
  moreover have "distinct ?ks" using canonical_map_values(1) [OF fl lg] by simp
  ultimately have "(\<Sum>k\<leftarrow>?ks. mset (object_rows P (view s) k)) = (\<Sum>k\<in>day_keys (view s) pt version. mset (object_rows P (view s) k))"
    by (simp only: sum_list_distinct_conv_sum_set)
  moreover have ok: "s3_laws c view \<and> stream_cache_true view (stream_cache_init, s2) \<and> view (snd (stream_cache_init, s2)) = view s"
    using assms(2) view by (simp add: stream_cache_true_def stream_cache_init_def)
  ultimately show ?thesis
    using nas_source.merge_tier_mset [OF assms(1) ok m] view v by (auto simp: nas_rows)
qed

theorem l2_holds_whole_day_witness:
  "\<exists>out fs' s' pf. compact_hour (Some mem_s3) toy_pq example_merge_env id example_day 5 [] example_l1_store = (Inr (Some out), fs', s') \<and>
     mem_view s' = mem_view example_l1_store \<and> pq_open toy_pq (the (fs_get fs' out)) = Inr pf \<and> sorted (map fst (pf_rows pf))"
proof -
  obtain r fs' s' where run: "compact_hour (Some mem_s3) toy_pq example_merge_env id example_day 5 [] example_l1_store = (r, fs', s')"
    by (metis prod_cases3)
  have "(case fst (compact_hour (Some mem_s3) toy_pq example_merge_env id example_day 5 [] example_l1_store) of Inr (Some out) \<Rightarrow> True | _ \<Rightarrow> False)"
    by code_simp
  with run obtain out where r: "r = Inr (Some out)" by (auto split: sum.splits option.splits)
  from l2_holds_whole_day [OF toy_laws mem_laws run [unfolded r]] run r show ?thesis by fastforce
qed



end
