(* ===== verification/JsonDecode.thy ===== *)
theory JsonDecode
  imports NdjsonCodec
begin

text \<open>
  \<^verbatim>\<open>wal/ndjson_codec.py\<close>, decoding side, and \<^verbatim>\<open>L1Compactor._read_ndjson\<close>: a line of the log is parsed by \<^verbatim>\<open>json.loads\<close> with
  \<^verbatim>\<open>parse_float=Decimal\<close>. The parser of the standard library is written out as recursive descent: blanks, escapes, the number
  grammar, literals, lists and objects, in which a repeated key keeps its place and takes the last value. As in the encoder, characters are
  code points below 256, so an escape above that is outside the model. The literals \<^verbatim>\<open>NaN\<close> and \<^verbatim>\<open>Infinity\<close> are the non-finite number.

  Parsing what the encoder printed gives the record back, up to the type of a number without fraction and of a date.
  The fuel of the parser is twice the length of the text; the theorem is about this value.
\<close>

section \<open>Model\<close>

definition is_ws :: "char \<Rightarrow> bool" where
  "is_ws c \<longleftrightarrow> c = CHR '' '' \<or> c = CHR 0x09 \<or> c = CHR 0x0A \<or> c = CHR 0x0D"

definition skip_ws :: "string \<Rightarrow> string" where
  "skip_ws s = dropWhile is_ws s"

definition hexval :: "char \<Rightarrow> nat option" where
  "hexval c =
     (let n = of_char c :: nat
      in if 48 \<le> n \<and> n \<le> 57 then Some (n - 48) else if 97 \<le> n \<and> n \<le> 102 then Some (n - 87)
         else if 65 \<le> n \<and> n \<le> 70 then Some (n - 55) else None)"

definition unescape :: "char \<Rightarrow> char option" where
  "unescape c =
     map_of [(CHR 0x22, CHR 0x22), (CHR 0x5C, CHR 0x5C), (CHR ''/'', CHR ''/''), (CHR ''b'', CHR 0x08), (CHR ''f'', CHR 0x0C),
             (CHR ''n'', CHR 0x0A), (CHR ''r'', CHR 0x0D), (CHR ''t'', CHR 0x09)] c"

definition hex4 :: "string \<Rightarrow> (char \<times> string) option" where
  "hex4 s =
     (case s of
        a # b # c # d # r \<Rightarrow>
          (case (hexval a, hexval b, hexval c, hexval d) of
             (Some i, Some j, Some k, Some l) \<Rightarrow>
               let n = ((i * 16 + j) * 16 + k) * 16 + l in if n < 256 then Some (char_of n, r) else None
           | _ \<Rightarrow> None)
      | _ \<Rightarrow> None)"

text \<open>The text after an opening quote; the fuel is its length.\<close>

primrec scan_string :: "nat \<Rightarrow> string \<Rightarrow> (string \<times> string) option" where
  "scan_string 0 s = None"
| "scan_string (Suc n) s =
     (case s of
        [] \<Rightarrow> None
      | c # r \<Rightarrow>
          if c = CHR 0x22 then Some ([], r)
          else if c = CHR 0x5C then
            (case r of
               [] \<Rightarrow> None
             | e # r \<Rightarrow>
                 (case (if e = CHR ''u'' then hex4 r else map_option (\<lambda>x. (x, r)) (unescape e)) of
                    None \<Rightarrow> None
                  | Some (x, r) \<Rightarrow> map_option (\<lambda>(xs, r). (x # xs, r)) (scan_string n r)))
          else if (of_char c :: nat) < 32 then None
          else map_option (\<lambda>(xs, r). (c # xs, r)) (scan_string n r))"

definition nat_of_digits :: "string \<Rightarrow> nat" where
  "nat_of_digits ds = foldl (\<lambda>n c. 10 * n + (of_char c - 48)) 0 ds"

definition span_digits :: "string \<Rightarrow> string \<times> string" where
  "span_digits s = (takeWhile is_digit s, dropWhile is_digit s)"

text \<open>\<^verbatim>\<open>(-?(?:0|[1-9]\d*))(\.\d+)?([eE][-+]?\d+)?\<close>\<close>

definition scan_int :: "string \<Rightarrow> (string \<times> string) option" where
  "scan_int s =
     (case s of
        [] \<Rightarrow> None
      | c # r \<Rightarrow> if c = CHR ''0'' then Some ([c], r) else if is_digit c then Some (span_digits s) else None)"

definition scan_frac :: "string \<Rightarrow> (string \<times> string) option" where
  "scan_frac s =
     (case s of
        [] \<Rightarrow> None
      | c # r \<Rightarrow> (case span_digits r of (ds, r) \<Rightarrow> if c = CHR ''.'' \<and> ds \<noteq> [] then Some (ds, r) else None))"

definition scan_exp :: "string \<Rightarrow> (int \<times> string) option" where
  "scan_exp s =
     (case s of
        [] \<Rightarrow> None
      | c # r \<Rightarrow>
          let neg = (r \<noteq> [] \<and> hd r = CHR ''-''); r = (if r \<noteq> [] \<and> (hd r = CHR ''-'' \<or> hd r = CHR ''+'') then tl r else r)
          in case span_digits r of (ds, r) \<Rightarrow>
               if (c = CHR ''e'' \<or> c = CHR ''E'') \<and> ds \<noteq> []
               then Some (if neg then - int (nat_of_digits ds) else int (nat_of_digits ds), r) else None)"

definition scan_number :: "string \<Rightarrow> (jval \<times> string) option" where
  "scan_number s =
     (let neg = (s \<noteq> [] \<and> hd s = CHR ''-''); sgn = (if neg then -1 else 1 :: int)
      in case scan_int (if neg then tl s else s) of
           None \<Rightarrow> None
         | Some (ds, r) \<Rightarrow>
             (case (scan_frac r, scan_exp (case scan_frac r of None \<Rightarrow> r | Some (fs, r) \<Rightarrow> r)) of
                (None, None) \<Rightarrow> Some (JInt (sgn * int (nat_of_digits ds)), r)
              | (Some (fs, r), None) \<Rightarrow> Some (JDecimal (Dec (sgn * int (nat_of_digits (ds @ fs))) (- int (length fs))), r)
              | (None, Some (e, r)) \<Rightarrow> Some (JDecimal (Dec (sgn * int (nat_of_digits ds)) e), r)
              | (Some (fs, r'), Some (e, r)) \<Rightarrow>
                  Some (JDecimal (Dec (sgn * int (nat_of_digits (ds @ fs))) (e - int (length fs))), r)))"

definition scan_literal :: "string \<Rightarrow> (jval \<times> string) option" where
  "scan_literal s =
     (if starts_with s ''null'' then Some (JNull, drop 4 s)
      else if starts_with s ''true'' then Some (JBool True, drop 4 s)
      else if starts_with s ''false'' then Some (JBool False, drop 5 s)
      else if starts_with s ''NaN'' then Some (JDecimalNonFinite, drop 3 s)
      else if starts_with s ''Infinity'' then Some (JDecimalNonFinite, drop 8 s)
      else if starts_with s ''-Infinity'' then Some (JDecimalNonFinite, drop 9 s)
      else None)"

fun scan_once :: "nat \<Rightarrow> string \<Rightarrow> (jval \<times> string) option"
  and scan_elements :: "nat \<Rightarrow> string \<Rightarrow> (jval list \<times> string) option"
  and scan_members :: "nat \<Rightarrow> string \<Rightarrow> ((string \<times> jval) list \<times> string) option" where
  "scan_once 0 s = None"
| "scan_once (Suc n) s =
     (case s of
        [] \<Rightarrow> None
      | c # r \<Rightarrow>
          if c = CHR 0x22 then map_option (\<lambda>(x, r). (JStr x, r)) (scan_string (length r) r)
          else if c = CHR ''{'' then
            (if skip_ws r \<noteq> [] \<and> hd (skip_ws r) = CHR ''}'' then Some (JDict [], tl (skip_ws r))
             else map_option (\<lambda>(kvs, r). (JDict (fold (\<lambda>(k, v). AList.update k v) kvs []), r)) (scan_members n (skip_ws r)))
          else if c = CHR ''['' then
            (if skip_ws r \<noteq> [] \<and> hd (skip_ws r) = CHR '']'' then Some (JList [], tl (skip_ws r))
             else map_option (\<lambda>(vs, r). (JList vs, r)) (scan_elements n (skip_ws r)))
          else case scan_literal s of Some x \<Rightarrow> Some x | None \<Rightarrow> scan_number s)"
| "scan_elements 0 s = None"
| "scan_elements (Suc n) s =
     (case scan_once n s of
        None \<Rightarrow> None
      | Some (v, r) \<Rightarrow>
          (case skip_ws r of
             [] \<Rightarrow> None
           | c # r \<Rightarrow>
               if c = CHR '']'' then Some ([v], r)
               else if c = CHR '','' then map_option (\<lambda>(vs, r). (v # vs, r)) (scan_elements n (skip_ws r))
               else None))"
| "scan_members 0 s = None"
| "scan_members (Suc n) s =
     (case s of
        [] \<Rightarrow> None
      | c # r \<Rightarrow>
          if c \<noteq> CHR 0x22 then None
          else case scan_string (length r) r of
                 None \<Rightarrow> None
               | Some (k, r) \<Rightarrow>
                   (case skip_ws r of
                      [] \<Rightarrow> None
                    | c # r \<Rightarrow>
                        if c \<noteq> CHR '':'' then None
                        else case scan_once n (skip_ws r) of
                               None \<Rightarrow> None
                             | Some (v, r) \<Rightarrow>
                                 (case skip_ws r of
                                    [] \<Rightarrow> None
                                  | c # r \<Rightarrow>
                                      if c = CHR ''}'' then Some ([(k, v)], r)
                                      else if c = CHR '','' then map_option (\<lambda>(kvs, r). ((k, v) # kvs, r)) (scan_members n (skip_ws r))
                                      else None)))"

definition json_loads :: "string \<Rightarrow> py_error + jval" where
  "json_loads s =
     (case scan_once (2 * length s) (skip_ws s) of
        None \<Rightarrow> Inl ValueError
      | Some (v, r) \<Rightarrow> if skip_ws r = [] then Inr v else Inl ValueError)"

definition decode_line :: "string \<Rightarrow> py_error + jval" where
  "decode_line line = json_loads line"

text \<open>\<^verbatim>\<open>line.strip()\<close> removes Unicode blanks; below 256 these are the ASCII ones, next line and the hard space.\<close>

definition is_blank :: "char \<Rightarrow> bool" where
  "is_blank c \<longleftrightarrow> is_space c \<or> (of_char c :: nat) = 133 \<or> (of_char c :: nat) = 160"

definition strip :: "string \<Rightarrow> string" where
  "strip s = rev (dropWhile is_blank (rev (dropWhile is_blank s)))"

text \<open>A file opened as text: every \<^verbatim>\<open>\r\n\<close> and \<^verbatim>\<open>\r\<close> reads as \<^verbatim>\<open>\n\<close>.\<close>

fun universal_newlines :: "string \<Rightarrow> string" where
  "universal_newlines [] = []"
| "universal_newlines (c # cs) =
     (if c = CHR 0x0D then CHR 0x0A # universal_newlines (if cs \<noteq> [] \<and> hd cs = CHR 0x0A then tl cs else cs)
      else c # universal_newlines cs)"

fun decode_lines :: "string list \<Rightarrow> py_error + jval list" where
  "decode_lines [] = Inr []"
| "decode_lines (l # ls) =
     (if strip l = [] then decode_lines ls
      else case decode_line (strip l) of
             Inl e \<Rightarrow> Inl e
           | Inr v \<Rightarrow> (case decode_lines ls of Inl e \<Rightarrow> Inl e | Inr vs \<Rightarrow> Inr (v # vs)))"

definition read_ndjson :: "string \<Rightarrow> py_error + jval list" where
  "read_ndjson text = decode_lines (text_lines (universal_newlines text))"

section \<open>Strings\<close>

lemma hexval_hex: "hexval (hex n) = Some (n mod 16)"
proof -
  have "n mod 16 < 16" by simp
  then have "n mod 16 \<in> set [0..<16]" by simp
  then have "n mod 16 = 0 \<or> n mod 16 = 1 \<or> n mod 16 = 2 \<or> n mod 16 = 3 \<or> n mod 16 = 4 \<or> n mod 16 = 5 \<or> n mod 16 = 6 \<or> n mod 16 = 7 \<or>
      n mod 16 = 8 \<or> n mod 16 = 9 \<or> n mod 16 = 10 \<or> n mod 16 = 11 \<or> n mod 16 = 12 \<or> n mod 16 = 13 \<or> n mod 16 = 14 \<or> n mod 16 = 15"
    by (auto simp: upt_rec)
  then show ?thesis by (elim disjE) (simp_all add: hex_def hexval_def)
qed

lemma hex4_esc: "hex4 (CHR ''0'' # CHR ''0'' # hex (of_char c div 16) # hex (of_char c) # r) = Some (c, r)"
proof -
  have "(of_char c :: nat) < 256" by simp
  then have "of_char c div 16 < (16 :: nat)" by linarith
  then have "of_char c div 16 mod 16 * 16 + of_char c mod 16 = (of_char c :: nat)" by (simp add: mod_less)
  moreover have "hexval CHR ''0'' = Some 0" by (simp add: hexval_def)
  ultimately show ?thesis by (simp add: hex4_def hexval_hex Let_def)
qed

lemma scan_string_esc:
  assumes "scan_string n rest = Some (xs, r)"
  shows "scan_string (Suc n) (esc a c @ rest) = Some (c # xs, r)"
  using assms hex4_esc [of c rest] by (auto simp: esc_def esc_u_def unescape_def)

lemma scan_string_mono: "scan_string n s = Some x \<Longrightarrow> n \<le> m \<Longrightarrow> scan_string m s = Some x"
proof (induction n arbitrary: s x m)
  case (Suc n)
  then obtain k where m: "m = Suc k" "n \<le> k" by (cases m) auto
  have ih: "scan_string k s = Some x" if "scan_string n s = Some x" for s x using Suc.IH that m(2) by blast
  show ?case using Suc.prems(1) unfolding m(1)
    by (auto split: list.splits if_splits option.splits prod.splits dest!: ih)
qed simp

lemma esc_nonempty: "esc a c \<noteq> []"
  by (simp add: esc_def esc_u_def)

lemma scan_string_json: "scan_string (Suc (length s)) (concat (map (esc a) s) @ CHR 0x22 # r) = Some (s, r)"
  by (induction s) (auto simp: scan_string_esc simp del: scan_string.simps(2), simp)

lemma scan_json_str:
  "scan_string (length (concat (map (esc a) s) @ CHR 0x22 # r)) (concat (map (esc a) s) @ CHR 0x22 # r) = Some (s, r)"
proof -
  have "length s \<le> length (concat (map (esc a) s))"
  proof (induction s)
    case (Cons c s)
    then show ?case using esc_nonempty [of a c] by (cases "esc a c") auto
  qed simp
  then show ?thesis by (intro scan_string_mono [OF scan_string_json]) simp
qed

section \<open>Numbers\<close>

lemma digit_is_digit [simp]: "is_digit (digit n)"
proof -
  have "48 + n mod 10 < 256" by (simp add: less_trans [of _ 58])
  then show ?thesis by (simp add: is_digit_def digit_def)
qed

lemma digit_val [simp]: "(of_char (digit n) :: nat) - 48 = n mod 10"
proof -
  have "48 + n mod 10 < 256" by (simp add: less_trans [of _ 58])
  then show ?thesis by (simp add: digit_def)
qed

lemma foldl_digits:
  fixes v :: "char \<Rightarrow> nat"
  shows "foldl (\<lambda>n c. 10 * n + v c) a es = a * 10 ^ length es + foldl (\<lambda>n c. 10 * n + v c) 0 es"
proof (induction es arbitrary: a)
  case (Cons e es)
  let ?f = "\<lambda>n c. 10 * n + v c"
  have "foldl ?f a (e # es) = (10 * a + v e) * 10 ^ length es + foldl ?f 0 es" using Cons.IH [of "10 * a + v e"] by simp
  moreover have "foldl ?f 0 (e # es) = v e * 10 ^ length es + foldl ?f 0 es" using Cons.IH [of "v e"] by simp
  ultimately show ?case by (simp only: list.size power_Suc distrib_right power_add) (simp add: algebra_simps)
qed simp

lemma nat_of_digits_append: "nat_of_digits (ds @ es) = nat_of_digits ds * 10 ^ length es + nat_of_digits es"
  unfolding nat_of_digits_def foldl_append by (rule foldl_digits)

lemma nat_of_digits_zeros [simp]: "nat_of_digits (replicate k CHR ''0'') = 0"
  by (induction k) (simp_all add: nat_of_digits_def)

lemma nat_of_digits_digit [simp]: "nat_of_digits [digit n] = n mod 10"
  by (simp add: nat_of_digits_def)

text \<open>What the number grammar accepts as the digits before the point.\<close>

definition int_digits :: "string \<Rightarrow> bool" where
  "int_digits ds \<longleftrightarrow> ds \<noteq> [] \<and> list_all is_digit ds \<and> (ds = ''0'' \<or> hd ds \<noteq> CHR ''0'')"

lemma digit_0: "digit 0 = CHR ''0''"
  by code_simp

lemma digit_zero: "n < 10 \<Longrightarrow> digit n = CHR ''0'' \<longleftrightarrow> n = 0"
  using digit_eq_iff [of n 0] by (simp add: digit_0)

lemma show_nat_facts: "nat_of_digits (show_nat n) = n \<and> list_all is_digit (show_nat n) \<and> show_nat n \<noteq> [] \<and> (0 < n \<longrightarrow> hd (show_nat n) \<noteq> CHR ''0'')"
proof (induction n rule: show_nat.induct)
  case (1 n)
  show ?case
  proof (cases "n < 10")
    case True
    then show ?thesis using digit_zero [of n] by (subst (1 2 3 4) show_nat.simps) simp
  next
    case False
    with 1 have ih: "nat_of_digits (show_nat (n div 10)) = n div 10" "list_all is_digit (show_nat (n div 10))" "show_nat (n div 10) \<noteq> []"
        "hd (show_nat (n div 10)) \<noteq> CHR ''0''" by auto
    then show ?thesis using False by (subst (1 2 3 4) show_nat.simps) (simp add: nat_of_digits_append)
  qed
qed

lemma show_nat_digits: "int_digits (show_nat n)"
proof (cases "n = 0")
  case True
  then show ?thesis by (simp add: int_digits_def show_nat.simps digit_0 is_digit_def)
next
  case False
  then show ?thesis using show_nat_facts [of n] by (simp add: int_digits_def)
qed

definition delimited :: "string \<Rightarrow> bool" where
  "delimited rest \<longleftrightarrow> rest = [] \<or> hd rest \<in> {CHR '','', CHR '']'', CHR ''}''}"

lemma span_digits_append:
  "list_all is_digit ds \<Longrightarrow> rest = [] \<or> \<not> is_digit (hd rest) \<Longrightarrow> span_digits (ds @ rest) = (ds, rest)"
  by (induction ds) (cases rest; auto simp: span_digits_def)+

lemma delimited_not_digit: "delimited rest \<Longrightarrow> rest = [] \<or> \<not> is_digit (hd rest)"
  by (auto simp: delimited_def is_digit_def)

lemma scan_int_digits:
  assumes "int_digits ds" "rest = [] \<or> \<not> is_digit (hd rest)"
  shows "scan_int (ds @ rest) = Some (ds, rest)"
proof (cases "ds = ''0''")
  case False
  with assms obtain c cs where ds: "ds = c # cs" "c \<noteq> CHR ''0''" "is_digit c" by (cases ds) (auto simp: int_digits_def)
  then show ?thesis using span_digits_append [of ds rest] assms by (simp add: scan_int_def int_digits_def)
qed (simp add: scan_int_def)

lemma scan_tail_delimited: "delimited rest \<Longrightarrow> scan_frac rest = None \<and> scan_exp rest = None"
proof (cases rest)
  case (Cons c r)
  assume "delimited rest"
  then have "c \<noteq> CHR ''.''" "c \<noteq> CHR ''e''" "c \<noteq> CHR ''E''" using Cons by (auto simp: delimited_def)
  then show ?thesis using Cons by (simp add: scan_frac_def scan_exp_def Let_def case_prod_beta)
qed (simp add: scan_frac_def scan_exp_def)

lemma scan_number_int:
  assumes "int_digits ds" "delimited rest"
  shows "scan_number ((if neg then ''-'' else []) @ ds @ rest) = Some (JInt ((if neg then -1 else 1) * int (nat_of_digits ds)), rest)"
proof -
  have "hd ds \<noteq> CHR ''-''" "ds \<noteq> []" using assms(1) by (cases ds; auto simp: int_digits_def is_digit_def)+
  then show ?thesis using scan_int_digits [OF assms(1) delimited_not_digit [OF assms(2)]] scan_tail_delimited [OF assms(2)]
    by (auto simp: scan_number_def Let_def)
qed

lemma scan_number_decimal:
  assumes "int_digits ds" "list_all is_digit fs" "fs \<noteq> []" "delimited rest"
  shows "scan_number ((if neg then ''-'' else []) @ ds @ CHR ''.'' # fs @ rest) =
     Some (JDecimal (Dec ((if neg then -1 else 1) * int (nat_of_digits (ds @ fs))) (- int (length fs))), rest)"
proof -
  have "hd ds \<noteq> CHR ''-''" "ds \<noteq> []" using assms(1) by (cases ds; auto simp: int_digits_def is_digit_def)+
  moreover have "scan_int (ds @ CHR ''.'' # fs @ rest) = Some (ds, CHR ''.'' # fs @ rest)"
    by (rule scan_int_digits [OF assms(1)]) (simp add: is_digit_def)
  moreover have "scan_frac (CHR ''.'' # fs @ rest) = Some (fs, rest)"
    using span_digits_append [OF assms(2) delimited_not_digit [OF assms(4)]] assms(3) by (simp add: scan_frac_def)
  ultimately show ?thesis using scan_tail_delimited [OF assms(4)] by (auto simp: scan_number_def Let_def)
qed

lemma scan_once_number:
  assumes "int_digits ds"
  shows "scan_once (Suc n) ((if neg then ''-'' else []) @ ds @ rest) = scan_number ((if neg then ''-'' else []) @ ds @ rest)"
proof -
  from assms obtain c cs where ds: "ds = c # cs" "is_digit c" by (cases ds) (auto simp: int_digits_def)
  have "c \<notin> {CHR 0x22, CHR ''{'', CHR ''['', CHR ''n'', CHR ''t'', CHR ''f'', CHR ''N'', CHR ''I'', CHR ''-''}" using ds(2) by (auto simp: is_digit_def)
  then show ?thesis using ds(1) by (auto simp: scan_literal_def starts_with_def)
qed

section \<open>Values\<close>

text \<open>What is read back: a number without fraction is an integer, a date is its text.\<close>

fun loaded :: "jval \<Rightarrow> jval" where
  "loaded (JDecimal d) = (if 0 \<le> dexp d then JInt (dcoef d * 10 ^ nat (dexp d)) else JDecimal d)"
| "loaded (JDatetime t) = JStr (isoformat t)"
| "loaded (JList xs) = JList (map loaded xs)"
| "loaded (JDict kvs) = JDict (map (\<lambda>kv. (fst kv, loaded (snd kv))) kvs)"
| "loaded v = v"

text \<open>The keys of a \<^verbatim>\<open>dict\<close> are distinct.\<close>

fun keys_distinct :: "jval \<Rightarrow> bool" where
  "keys_distinct (JList xs) = list_all keys_distinct xs"
| "keys_distinct (JDict kvs) = (distinct (map fst kvs) \<and> list_all (\<lambda>kv. keys_distinct (snd kv)) kvs)"
| "keys_distinct v = True"

text \<open>The fuel that reading a value takes.\<close>

fun need :: "jval \<Rightarrow> nat" where
  "need (JList xs) = Suc (\<Sum>x\<leftarrow>xs. Suc (need x))"
| "need (JDict kvs) = Suc (\<Sum>kv\<leftarrow>kvs. Suc (need (snd kv)))"
| "need v = 1"

lemma scan_format_f:
  assumes "delimited rest"
  shows "scan_once (Suc n) (format_f d @ rest) = Some (loaded (JDecimal d), rest)"
proof -
  let ?neg = "dcoef d < 0" and ?ds = "show_nat (nat \<bar>dcoef d\<bar>)"
  let ?sign = "if ?neg then ''-'' else []"
  have sgn: "(if ?neg then -1 else 1) * \<bar>dcoef d\<bar> = dcoef d" by simp
  have val: "nat_of_digits ?ds = nat \<bar>dcoef d\<bar>" and dig: "list_all is_digit ?ds" using show_nat_facts by auto
  consider (zero) "dcoef d = 0" "0 < dexp d" | (int) "\<not> (dcoef d = 0 \<and> 0 < dexp d)" "0 \<le> dexp d" | (frac) "dexp d < 0" by linarith
  then show ?thesis
  proof cases
    case zero
    have "int_digits ''0''" by (simp add: int_digits_def is_digit_def)
    from scan_once_number [OF this, of n False rest] scan_number_int [OF this assms, of False] zero
    show ?thesis by (simp add: format_f_def nat_of_digits_def del: scan_once.simps)
  next
    case int
    let ?z = "replicate (nat (dexp d)) CHR ''0''"
    have "int_digits (?ds @ ?z)"
    proof (cases "dcoef d = 0")
      case True
      with int have "dexp d = 0" by linarith
      then show ?thesis using show_nat_digits by simp
    next
      case False
      then have "hd ?ds \<noteq> CHR ''0''" "?ds \<noteq> []" using show_nat_facts [of "nat \<bar>dcoef d\<bar>"] by auto
      moreover have "is_digit CHR ''0''" by (simp add: is_digit_def)
      ultimately show ?thesis using dig by (auto simp: int_digits_def list_all_iff)
    qed
    moreover have "format_f d = ?sign @ ?ds @ ?z" using int by (auto simp: format_f_def Let_def)
    moreover have "int (nat_of_digits (?ds @ ?z)) = \<bar>dcoef d\<bar> * 10 ^ nat (dexp d)" by (simp add: nat_of_digits_append val)
    ultimately show ?thesis
      using scan_once_number [of "?ds @ ?z" n ?neg rest] scan_number_int [of "?ds @ ?z" rest ?neg] assms int sgn
      by (simp add: mult.assoc [symmetric] del: scan_once.simps)
  next
    case frac
    define f where "f = nat (- dexp d)"
    define padded where "padded = replicate (Suc f - length ?ds) CHR ''0'' @ ?ds"
    define k where "k = length padded - f"
    have f0: "0 < f" "- int f = dexp d" using frac by (simp_all add: f_def)
    have len: "k \<ge> 1" "k + f = length padded" by (auto simp: k_def padded_def)
    have pd: "list_all is_digit padded" using dig by (auto simp: padded_def list_all_iff is_digit_def)
    have fmt: "format_f d = ?sign @ take k padded @ CHR ''.'' # drop k padded"
      using frac by (simp add: format_f_def Let_def f_def padded_def k_def)
    have "int_digits (take k padded)"
    proof (cases "length ?ds \<le> f")
      case True
      then have "k = 1" "padded \<noteq> []" "hd padded = CHR ''0''" by (auto simp: k_def padded_def Suc_diff_le)
      then have "take k padded = ''0''" by (cases padded) auto
      then show ?thesis by (simp add: int_digits_def is_digit_def)
    next
      case False
      then have p: "padded = ?ds" by (simp add: padded_def)
      have "0 < nat \<bar>dcoef d\<bar>"
      proof (rule ccontr)
        assume "\<not> 0 < nat \<bar>dcoef d\<bar>"
        then have "length ?ds = 1" by (simp add: show_nat.simps)
        with False f0 show False by simp
      qed
      then have "hd ?ds \<noteq> CHR ''0''" using show_nat_facts by blast
      then show ?thesis using p pd len(1) show_nat_facts [of "nat \<bar>dcoef d\<bar>"]
        by (cases "?ds"; cases k) (auto simp: int_digits_def list_all_iff dest: in_set_takeD)
    qed
    moreover have "list_all is_digit (drop k padded)" using pd by (auto simp: list_all_iff dest: in_set_dropD)
    moreover have "drop k padded \<noteq> []" "length (drop k padded) = f" using len f0 by auto
    moreover have "nat_of_digits padded = nat \<bar>dcoef d\<bar>" by (simp add: padded_def nat_of_digits_append val)
    ultimately show ?thesis
      using scan_once_number [of "take k padded" n ?neg "CHR ''.'' # drop k padded @ rest"]
        scan_number_decimal [of "take k padded" "drop k padded" rest ?neg] assms fmt f0 sgn frac
      by (simp del: scan_once.simps)
  qed
qed

lemma scan_show_int:
  assumes "delimited rest"
  shows "scan_once (Suc n) (show_int i @ rest) = Some (JInt i, rest)"
  using scan_once_number [OF show_nat_digits, of n "i < 0" "nat \<bar>i\<bar>" rest] scan_number_int [OF show_nat_digits assms, of "i < 0" "nat \<bar>i\<bar>"]
    show_nat_facts [of "nat \<bar>i\<bar>"]
  by (auto simp: show_int_def simp del: scan_once.simps split: if_splits)

lemma scan_json:
  "scan_once (Suc n) (json_str a s @ rest) = Some (JStr s, rest)"
  using scan_json_str [of a s rest] by (simp add: json_str_def)

section \<open>Lists and objects\<close>

lemma delimited_simps [simp]: "delimited (CHR '','' # r)" "delimited (CHR '']'' # r)" "delimited (CHR ''}'' # r)" "delimited []"
  by (simp_all add: delimited_def)

text \<open>A printed value starts with none of the characters that end a list or an object, and with no blank.\<close>

definition starts_value :: "string \<Rightarrow> bool" where
  "starts_value s \<longleftrightarrow> s \<noteq> [] \<and> \<not> is_ws (hd s) \<and> hd s \<notin> {CHR '']'', CHR ''}'', CHR '',''}"

lemma starts_value_append: "starts_value s \<Longrightarrow> starts_value (s @ r)"
  by (cases s) (auto simp: starts_value_def)

lemma starts_value_skip: "starts_value s \<Longrightarrow> skip_ws s = s"
  by (cases s) (auto simp: starts_value_def skip_ws_def)

lemma starts_value_digit: "is_digit c \<or> c = CHR ''-'' \<Longrightarrow> starts_value (c # s)"
  by (auto simp: starts_value_def is_digit_def is_ws_def)

lemma starts_value_number: "int_digits ds \<Longrightarrow> starts_value ((if neg then ''-'' else []) @ ds @ r)"
  by (cases ds) (auto simp: int_digits_def intro: starts_value_digit)

lemma starts_value_format_f: "starts_value (format_f d)"
proof -
  have d: "list_all is_digit (replicate k CHR ''0'' @ show_nat n)" for k n
    using show_nat_facts [of n] by (auto simp: list_all_iff is_digit_def)
  have "starts_value (take (length p - f) p @ r)" if "p = replicate (Suc f - length (show_nat n)) CHR ''0'' @ show_nat n" for p f n r
  proof -
    have "0 < length p - f" "p \<noteq> []" "list_all is_digit p" using that d by auto
    then show ?thesis by (cases p; cases "length p - f") (auto intro: starts_value_digit)
  qed
  moreover have "starts_value (show_nat n @ r)" for n r using starts_value_number [OF show_nat_digits, of False] by simp
  ultimately show ?thesis
    by (auto simp: format_f_def Let_def simp del: take_append drop_append intro: starts_value_digit) (simp add: starts_value_def is_ws_def)
qed

lemma starts_value_encoded: "all_finite v \<Longrightarrow> starts_value (decimal_iterencode v)"
proof (cases v)
  case (JInt i)
  then show ?thesis using starts_value_number [OF show_nat_digits, of "i < 0" "nat \<bar>i\<bar>" "[]"] by (auto simp: show_int_def)
qed (auto simp: starts_value_format_f json_str_def, auto simp: starts_value_def is_ws_def)

definition reads_back :: "jval \<Rightarrow> bool" where
  "reads_back v \<longleftrightarrow> (\<forall>n rest. need v \<le> n \<and> delimited rest \<longrightarrow> scan_once n (decimal_iterencode v @ rest) = Some (loaded v, rest))"

lemma scan_elements_join:
  assumes "xs \<noteq> []" "\<forall>x\<in>set xs. reads_back x \<and> all_finite x" "(\<Sum>x\<leftarrow>xs. Suc (need x)) \<le> n"
  shows "scan_elements n (join '','' (map decimal_iterencode xs) @ CHR '']'' # rest) = Some (map loaded xs, rest)"
  using assms
proof (induction xs arbitrary: n)
  case (Cons x xs)
  then obtain m where n: "n = Suc m" "need x \<le> m" "(\<Sum>x\<leftarrow>xs. Suc (need x)) \<le> m" by (cases n) auto
  show ?case
  proof (cases xs)
    case Nil
    then show ?thesis using Cons.prems(2) n by (simp add: reads_back_def skip_ws_def is_ws_def)
  next
    case (Cons y ys)
    let ?r = "join '','' (map decimal_iterencode xs) @ CHR '']'' # rest"
    have "starts_value ?r" using Cons.prems(2) Cons starts_value_encoded [of y]
      by (cases ys) (auto intro: starts_value_append)
    then have "skip_ws ?r = ?r" by (rule starts_value_skip)
    moreover have "scan_elements m ?r = Some (map loaded xs, rest)" using Cons.IH [of m] Cons.prems(2) Cons n by simp
    moreover have "scan_once m (decimal_iterencode x @ CHR '','' # ?r) = Some (loaded x, CHR '','' # ?r)"
      using Cons.prems(2) n by (simp add: reads_back_def)
    ultimately show ?thesis using n Cons by (simp add: skip_ws_def [of "CHR '','' # s" for s] is_ws_def del: scan_once.simps)
  qed
qed simp

definition encode_member :: "string \<times> jval \<Rightarrow> string" where
  "encode_member kv = json_str True (fst kv) @ '':'' @ decimal_iterencode (snd kv)"

lemma scan_members_join:
  assumes "kvs \<noteq> []" "\<forall>kv\<in>set kvs. reads_back (snd kv) \<and> all_finite (snd kv)" "(\<Sum>kv\<leftarrow>kvs. Suc (need (snd kv))) \<le> n"
  shows "scan_members n (join '','' (map encode_member kvs) @ CHR ''}'' # rest) = Some (map (\<lambda>kv. (fst kv, loaded (snd kv))) kvs, rest)"
  using assms
proof (induction kvs arbitrary: n)
  case (Cons kv kvs)
  then obtain m where n: "n = Suc m" "need (snd kv) \<le> m" "(\<Sum>kv\<leftarrow>kvs. Suc (need (snd kv))) \<le> m" by (cases n) auto
  have step: "scan_members n (encode_member kv @ c # r) =
      (if c = CHR ''}'' then Some ([(fst kv, loaded (snd kv))], r)
       else if c = CHR '','' then map_option (\<lambda>(kvs, r). ((fst kv, loaded (snd kv)) # kvs, r)) (scan_members m (skip_ws r)) else None)"
    if "c = CHR ''}'' \<or> c = CHR '',''" for c r
  proof -
    have "skip_ws (decimal_iterencode (snd kv) @ c # r) = decimal_iterencode (snd kv) @ c # r"
      using Cons.prems(2) starts_value_encoded by (intro starts_value_skip starts_value_append) simp
    moreover have "scan_once m (decimal_iterencode (snd kv) @ c # r) = Some (loaded (snd kv), c # r)"
      using Cons.prems(2) n that by (auto simp: reads_back_def)
    moreover have "skip_ws (c # r) = c # r" "skip_ws (CHR '':'' # s) = CHR '':'' # s" for s using that by (auto simp: skip_ws_def is_ws_def)
    ultimately show ?thesis
      using n scan_json_str [of True "fst kv" "CHR '':'' # decimal_iterencode (snd kv) @ c # r"]
      by (simp add: encode_member_def json_str_def del: scan_once.simps)
  qed
  show ?case
  proof (cases kvs)
    case Nil
    then show ?thesis using step [of "CHR ''}''" rest] by simp
  next
    case (Cons y ys)
    let ?r = "join '','' (map encode_member kvs) @ CHR ''}'' # rest"
    have "starts_value ?r" using Cons by (cases ys) (simp_all add: encode_member_def json_str_def starts_value_def is_ws_def)
    then have "skip_ws ?r = ?r" by (rule starts_value_skip)
    moreover have "scan_members m ?r = Some (map (\<lambda>kv. (fst kv, loaded (snd kv))) kvs, rest)" using Cons.IH [of m] Cons.prems(2) Cons n by simp
    ultimately show ?thesis using step [of "CHR '',''" ?r] Cons by simp
  qed
qed simp

lemma fold_update_distinct:
  "distinct (map fst (acc @ kvs)) \<Longrightarrow> fold (\<lambda>(k, v). AList.update k v) kvs acc = acc @ kvs"
proof (induction kvs arbitrary: acc)
  case (Cons kv kvs)
  then have "AList.update (fst kv) (snd kv) acc = acc @ [kv]" using update_new [of acc "fst kv" "snd kv"] by (auto simp: map_of_eq_None_iff)
  with Cons show ?case by (simp add: case_prod_beta)
qed simp

lemma decode_encode: "all_finite v \<Longrightarrow> keys_distinct v \<Longrightarrow> reads_back v"
proof (induction v)
  case (JList xs)
  show ?case unfolding reads_back_def
  proof (intro allI impI)
    fix n rest assume a: "need (JList xs) \<le> n \<and> delimited rest"
    then obtain m where n: "n = Suc m" "(\<Sum>x\<leftarrow>xs. Suc (need x)) \<le> m" by (cases n) auto
    show "scan_once n (decimal_iterencode (JList xs) @ rest) = Some (loaded (JList xs), rest)"
    proof (cases xs)
      case Nil
      then show ?thesis using n by (simp add: skip_ws_def is_ws_def)
    next
      case (Cons y ys)
      let ?r = "join '','' (map decimal_iterencode xs) @ CHR '']'' # rest"
      have "scan_elements m ?r = Some (map loaded xs, rest)" using JList Cons n by (intro scan_elements_join) (auto simp: list_all_iff)
      moreover have sv: "starts_value ?r" using JList.prems Cons starts_value_encoded [of y] by (cases ys) (auto intro: starts_value_append)
      ultimately show ?thesis using n starts_value_skip [OF sv] sv by (auto simp: starts_value_def)
    qed
  qed
next
  case (JDict kvs)
  have enc: "decimal_iterencode (JDict kvs) = CHR ''{'' # join '','' (map encode_member kvs) @ ''}''"
    by (simp add: encode_member_def cong: map_cong)
  show ?case unfolding reads_back_def
  proof (intro allI impI)
    fix n rest assume a: "need (JDict kvs) \<le> n \<and> delimited rest"
    then obtain m where n: "n = Suc m" "(\<Sum>kv\<leftarrow>kvs. Suc (need (snd kv))) \<le> m" by (cases n) auto
    show "scan_once n (decimal_iterencode (JDict kvs) @ rest) = Some (loaded (JDict kvs), rest)"
    proof (cases kvs)
      case Nil
      then show ?thesis using n by (simp add: skip_ws_def is_ws_def)
    next
      case (Cons y ys)
      let ?r = "join '','' (map encode_member kvs) @ CHR ''}'' # rest"
      have "\<forall>kv\<in>set kvs. reads_back (snd kv) \<and> all_finite (snd kv)"
      proof
        fix kv assume "kv \<in> set kvs"
        then show "reads_back (snd kv) \<and> all_finite (snd kv)"
          using JDict.prems JDict.IH [of kv "snd kv"] by (auto simp: list_all_iff prod_set_defs)
      qed
      then have "scan_members m ?r = Some (map (\<lambda>kv. (fst kv, loaded (snd kv))) kvs, rest)" using Cons n by (intro scan_members_join) auto
      moreover have sv: "starts_value ?r" using Cons by (cases ys) (simp_all add: encode_member_def json_str_def starts_value_def is_ws_def)
      moreover have "fold (\<lambda>(k, v). AList.update k v) (map (\<lambda>kv. (fst kv, loaded (snd kv))) kvs) [] = map (\<lambda>kv. (fst kv, loaded (snd kv))) kvs"
        using JDict.prems fold_update_distinct [of "[]" "map (\<lambda>kv. (fst kv, loaded (snd kv))) kvs"] by (simp add: comp_def)
      ultimately show ?thesis unfolding enc using n starts_value_skip [OF sv] sv by (auto simp: starts_value_def)
    qed
  qed
qed (auto simp: reads_back_def Suc_le_eq gr0_conv_Suc scan_json scan_show_int scan_format_f scan_literal_def starts_with_def
      simp del: scan_once.simps loaded.simps, auto simp: scan_literal_def starts_with_def)

section \<open>The fuel is enough\<close>

lemma length_join: "(\<Sum>x\<leftarrow>xs. length x) \<le> length (join sep xs)"
  by (induction sep xs rule: join.induct) auto

lemma sum_need:
  assumes "\<And>x. x \<in> set xs \<Longrightarrow> Suc (f x) \<le> 2 * length (g x)"
  shows "(\<Sum>x\<leftarrow>xs. Suc (f x)) \<le> 2 * length (join sep (map g xs))"
proof -
  have "(\<Sum>x\<leftarrow>xs. Suc (f x)) \<le> (\<Sum>x\<leftarrow>xs. 2 * length (g x))" using assms by (intro sum_list_mono) auto
  also have "\<dots> = 2 * (\<Sum>x\<leftarrow>map g xs. length x)" by (simp add: sum_list_const_mult comp_def)
  also have "\<dots> \<le> 2 * length (join sep (map g xs))" using length_join [of "map g xs" sep] by (simp add: comp_def)
  finally show ?thesis .
qed

lemma need_bound: "all_finite v \<Longrightarrow> Suc (need v) \<le> 2 * length (decimal_iterencode v)"
proof (induction v)
  case (JList xs)
  then have "(\<Sum>x\<leftarrow>xs. Suc (need x)) \<le> 2 * length (join '','' (map decimal_iterencode xs))"
    by (intro sum_need) (auto simp: list_all_iff)
  then show ?case by simp
next
  case (JDict kvs)
  have "(\<Sum>kv\<leftarrow>kvs. Suc (need (snd kv))) \<le> 2 * length (join '','' (map encode_member kvs))"
  proof (intro sum_need)
    fix kv assume kv: "kv \<in> set kvs"
    then have "Suc (need (snd kv)) \<le> 2 * length (decimal_iterencode (snd kv))"
      using JDict.prems JDict.IH [of kv "snd kv"] by (auto simp: list_all_iff prod_set_defs)
    then show "Suc (need (snd kv)) \<le> 2 * length (encode_member kv)" by (simp add: encode_member_def)
  qed
  then show ?case by (simp add: encode_member_def cong: map_cong)
next
  case (JInt i)
  then show ?case using starts_value_encoded [of "JInt i"] by (cases "decimal_iterencode (JInt i)") (auto simp: starts_value_def)
next
  case (JDecimal d)
  then show ?case using starts_value_encoded [of "JDecimal d"] by (cases "decimal_iterencode (JDecimal d)") (auto simp: starts_value_def)
qed (simp_all add: json_str_def)

section \<open>Lines\<close>

text \<open>The encoder prints no control character before the end of the line.\<close>

definition control_free :: "string \<Rightarrow> bool" where
  "control_free s \<longleftrightarrow> list_all (\<lambda>c. (32 :: nat) \<le> of_char c) s"

lemma control_free_simps [simp]:
  "control_free []" "control_free (c # s) \<longleftrightarrow> (32 :: nat) \<le> of_char c \<and> control_free s"
  "control_free (s @ t) \<longleftrightarrow> control_free s \<and> control_free t"
  by (auto simp: control_free_def)

lemma control_free_digits: "list_all is_digit s \<Longrightarrow> control_free s"
  by (auto simp: control_free_def list_all_iff is_digit_def)

lemma control_free_sub: "set s \<subseteq> set t \<Longrightarrow> control_free t \<Longrightarrow> control_free s"
  by (auto simp: control_free_def list_all_iff)

lemma control_free_show_nat: "control_free (show_nat n)"
  using show_nat_facts by (intro control_free_digits) auto

lemma control_free_format_f: "control_free (format_f d)"
proof -
  have p: "control_free (replicate k CHR ''0'' @ show_nat n)" "control_free (replicate k CHR ''0'')" for k n
    using control_free_show_nat [of n] by (auto simp: control_free_def list_all_iff)
  then have "control_free (take i (replicate k CHR ''0'' @ show_nat n))" "control_free (drop i (replicate k CHR ''0'' @ show_nat n))" for i k n
    using control_free_sub [OF set_take_subset p(1)] control_free_sub [OF set_drop_subset p(1)] by blast+
  then show ?thesis
    using p(2) control_free_show_nat by (auto simp: format_f_def Let_def simp del: take_append drop_append)
qed

lemma control_free_esc: "control_free (esc a c)"
proof -
  have "hex n \<in> set ''0123456789abcdef''" for n unfolding hex_def by (rule nth_mem) simp
  then have "(32 :: nat) \<le> of_char (hex n)" for n by (rule list_all_iff [THEN iffD1, THEN bspec, rotated]) simp
  then show ?thesis by (auto simp: esc_def esc_u_def)
qed

lemma control_free_json_str: "control_free (json_str a s)"
  using control_free_esc by (simp add: json_str_def) (induction s, simp_all)

lemma control_free_join: "control_free sep \<Longrightarrow> list_all control_free xs \<Longrightarrow> control_free (join sep xs)"
  by (induction sep xs rule: join.induct) simp_all

lemma control_free_iterencode: "control_free (decimal_iterencode v)"
proof (induction v rule: decimal_iterencode.induct)
  case (8 xs)
  then have "control_free (join '','' (map decimal_iterencode xs))" by (intro control_free_join) (auto simp: list_all_iff)
  then show ?case by simp
next
  case (9 kvs)
  then have "control_free (join '','' (map encode_member kvs))"
    using control_free_json_str by (intro control_free_join) (auto simp: list_all_iff encode_member_def)
  then show ?case by (simp add: encode_member_def cong: map_cong)
qed (simp_all add: show_int_def control_free_show_nat control_free_json_str control_free_format_f)

lemma universal_newlines_line:
  "control_free b \<Longrightarrow> universal_newlines (b @ CHR 0x0A # rest) = b @ CHR 0x0A # universal_newlines rest"
  by (induction b) auto

lemma strip_braces: "strip (CHR ''{'' # s @ [CHR ''}'', CHR 0x0A]) = CHR ''{'' # s @ ''}''"
  by (simp add: strip_def is_blank_def is_space_def)

lemma json_loads_encoded:
  assumes "all_finite v" "keys_distinct v"
  shows "json_loads (decimal_iterencode v) = Inr (loaded v)"
proof -
  have "scan_once (2 * length (decimal_iterencode v)) (decimal_iterencode v @ []) = Some (loaded v, [])"
    using decode_encode [OF assms, unfolded reads_back_def, rule_format, of _ "[]"] need_bound [OF assms(1)]
    by (simp add: delimited_simps del: append_Nil2)
  then show ?thesis using starts_value_skip [OF starts_value_encoded [OF assms(1)]] by (simp add: json_loads_def skip_ws_def)
qed

text \<open>One encoded line at the head of the file is read as one record.\<close>

lemma read_ndjson_line:
  assumes "encode_record r = Inr l" "keys_distinct (JDict r)"
  shows "read_ndjson (l @ rest) = (case read_ndjson rest of Inl e \<Rightarrow> Inl e | Inr vs \<Rightarrow> Inr (loaded (JDict r) # vs))"
proof -
  let ?b = "decimal_iterencode (JDict r)"
  have fin: "all_finite (JDict r)" and l: "l = ?b @ [CHR 0x0A]" using assms(1) by (auto simp: encode_record_def split: if_splits)
  have "text_lines (universal_newlines (l @ rest)) = l # text_lines (universal_newlines rest)"
    using universal_newlines_line [OF control_free_iterencode, of "JDict r" rest] text_lines_line [OF newline_free_iterencode, of "JDict r"]
    by (simp add: l)
  moreover have "strip l = ?b" using strip_braces by (simp add: l)
  moreover have "decode_line ?b = Inr (loaded (JDict r))" using json_loads_encoded [OF fin assms(2)] by (simp add: decode_line_def)
  moreover have "?b \<noteq> []" by simp
  ultimately show ?thesis unfolding read_ndjson_def by (simp del: decimal_iterencode.simps loaded.simps)
qed

section \<open>Property\<close>

text \<open>
  C1. Reading back the log: a file of encoded records, written one after the other, is read as exactly those records in that
  order, whatever strings, nested lists and objects they contain: every number has its exact value (one printed without a
  fraction is read as an integer), a date comes back as its ISO-8601 text. The fuel of the parser is enough for every record.
\<close>

theorem ndjson_roundtrip:
  assumes "map encode_record rs = map Inr ls" and "list_all (\<lambda>r. keys_distinct (JDict r)) rs"
  shows "read_ndjson (concat ls) = Inr (map (\<lambda>r. loaded (JDict r)) rs)"
  using assms
proof (induction rs arbitrary: ls)
  case Nil
  then show ?case by (simp add: read_ndjson_def)
next
  case (Cons r rs)
  then obtain l ls' where ls: "ls = l # ls'" "encode_record r = Inr l" "map encode_record rs = map Inr ls'" by (cases ls) auto
  have "read_ndjson (concat ls') = Inr (map (\<lambda>r. loaded (JDict r)) rs)" using Cons ls(3) by simp
  then show ?case using read_ndjson_line [OF ls(2)] Cons.prems(2) ls(1) by (simp del: loaded.simps)
qed

definition example_records :: "jrecord list" where
  "example_records =
     [[(''price'', JDecimal (Dec (-15) (-1))), (''tags'', JList [JStr [CHR 0x0A, CHR 0x22], JNull])],
      [(''n'', JDecimal (Dec 7 2)), (''sub'', JDict [(''ok'', JBool True)])]]"

theorem ndjson_roundtrip_witness:
  "read_ndjson (concat (map (projr \<circ> encode_record) example_records)) =
     Inr [JDict [(''price'', JDecimal (Dec (-15) (-1))), (''tags'', JList [JStr [CHR 0x0A, CHR 0x22], JNull])],
          JDict [(''n'', JInt 700), (''sub'', JDict [(''ok'', JBool True)])]]"
proof -
  have "map encode_record example_records = map Inr (map (projr \<circ> encode_record) example_records)"
    by (simp add: encode_record_def example_records_def)
  then show ?thesis using ndjson_roundtrip [of example_records "map (projr \<circ> encode_record) example_records"]
    by (simp add: example_records_def)
qed

end
