(* ===== verification/Spec2Isabelle.thy ===== *)
theory Spec2Isabelle
  imports WalIngester Dedup BarAggregation DualWriter TierReader Retention Barrier Rekey OrderbookReplay
    IngestBlocker EndpointRouter HistoricalReclaim MigrationGc NasSop InvariantHarness Backfill
    CutoverVerifier WindowRunner TierMerge JsonDecode
begin

text \<open>
  Verification of \<^verbatim>\<open>mctrader_data\<close>, the market-data pipeline under \<^verbatim>\<open>src/src/mctrader_data\<close>. File names below are relative to
  that directory.

  \<^bold>\<open>The program and how its parts interact.\<close> A collector appends exchange events as JSON lines to a write-ahead log of sealed segments. A
  compactor turns the segments of a day into Parquet files (tier L1) and merges these into hourly (L2) and daily (L3) files. Every
  file is written locally and uploaded to an S3 compatible store (the NAS); an upload that cannot be made goes to a persistent retry queue. Local
  files are deleted once the store provably has them. Readers fetch an object through a cache, guarded by a circuit breaker, with a
  local fallback for old partitions; rows written by several nodes are deduplicated when read, and are turned into bars or into an order
  book. A set of one-off and daily programs migrates old data to the store, re-keys objects, verifies the copies and cleans up.

  \<^bold>\<open>Foundations.\<close>
  \<^item> \<^verbatim>\<open>Prelude\<close>: time stamps, clock readings, paths, exceptions, dictionaries and a small file system, with the lemmas the components share.
  \<^item> \<^verbatim>\<open>Calendar\<close>, \<^verbatim>\<open>PyDecimal\<close>: what the code uses of \<^verbatim>\<open>datetime\<close> and \<^verbatim>\<open>decimal\<close>, with the injectivity of the two date formats and the
    exactness and error bounds of decimal arithmetic.
  \<^item> \<^verbatim>\<open>ObjectStore\<close>: the S3 client as a parameter \<open>'a s3\<close> with the laws \<open>s3_laws\<close>, and an instance in memory, which shows that they can hold.
  \<^item> \<^verbatim>\<open>Rows\<close>: the rows that cross component boundaries.

  \<^bold>\<open>The write path.\<close>
  \<^item> \<^verbatim>\<open>WalSegment\<close> (\<^verbatim>\<open>wal/segment.py\<close>): names of segments; the parsers recover what a name was built from.
  \<^item> \<^verbatim>\<open>NdjsonCodec\<close>, \<^verbatim>\<open>JsonDecode\<close> (\<^verbatim>\<open>wal/ndjson_codec.py\<close>, \<^verbatim>\<open>L1Compactor._read_ndjson\<close>): printing a record, the parser of \<^verbatim>\<open>json.loads\<close>, and
    that a file of printed records is read back as those records.
  \<^item> \<^verbatim>\<open>WalIngester\<close> (\<^verbatim>\<open>wal/ingester.py\<close>): the state of a stream as a record and every method as a state transformer over the outcomes of its
    system calls; an acknowledged record survives a crash, a full buffer recovers, and a restart within a bucket overwrites a sealed segment.
  \<^item> \<^verbatim>\<open>TierMerge\<close> (\<^verbatim>\<open>compactor/l2.py\<close>, \<^verbatim>\<open>l3.py\<close>, \<^verbatim>\<open>sort_key.py\<close>, \<^verbatim>\<open>quarantine.py\<close>, \<^verbatim>\<open>_nas_stream_cache.py\<close>, \<^verbatim>\<open>nas_storage/get_streaming.py\<close>): one merge, proved in the
    locale \<open>tier_source\<close> and interpreted on local files and on cached objects; an output holds the rows of its sources in time order.
  \<^item> \<^verbatim>\<open>NasKey\<close> (\<^verbatim>\<open>nas_storage/nas_key.py\<close>): object keys and prefixes.
  \<^item> \<^verbatim>\<open>RetryQueue\<close> (\<^verbatim>\<open>nas_storage/retry_queue.py\<close>) and \<^verbatim>\<open>NasUploader\<close> (\<^verbatim>\<open>nas_storage/nas_uploader.py\<close>): the backlog table and the uploads. The queue
    satisfies the locale \<open>backlog\<close>, the uploader the locale \<open>put_interface\<close> that draining relies on; nothing is dropped, an object with another digest is never
    overwritten, and metadata stay true.
  \<^item> \<^verbatim>\<open>Promotion\<close> (\<^verbatim>\<open>compactor/promotion.py\<close>) and \<^verbatim>\<open>DualWriter\<close> (\<^verbatim>\<open>nas_storage/dual_writer.py\<close>): deleting a file once the store has it, and writing to both sides; no path
    loses the data.
  \<^item> \<^verbatim>\<open>Retention\<close> (\<^verbatim>\<open>compactor/gc.py\<close>, \<^verbatim>\<open>gc_daemon.py\<close>, \<^verbatim>\<open>wal/replay.py\<close>) and \<^verbatim>\<open>Barrier\<close> (\<^verbatim>\<open>nas_storage/compaction_barrier.py\<close>): which segments are deleted, and
    that waiting for the compactor ends.
  \<^item> \<^verbatim>\<open>IngestBlocker\<close> (\<^verbatim>\<open>capacity_probe.py\<close>, \<^verbatim>\<open>ingest_blocker.py\<close>): the fill ratios and the blocker's hysteresis as a function of the history of reports.

  \<^bold>\<open>The read path.\<close>
  \<^item> \<^verbatim>\<open>DrMode\<close> (\<^verbatim>\<open>io/dr_mode.py\<close>): the circuit breaker as a step relation with invariants over the reachable states, and its recovery.
  \<^item> \<^verbatim>\<open>ReaderCache\<close> (\<^verbatim>\<open>io/reader_cache.py\<close>): the cache with its byte budget, and the locale \<open>cache_interface\<close> that the readers use.
  \<^item> \<^verbatim>\<open>TierReader\<close> (\<^verbatim>\<open>io/tier_reader.py\<close>, \<^verbatim>\<open>cold_reader.py\<close>, \<^verbatim>\<open>l1_reader.py\<close>, \<^verbatim>\<open>api/deps.py\<close>): a read returns the bytes of the object, or of the
    local file where the fallback is allowed.
  \<^item> \<^verbatim>\<open>EndpointRouter\<close> (\<^verbatim>\<open>io/endpoint_router.py\<close>): flips, rollbacks and the grace mode.
  \<^item> \<^verbatim>\<open>Dedup\<close> (\<^verbatim>\<open>dedup.py\<close>): one row per logical key, proved in the locale \<open>keyed_dedup\<close> for candles, ticks and order-book events.
  \<^item> \<^verbatim>\<open>BarAggregation\<close> (\<^verbatim>\<open>aggregation/\<close>): the stateful aggregators emit the bars of a segmentation of each symbol's ticks; the locale
    \<open>threshold_bar\<close> covers volume, dollar and tick bars.
  \<^item> \<^verbatim>\<open>OrderbookReplay\<close> (\<^verbatim>\<open>orderbook_replay.py\<close>, \<^verbatim>\<open>storage.scan_orderbook_snapshots\<close>): scanning partitions and rebuilding the book; the locale \<open>row_scan\<close> extends the one of
    the deduplication.

  \<^bold>\<open>Migration and operations.\<close>
  \<^item> \<^verbatim>\<open>Rekey\<close> (\<^verbatim>\<open>nas_migration/rekey.py\<close>): the re-keying with its manifest; no run and no interruption loses an object.
  \<^item> \<^verbatim>\<open>HistoricalReclaim\<close> (\<^verbatim>\<open>compactor/historical_reclaim.py\<close>) and \<^verbatim>\<open>MigrationGc\<close> (\<^verbatim>\<open>nas_migration/gc_runner.py\<close>): what must hold before a local file is deleted.
  \<^item> \<^verbatim>\<open>InvariantHarness\<close> (\<^verbatim>\<open>nas_migration/invariant_harness.py\<close>): the eight checks of a partition, with the locale \<open>verifier\<close> that its callers use.
  \<^item> \<^verbatim>\<open>Backfill\<close> (\<^verbatim>\<open>nas_migration/backfill_orchestrator.py\<close>), \<^verbatim>\<open>CutoverVerifier\<close> (\<^verbatim>\<open>nas_migration/cutover_verifier.py\<close>), \<^verbatim>\<open>WindowRunner\<close>
    (\<^verbatim>\<open>ops/dual_write_window_runner.py\<close>), \<^verbatim>\<open>NasSop\<close> (\<^verbatim>\<open>ops/nas_unreachable_sop.py\<close>): the programs that use the harness, the uploader and the barrier, each with
    all its paths; what a run keeps, when it reports success, and the state after any history.

  \<^bold>\<open>Conventions.\<close> A stateful method is a function that returns its result or exception together with the state it leaves, also when it raises
  half-way. What comes from outside during a call (clock readings, outcomes of system calls, identifiers) is a record passed in, so a theorem holds for every
  behaviour of the surroundings. A method that runs under a lock is one step. Code that is not part of the repository is a parameter: the S3 client, SHA-256,
  pyarrow and the validator of the bar class; what is assumed of it is a hypothesis of the theorem, and the theorem after it instantiates it.

  \<^bold>\<open>Bounds and fuel.\<close> The parser of JSON has fuel twice the length of its text, and the round trip shows that this is enough. Listing a bucket, the drain of the
  queue and the polling of the barrier recurse on the pages, entries or rounds that are there; a loop that still waits after the given rounds is \<open>None\<close>, and
  that it ends is a theorem of its own. Time stamps are integers of microseconds, clock readings and fill ratios exact rationals; characters are code points below 256.

  \<^bold>\<open>Not modelled.\<close>
  \<^item> Libraries at work: the Arrow tables the L1 compactor (\<^verbatim>\<open>compactor/l1.py\<close>) builds, \<^verbatim>\<open>storage.py\<close>, \<^verbatim>\<open>tick_storage.py\<close>, \<^verbatim>\<open>orderbook_storage.py\<close>, \<^verbatim>\<open>schema_upgrade.py\<close>, the DuckDB
    and Polars code of \<^verbatim>\<open>cold/\<close>. Their substance is calls of pyarrow, DuckDB and Polars.
  \<^item> Daemons: the loops of \<^verbatim>\<open>collector.py\<close>, \<^verbatim>\<open>compactor/runner.py\<close>, \<^verbatim>\<open>health_server.py\<close> and the REST service of \<^verbatim>\<open>api/\<close>, which schedule the operations
    that are modelled; asyncio, threads that interleave inside a method, HTTP and WebSocket traffic.
  \<^item> Metrics, log lines, latencies, configuration files, the command line and the operator scripts.
\<close>

end
